(* ===== verification/Civet_Prelude.thy ===== *)
theory Civet_Prelude
  imports Main "HOL-Library.Word"
begin

unbundle bit_operations_syntax

text \<open>
  The prelude of the development: the representation of C characters and strings, the
  functions of the C library that the sources use (\<open>ctype.h\<close> in the C locale, \<open>string.h\<close>), the
  collections of facts the component theories share, and the generic interfaces (locales)
  that more than one component implements.

  A byte of a C buffer is a \<open>char\<close> (eight bits). A NUL-terminated string is the list of
  the characters in front of its terminator; a read at the terminator, one behind the
  last character, gives NUL. \<open>wf_cstr\<close> says that a list contains no NUL itself.
\<close>

named_theorems ctype_simps \<open>definitions of the character classes\<close>
named_theorems bounds_intros \<open>index and length bounds of the operations\<close>

section \<open>Characters\<close>

type_synonym byte = "8 word"

abbreviation NUL :: char where "NUL \<equiv> CHR 0x00"
abbreviation CR :: char where "CR \<equiv> CHR 0x0D"
abbreviation LF :: char where "LF \<equiv> CHR 0x0A"
abbreviation TAB :: char where "TAB \<equiv> CHR 0x09"
abbreviation SP :: char where "SP \<equiv> CHR '' ''"
abbreviation DQUOTE :: char where "DQUOTE \<equiv> CHR 0x22"
abbreviation BACKSLASH :: char where "BACKSLASH \<equiv> CHR 0x5C"

abbreviation code :: "char \<Rightarrow> nat" where "code c \<equiv> of_char c"

definition isdigit :: "char \<Rightarrow> bool" where [ctype_simps]:
  "isdigit c \<longleftrightarrow> 48 \<le> code c \<and> code c \<le> 57"

definition isupper :: "char \<Rightarrow> bool" where [ctype_simps]:
  "isupper c \<longleftrightarrow> 65 \<le> code c \<and> code c \<le> 90"

definition islower :: "char \<Rightarrow> bool" where [ctype_simps]:
  "islower c \<longleftrightarrow> 97 \<le> code c \<and> code c \<le> 122"

definition isalpha :: "char \<Rightarrow> bool" where [ctype_simps]:
  "isalpha c \<longleftrightarrow> isupper c \<or> islower c"

definition isalnum :: "char \<Rightarrow> bool" where [ctype_simps]:
  "isalnum c \<longleftrightarrow> isalpha c \<or> isdigit c"

definition isxdigit :: "char \<Rightarrow> bool" where [ctype_simps]:
  "isxdigit c \<longleftrightarrow> isdigit c \<or> (65 \<le> code c \<and> code c \<le> 70) \<or> (97 \<le> code c \<and> code c \<le> 102)"

definition isspace :: "char \<Rightarrow> bool" where [ctype_simps]:
  "isspace c \<longleftrightarrow> code c = 32 \<or> (9 \<le> code c \<and> code c \<le> 13)"

definition isprint :: "char \<Rightarrow> bool" where [ctype_simps]:
  "isprint c \<longleftrightarrow> 32 \<le> code c \<and> code c \<le> 126"

definition isgraph :: "char \<Rightarrow> bool" where [ctype_simps]:
  "isgraph c \<longleftrightarrow> 33 \<le> code c \<and> code c \<le> 126"

definition iscntrl :: "char \<Rightarrow> bool" where [ctype_simps]:
  "iscntrl c \<longleftrightarrow> code c < 32 \<or> code c = 127"

definition tolower :: "char \<Rightarrow> char" where
  "tolower c = (if isupper c then char_of (code c + 32) else c)"

lemma code_less_256 [simp]: "code c < 256"
  using of_char_mod_256 [where 'a = nat, of c] by (metis mod_less_divisor zero_less_numeral)

lemma code_char_of [simp]: "code (char_of (n::nat)) = n mod 256"
  by (simp add: of_char_of)

lemma code_eq_iff: "code c = code d \<longleftrightarrow> c = d"
  by simp

lemma unat_of_char [simp]: "unat (of_char c :: byte) = code c"
proof -
  have "(of_char c :: byte) = of_nat (code c)"
    by (simp add: of_char_def horner_sum_foldr of_bool_def)
  then show ?thesis by (simp add: unat_of_nat take_bit_eq_mod)
qed

lemma code_tolower: "code (tolower c) = (if isupper c then code c + 32 else code c)"
  by (auto simp: tolower_def ctype_simps)

lemma tolower_NUL [simp]: "tolower NUL = NUL"
  by (simp add: tolower_def ctype_simps)

lemma tolower_eq_NUL [simp]: "tolower c = NUL \<longleftrightarrow> c = NUL"
proof -
  have "code (tolower c) = code NUL \<longleftrightarrow> code c = code NUL"
    by (auto simp: code_tolower ctype_simps)
  then show ?thesis by (simp only: code_eq_iff)
qed

lemma tolower_idem [simp]: "tolower (tolower c) = tolower c"
  by (rule code_eq_iff [THEN iffD1]) (simp add: code_tolower ctype_simps)

section \<open>Strings\<close>

definition wf_cstr :: "string \<Rightarrow> bool" where
  "wf_cstr s \<longleftrightarrow> NUL \<notin> set s"

text \<open>The C string at the start of a buffer, and a read at an index of a C string.\<close>

definition cstr :: "string \<Rightarrow> string" where
  "cstr b = takeWhile (\<lambda>c. c \<noteq> NUL) b"

definition rd :: "string \<Rightarrow> nat \<Rightarrow> char" where
  "rd s i = (if i < length s then s ! i else NUL)"

definition hd0 :: "string \<Rightarrow> char" where
  "hd0 s = (case s of [] \<Rightarrow> NUL | c # _ \<Rightarrow> c)"

definition strcspn :: "string \<Rightarrow> string \<Rightarrow> nat" where
  "strcspn s rejected = length (takeWhile (\<lambda>c. c \<notin> set rejected) s)"

definition strspn :: "string \<Rightarrow> string \<Rightarrow> nat" where
  "strspn s accepted = length (takeWhile (\<lambda>c. c \<in> set accepted) s)"

text \<open>\<open>memchr\<close> and \<open>strchr\<close>: the index of the first occurrence.\<close>

fun memchr :: "char \<Rightarrow> string \<Rightarrow> nat option" where
  "memchr c [] = None"
| "memchr c (x # xs) = (if x = c then Some 0 else map_option Suc (memchr c xs))"

lemma wf_cstr_simps [simp]:
  "wf_cstr []" "wf_cstr (c # s) \<longleftrightarrow> c \<noteq> NUL \<and> wf_cstr s" "wf_cstr (s @ t) \<longleftrightarrow> wf_cstr s \<and> wf_cstr t"
  by (auto simp: wf_cstr_def)

lemma wf_cstr_take [simp, intro]: "wf_cstr s \<Longrightarrow> wf_cstr (take n s)"
  by (auto simp: wf_cstr_def dest: in_set_takeD)

lemma wf_cstr_drop [simp, intro]: "wf_cstr s \<Longrightarrow> wf_cstr (drop n s)"
  by (auto simp: wf_cstr_def dest: in_set_dropD)

lemma wf_cstr_cstr [simp, intro]: "wf_cstr (cstr b)"
  by (auto simp: wf_cstr_def cstr_def dest: set_takeWhileD)

lemma cstr_simps [simp]:
  "cstr [] = []" "cstr (c # s) = (if c = NUL then [] else c # cstr s)"
  by (simp_all add: cstr_def)

lemma cstr_wf: "wf_cstr s \<Longrightarrow> cstr s = s"
  by (induction s) auto

lemma cstr_append_NUL: "wf_cstr s \<Longrightarrow> cstr (s @ NUL # r) = s"
  by (induction s) auto

lemma hd0_simps [simp]: "hd0 [] = NUL" "hd0 (c # s) = c"
  by (simp_all add: hd0_def)

lemma rd_simps [simp]:
  "rd [] i = NUL" "rd (c # s) 0 = c" "rd (c # s) (Suc i) = rd s i"
  by (simp_all add: rd_def)

lemma rd_drop [simp]: "rd (drop k s) i = rd s (k + i)"
  by (auto simp: rd_def)

lemma rd_in: "i < length s \<Longrightarrow> rd s i = s ! i"
  by (simp add: rd_def)

lemma rd_nonNUL: "rd s i \<noteq> NUL \<Longrightarrow> i < length s"
  by (auto simp: rd_def split: if_splits)

lemma rd_wf_iff: "wf_cstr s \<Longrightarrow> rd s i = NUL \<longleftrightarrow> length s \<le> i"
  by (auto simp: rd_def wf_cstr_def in_set_conv_nth)

lemma strcspn_le [simp, bounds_intros]: "strcspn s r \<le> length s"
  unfolding strcspn_def by (rule length_takeWhile_le)

lemma strspn_le [simp, bounds_intros]: "strspn s a \<le> length s"
  unfolding strspn_def by (rule length_takeWhile_le)

lemma memchr_Some_iff:
  "memchr c s = Some i \<longleftrightarrow> i < length s \<and> s ! i = c \<and> c \<notin> set (take i s)"
proof (induction s arbitrary: i)
  case Nil
  then show ?case by simp
next
  case (Cons x xs)
  then show ?case by (cases i) auto
qed

lemma memchr_None_iff: "memchr c s = None \<longleftrightarrow> c \<notin> set s"
  by (induction s) auto

lemma memchr_less: "memchr c s = Some i \<Longrightarrow> i < length s"
  by (simp add: memchr_Some_iff)

lemma memchr_split: "memchr c s = Some i \<Longrightarrow> s = take i s @ c # drop (Suc i) s"
  by (metis memchr_Some_iff id_take_nth_drop)

text \<open>The digit table that several functions share (\<open>static const char *hex\<close>).\<close>

definition hex_digit :: "nat \<Rightarrow> char" where
  "hex_digit n = ''0123456789abcdef'' ! n"

section \<open>Bits and bytes\<close>

lemma or_disjoint_nat: "m < 2 ^ k \<Longrightarrow> push_bit k n OR m = 2 ^ k * n + (m::nat)"
proof -
  assume "m < 2 ^ k"
  then have m: "m = take_bit k m" by (simp add: take_bit_nat_eq_self)
  have "push_bit k n AND take_bit k m = 0" by (simp add: bit_eq_iff bit_simps)
  then have "push_bit k n AND m = 0" using m by simp
  then have "push_bit k n OR m = push_bit k n + m" by (simp add: disjunctive_add_eq_or)
  then show ?thesis by (simp add: push_bit_eq_mult mult.commute)
qed

lemma and_low_bits: "a AND 3 = a mod (4::nat)" "a AND 15 = a mod (16::nat)" "a AND 63 = a mod (64::nat)"
  using take_bit_eq_mask [of 2 a] take_bit_eq_mask [of 4 a] take_bit_eq_mask [of 6 a]
  by (simp_all add: mask_eq_exp_minus_1 take_bit_eq_mod)

lemma unat_byte_less [simp]: "unat (a::byte) < 256"
  using unsigned_less [of a] by simp

lemma unat_byte_add: "unat (x + y :: byte) = (unat x + unat y) mod 256"
  by (simp add: unat_word_ariths)

lemma unat_byte_push: "unat (push_bit k (x::byte)) = (2 ^ k * unat x) mod 256"
  unfolding unsigned_push_bit_eq by (simp add: take_bit_eq_mod push_bit_eq_mult mult.commute)

lemma unat_byte_drop: "unat (drop_bit k (x::byte)) = unat x div 2 ^ k"
  unfolding unsigned_drop_bit_eq by (simp add: take_bit_eq_mod drop_bit_eq_div)

lemma unat_byte_of_nat: "unat (of_nat n :: byte) = n mod 256"
  by (simp add: unsigned_of_nat take_bit_eq_mod)

lemmas unat_byte_ops = unat_byte_add unat_byte_push unat_byte_drop unat_byte_of_nat

lemma byte_eqI: "unat (x::byte) = unat y \<Longrightarrow> x = y"
  by (simp add: word_unat_eq_iff)

section \<open>Shared interfaces\<close>

text \<open>
  A three-way comparison function as the C library's sorting functions expect it: the sign
  of the result orders the two arguments, and the order is a total preorder.
\<close>

locale comparator =
  fixes cmp :: "'a \<Rightarrow> 'a \<Rightarrow> int"
  assumes cmp_sym: "cmp y x > 0 \<longleftrightarrow> cmp x y < 0"
    and cmp_trans: "\<lbrakk> cmp x y \<le> 0; cmp y z \<le> 0 \<rbrakk> \<Longrightarrow> cmp x z \<le> 0"
begin

lemma cmp_total: "cmp x y \<le> 0 \<or> cmp y x \<le> 0"
  using cmp_sym [of x y] by linarith

lemma cmp_refl: "cmp x x = 0"
  using cmp_sym [of x x] by linarith

lemma cmp_zero_sym: "cmp x y = 0 \<longleftrightarrow> cmp y x = 0"
  using cmp_sym [of x y] cmp_sym [of y x] by linarith

lemma cmp_zero_trans: "cmp x y = 0 \<Longrightarrow> cmp y z = 0 \<Longrightarrow> cmp x z = 0"
  using cmp_trans [of x y z] cmp_trans [of z y x] cmp_zero_sym cmp_sym [of x z]
  by (metis dual_order.refl le_less less_le_not_le)

end

text \<open>
  An encoding with a partial decoder: every encoded value decodes to itself. Injectivity
  of the encoder follows once and for all.
\<close>

locale codec =
  fixes enc :: "'a \<Rightarrow> 'b" and dec :: "'b \<Rightarrow> 'a option" and valid :: "'a \<Rightarrow> bool"
  assumes dec_enc: "valid x \<Longrightarrow> dec (enc x) = Some x"
begin

lemma enc_inj: "\<lbrakk> valid x; valid y; enc x = enc y \<rbrakk> \<Longrightarrow> x = y"
  by (metis dec_enc option.inject)

lemma inj_on_enc: "inj_on enc {x. valid x}"
  by (auto intro!: inj_onI enc_inj)

lemma dec_total_on_range: "valid x \<Longrightarrow> dec (enc x) \<noteq> None"
  by (simp add: dec_enc)

end

end
