(* ===== verification/Base64.thy ===== *)
theory Base64
  imports Civet_Prelude
begin

text \<open>
  \<open>mg_base64_encode\<close>, \<open>b64reverse\<close> and \<open>mg_base64_decode\<close> of \<open>src/civetweb.c\<close>. Source and
  destination bytes are \<open>8 word\<close>s and characters. The C functions take an in/out length
  pointer \<open>dst_len\<close>; \<open>None\<close> is the NULL pointer. A result is the C return value, the new
  value of \<open>*dst_len\<close> and the bytes written from \<open>dst\<close> on.
\<close>

section \<open>Encoder\<close>

definition b64 :: string where
  "b64 = ''ABCDEFGHIJKLMNOPQRSTUVWXYZabcdefghijklmnopqrstuvwxyz0123456789+/''"

text \<open>The C \<open>int\<close> computations of the encoder stay below 256: they are done on \<open>nat\<close>.\<close>

definition b64_at :: "nat \<Rightarrow> char" where
  "b64_at n = b64 ! n"

text \<open>One pass of the loop for each group of at most three bytes, then the padding.\<close>

fun base64_groups :: "byte list \<Rightarrow> string" where
  "base64_groups [] = []"
| "base64_groups [a] =
     [b64_at (drop_bit 2 (unat a)),
      b64_at (push_bit 4 (unat a AND 3))]"
| "base64_groups [a, b] =
     [b64_at (drop_bit 2 (unat a)),
      b64_at (push_bit 4 (unat a AND 3) OR drop_bit 4 (unat b)),
      b64_at (push_bit 2 (unat b AND 15))]"
| "base64_groups (a # b # c # src) =
     b64_at (drop_bit 2 (unat a))
     # b64_at (push_bit 4 (unat a AND 3) OR drop_bit 4 (unat b))
     # b64_at (push_bit 2 (unat b AND 15) OR drop_bit 6 (unat c))
     # b64_at (unat c AND 63)
     # base64_groups src"

function base64_pad :: "nat \<Rightarrow> string" where
  "base64_pad j = (if j mod 4 \<noteq> 0 then CHR ''='' # base64_pad (j + 1) else [])"
  by pat_completeness auto
termination
  by (relation "measure (\<lambda>j. (4 - j mod 4) mod 4)") (auto simp: mod_Suc split: if_splits)

declare base64_pad.simps [simp del]

definition base64_text :: "byte list \<Rightarrow> string" where
  "base64_text src = (let out = base64_groups src in out @ base64_pad (length out))"

definition mg_base64_encode :: "byte list \<Rightarrow> nat option \<Rightarrow> int \<times> nat option \<times> string" where
  "mg_base64_encode src dst_len =
     (let expected_len = ((length src + 2) div 3) * 4 + 1;
          dst = base64_text src @ [NUL]
      in case dst_len of
           None \<Rightarrow> (-1, None, dst)
         | Some n \<Rightarrow>
             if n < expected_len
             then (0, Some expected_len, if n > 0 then [NUL] else [])
             else (-1, Some (length dst), dst))"

section \<open>Decoder\<close>

definition b64reverse :: "char \<Rightarrow> byte" where
  "b64reverse letter =
     (let n = code letter in
      if 65 \<le> n \<and> n \<le> 90 then of_nat (n - 65)
      else if 97 \<le> n \<and> n \<le> 122 then of_nat (n - 97 + 26)
      else if 48 \<le> n \<and> n \<le> 57 then of_nat (n - 48 + 52)
      else if n = 43 then 62
      else if n = 47 then 63
      else if n = 61 then 255
      else 254)"

text \<open>
  The decoded bytes, or \<open>Inl\<close> of the index of the character that stopped the loop (the C
  function returns that index at once) and the bytes decoded before it. \<open>base64_bytes i src out\<close> is the loop at
  index \<open>i\<close>, with \<open>src\<close> the characters from there on and \<open>out\<close> the bytes so far.
  A read behind \<open>src_len\<close> is taken as 0, as in the source.
\<close>

definition base64_group_bytes :: "byte \<Rightarrow> byte \<Rightarrow> byte \<Rightarrow> byte \<Rightarrow> byte list" where
  "base64_group_bytes a b c d =
     (push_bit 2 a + drop_bit 4 b)
     # (if c \<noteq> 255
        then (push_bit 4 b + drop_bit 2 c) # (if d \<noteq> 255 then [push_bit 6 c + d] else [])
        else [])"

function base64_bytes :: "nat \<Rightarrow> string \<Rightarrow> byte list \<Rightarrow> (nat \<times> byte list) + byte list" where
  "base64_bytes i src out =
     (if src = [] then Inr out
      else
        let a = b64reverse (rd src 0);
            b = b64reverse (rd src 1);
            c = b64reverse (rd src 2);
            d = b64reverse (rd src 3)
        in if a \<ge> 254 then Inl (i, out)
           else if b \<ge> 254 then Inl (i + 1, out)
           else if c = 254 then Inl (i + 2, out)
           else if d = 254 then Inl (i + 3, out)
           else base64_bytes (i + 4) (drop 4 src) (out @ base64_group_bytes a b c d))"
  by pat_completeness auto
termination
  by (relation "measure (\<lambda>(i, src, out). length src)") auto

declare base64_bytes.simps [simp del]

text \<open>
  The stores: a byte at an index below \<open>dst_len_limit\<close> is written, the terminating zero
  likewise. With \<open>dst_len = NULL\<close> the limit is the largest \<open>size_t\<close>; no buffer reaches it,
  so all bytes are written. On an early return \<open>*dst_len\<close> has been set to 0 and the bytes
  of the groups before the offending one are stored.
\<close>

definition mg_base64_decode ::
    "string \<Rightarrow> nat option \<Rightarrow> int \<times> nat option \<times> byte list" where
  "mg_base64_decode src dst_len =
     (case base64_bytes 0 src [] of
        Inl (i, out) \<Rightarrow>
          (int i, map_option (\<lambda>_. 0) dst_len,
           case dst_len of None \<Rightarrow> out | Some limit \<Rightarrow> take limit out)
      | Inr out \<Rightarrow>
          let stored = out @ [0]; used = length stored
          in case dst_len of
               None \<Rightarrow> (-1, None, stored)
             | Some limit \<Rightarrow>
                 (if used > limit then 0 else -1, Some used, take limit stored))"

section \<open>Lengths\<close>

lemma base64_pad_mod:
  "base64_pad j = (if j mod 4 = 0 then [] else replicate (4 - j mod 4) (CHR ''=''))"
proof -
  have "j mod 4 = 0 \<or> j mod 4 = 1 \<or> j mod 4 = 2 \<or> j mod 4 = 3" by linarith
  then show ?thesis
    by (elim disjE)
      (simp_all add: base64_pad.simps [of j] base64_pad.simps [of "j + 1"]
        base64_pad.simps [of "j + 2"] base64_pad.simps [of "j + 3"] mod_Suc
        base64_pad.simps [of "Suc j"] base64_pad.simps [of "Suc (Suc j)"]
        base64_pad.simps [of "Suc (Suc (Suc j))"] numeral_2_eq_2 numeral_3_eq_3)
qed

lemma length_base64_pad: "length (base64_pad j) = (4 - j mod 4) mod 4"
  by (auto simp: base64_pad_mod)

lemma length_base64_groups: "length (base64_groups src) = (4 * length src + 2) div 3"
  by (induction src rule: base64_groups.induct) auto

lemma base64_length_arith:
  "(4 * n + 2) div 3 + (4 - (4 * n + 2) div 3 mod 4) mod 4 = ((n + 2) div 3) * (4::nat)"
proof -
  define q where "q = n div 3"
  consider "n = 3 * q" | "n = 3 * q + 1" | "n = 3 * q + 2" unfolding q_def by linarith
  then show ?thesis
  proof cases
    case 1
    then have "(4 * n + 2) div 3 = 4 * q" "(n + 2) div 3 = q" by linarith+
    then show ?thesis by simp
  next
    case 2
    then have d: "(4 * n + 2) div 3 = 4 * q + 2" "(n + 2) div 3 = q + 1" by linarith+
    show ?thesis unfolding d mod_mult_self4 by simp
  next
    case 3
    then have d: "(4 * n + 2) div 3 = 4 * q + 3" "(n + 2) div 3 = q + 1" by linarith+
    show ?thesis unfolding d mod_mult_self4 by simp
  qed
qed

lemma length_base64_text: "length (base64_text src) = ((length src + 2) div 3) * 4"
  using base64_length_arith [of "length src"]
  by (simp only: base64_text_def Let_def length_append length_base64_pad length_base64_groups)

text \<open>The encoder writes exactly the length it asks the caller to provide.\<close>

lemma mg_base64_encode_length:
  assumes "mg_base64_encode src dst_len = (r, dl, dst)"
  shows "(case dst_len of None \<Rightarrow> True | Some n \<Rightarrow> length dst \<le> n) \<and>
    (r = -1 \<longrightarrow> length dst = ((length src + 2) div 3) * 4 + 1)"
  using assms
  by (auto simp: mg_base64_encode_def Let_def length_base64_text split: option.splits if_splits)

section \<open>Round trip\<close>

lemma b64reverse_b64_at: "n < 64 \<Longrightarrow> b64reverse (b64_at n) = of_nat n"
proof -
  have "\<forall>n \<in> {0..<64}. b64reverse (b64_at n) = of_nat n"
    unfolding atLeastLessThan_upt by (simp add: b64_at_def b64_def b64reverse_def upt_rec)
  moreover assume "n < 64"
  ultimately show ?thesis by simp
qed



text \<open>The six-bit values of a group, as arithmetic on the bytes.\<close>

lemma sextets:
  "drop_bit 2 (unat (a::byte)) = unat a div 4"
  "push_bit 4 (unat a AND 3) = 16 * (unat a mod 4)"
  "push_bit 4 (unat a AND 3) OR drop_bit 4 (unat (b::byte)) = 16 * (unat a mod 4) + unat b div 16"
  "push_bit 2 (unat b AND 15) = 4 * (unat b mod 16)"
  "push_bit 2 (unat b AND 15) OR drop_bit 6 (unat (c::byte)) = 4 * (unat b mod 16) + unat c div 64"
  "unat c AND 63 = unat c mod 64"
  using or_disjoint_nat [of "unat b div 16" 4 "unat a mod 4"]
    or_disjoint_nat [of "unat c div 64" 2 "unat b mod 16"]
    less_mult_imp_div_less [of "unat b" 16 16] less_mult_imp_div_less [of "unat c" 4 64]
  by (simp_all add: and_low_bits drop_bit_eq_div push_bit_eq_mult)

lemma sextet_bounds:
  "unat (a::byte) div 4 < 64" "16 * (unat a mod 4) < 64"
  "16 * (unat a mod 4) + unat (b::byte) div 16 < 64" "4 * (unat b mod 16) < 64"
  "4 * (unat b mod 16) + unat (c::byte) div 64 < 64" "unat c mod 64 < 64"
  using unat_byte_less [of a] unat_byte_less [of b] unat_byte_less [of c] by linarith+


lemma join_arith:
  fixes a b c :: nat
  assumes "a < 256" "b < 256" "c < 256"
  shows "(2 ^ 2 * (a div 4) mod 256 + (16 * (a mod 4) + b div 16) div 2 ^ 4) mod 256 = a"
    and "(2 ^ 2 * (a div 4) mod 256 + (16 * (a mod 4)) div 2 ^ 4) mod 256 = a"
    and "(2 ^ 4 * (16 * (a mod 4) + b div 16) mod 256 + (4 * (b mod 16) + c div 64) div 2 ^ 2) mod 256 = b"
    and "(2 ^ 4 * (16 * (a mod 4) + b div 16) mod 256 + (4 * (b mod 16)) div 2 ^ 2) mod 256 = b"
    and "(2 ^ 6 * (4 * (b mod 16) + c div 64) mod 256 + c mod 64) mod 256 = c"
  using assms by simp_all

text \<open>The decoder joins the sextets to the bytes they come from.\<close>

lemma unat_sextet: "n < 64 \<Longrightarrow> unat (of_nat n :: byte) = n"
  by (simp add: unat_byte_of_nat)

lemma of_nat_sextet:
  assumes "n < 64"
  shows "of_nat n \<noteq> (255::byte)" "of_nat n \<noteq> (254::byte)" "\<not> (254::byte) \<le> of_nat n"
  using unat_sextet [OF assms] assms
  by (auto simp: word_le_nat_alt dest: arg_cong [where f = unat])

lemmas unat_join = unat_byte_add unat_byte_push unat_byte_drop unat_sextet sextet_bounds

lemma join_bytes:
  "push_bit 2 (of_nat (unat a div 4)) + drop_bit 4 (of_nat (16 * (unat a mod 4) + unat b div 16)) = (a::byte)"
  "push_bit 2 (of_nat (unat a div 4)) + drop_bit 4 (of_nat (16 * (unat a mod 4))) = (a::byte)"
  "push_bit 4 (of_nat (16 * (unat a mod 4) + unat b div 16))
     + drop_bit 2 (of_nat (4 * (unat b mod 16) + unat c div 64)) = (b::byte)"
  "push_bit 4 (of_nat (16 * (unat a mod 4) + unat b div 16)) + drop_bit 2 (of_nat (4 * (unat b mod 16))) = (b::byte)"
  "push_bit 6 (of_nat (4 * (unat b mod 16) + unat c div 64)) + of_nat (unat c mod 64) = (c::byte)"
  by (rule byte_eqI, simp only: unat_join join_arith [OF unat_byte_less unat_byte_less unat_byte_less])+

lemma base64_groups_arith:
  "base64_groups [a] = [b64_at (unat a div 4), b64_at (16 * (unat a mod 4))]"
  "base64_groups [a, b] =
     [b64_at (unat a div 4), b64_at (16 * (unat a mod 4) + unat b div 16), b64_at (4 * (unat b mod 16))]"
  "base64_groups (a # b # c # src) =
     b64_at (unat a div 4) # b64_at (16 * (unat a mod 4) + unat b div 16)
     # b64_at (4 * (unat b mod 16) + unat c div 64) # b64_at (unat c mod 64) # base64_groups src"
  subgoal by (simp only: base64_groups.simps sextets)
  subgoal by (simp only: base64_groups.simps sextets(1,3)) (simp only: sextets(4))
  subgoal by (simp only: base64_groups.simps sextets(1,3,5,6))
  done

declare base64_groups.simps(2-4) [simp del]

lemma base64_text_Cons4:
  "base64_text (a # b # c # src) = take 4 (base64_groups (a # b # c # src)) @ base64_text src"
  by (simp add: base64_text_def Let_def base64_pad_mod base64_groups_arith)

lemma b64reverse_pad [simp]: "b64reverse (CHR ''='') = 255"
  by (simp add: b64reverse_def)

lemma base64_bytes_Nil [simp]: "base64_bytes i [] out = Inr out"
  by (simp add: base64_bytes.simps)

lemma base64_bytes_step:
  "base64_bytes i (w # x # y # z # r) out =
     (if b64reverse w \<ge> 254 then Inl (i, out)
      else if b64reverse x \<ge> 254 then Inl (i + 1, out)
      else if b64reverse y = 254 then Inl (i + 2, out)
      else if b64reverse z = 254 then Inl (i + 3, out)
      else base64_bytes (i + 4) r
        (out @ base64_group_bytes (b64reverse w) (b64reverse x) (b64reverse y) (b64reverse z)))"
  by (subst base64_bytes.simps) (simp add: Let_def rd_def)

lemma base64_text_short:
  "base64_text [] = []"
  "base64_text [a] = base64_groups [a] @ [CHR ''='', CHR ''='']"
  "base64_text [a, b] = base64_groups [a, b] @ [CHR ''='']"
  by (simp_all add: base64_text_def base64_pad_mod numeral_2_eq_2 Let_def base64_groups_arith)

lemma base64_bytes_text: "base64_bytes i (base64_text src) out = Inr (out @ src)"
proof (induction src arbitrary: i out rule: base64_groups.induct)
  case 1
  show ?case by (simp add: base64_text_short)
next
  case (2 a)
  show ?case
    by (simp add: base64_text_short base64_bytes_step base64_groups_arith sextet_bounds b64reverse_b64_at
        of_nat_sextet base64_group_bytes_def join_bytes
        del: of_nat_mult of_nat_add)
next
  case (3 a b)
  show ?case
    by (simp add: base64_text_short base64_bytes_step base64_groups_arith sextet_bounds b64reverse_b64_at
        of_nat_sextet base64_group_bytes_def join_bytes
        del: of_nat_mult of_nat_add)
next
  case (4 a b c src)
  show ?case
    by (simp add: base64_text_Cons4 base64_bytes_step base64_groups_arith sextet_bounds b64reverse_b64_at
        of_nat_sextet base64_group_bytes_def join_bytes 4
        del: of_nat_mult of_nat_add)
qed

section \<open>The C functions\<close>

lemma base64_text_wf: "wf_cstr (base64_text src)"
proof -
  have "set (base64_groups src) \<subseteq> b64_at ` {0..<64}"
    by (induction src rule: base64_groups.induct)
      (auto simp: base64_groups_arith intro!: imageI intro: sextet_bounds)
  moreover have "NUL \<notin> b64_at ` {0..<64}"
  proof
    assume "NUL \<in> b64_at ` {0..<64}"
    then obtain n where "n < 64" and "b64_at n = NUL" by auto
    then have "of_nat n = b64reverse NUL" using b64reverse_b64_at [of n] by simp
    then have "of_nat n = (254::byte)" by (simp add: b64reverse_def)
    with of_nat_sextet(2) [OF \<open>n < 64\<close>] show False by simp
  qed
  moreover have "NUL \<notin> set (base64_pad n)" for n
    by (simp add: base64_pad_mod)
  ultimately show ?thesis by (auto simp: wf_cstr_def base64_text_def Let_def)
qed

lemma mg_base64_encode_ok:
  "mg_base64_encode src dl = (-1, dl', dst) \<Longrightarrow> dst = base64_text src @ [NUL]"
  by (auto simp: mg_base64_encode_def Let_def split: option.splits if_splits)

text \<open>The decoder applied to the text the encoder leaves in its buffer.\<close>

definition b64_decoded :: "string \<Rightarrow> byte list option" where
  "b64_decoded s = (case mg_base64_decode s None of (r, _, d) \<Rightarrow> if r = -1 then Some (butlast d) else None)"

interpretation base64: codec base64_text b64_decoded "\<lambda>_. True"
  by unfold_locales (simp add: b64_decoded_def mg_base64_decode_def base64_bytes_text)

lemma mg_base64_decode_text:
  "mg_base64_decode (base64_text src) None = (-1, None, src @ [0])"
  "mg_base64_decode (base64_text src) (Some limit) =
     (if length src < limit then -1 else 0, Some (length src + 1), take limit (src @ [0]))"
  by (simp_all add: mg_base64_decode_def base64_bytes_text)

text \<open>The decoder never writes outside the buffer it is given.\<close>

lemma mg_base64_decode_bound:
  "mg_base64_decode s (Some limit) = (r, dl, d) \<Longrightarrow> length d \<le> limit"
  by (auto simp: mg_base64_decode_def Let_def split: sum.splits)

section \<open>Properties\<close>

text \<open>
  C11: the decoder recovers every byte sequence from the text the encoder produced, and
  terminates it; with a limit it stores no more than the limit and reports whether it was
  enough.
\<close>

theorem mg_base64_roundtrip:
  assumes "mg_base64_encode src dl = (-1, dl', dst)"
  shows "mg_base64_decode (butlast dst) None = (-1, None, src @ [0]) \<and>
    mg_base64_decode (butlast dst) (Some limit) =
      (if length src < limit then -1 else 0, Some (length src + 1), take limit (src @ [0]))"
  using mg_base64_encode_ok [OF assms] by (simp add: mg_base64_decode_text)

lemma mg_base64_roundtrip_witness:
  "\<exists>dl dst. mg_base64_encode [77, 97] None = (-1, dl, dst) \<and>
     mg_base64_decode (butlast dst) None = (-1, None, [77, 97] @ [0])"
proof -
  obtain dl dst where e: "mg_base64_encode [77, 97] None = (-1, dl, dst)"
    by (simp add: mg_base64_encode_def Let_def)
  then show ?thesis using mg_base64_roundtrip [OF e] by blast
qed

text \<open>
  The decoder respects the limit for every input text, well-formed or not.
\<close>

lemma mg_base64_decode_in_limit:
  assumes "mg_base64_decode s (Some limit) = (r, dl, d)"
  shows "length d \<le> limit"
  by (rule mg_base64_decode_bound [OF assms])

lemma mg_base64_decode_in_limit_witness:
  "\<exists>r dl d. mg_base64_decode ''TWE='' (Some 1) = (r, dl, d) \<and> length d \<le> 1"
proof -
  obtain r dl d where "mg_base64_decode ''TWE='' (Some 1) = (r, dl, d)" by (metis prod_cases3)
  then show ?thesis using mg_base64_decode_in_limit by blast
qed

end
