(* ===== verification/C_Strings.thy ===== *)
theory C_Strings
  imports Civet_Prelude
begin

text \<open>
  The string helpers of \<open>src/civetweb.c\<close> (\<open>mg_strlcpy\<close> to \<open>mg_strcasestr\<close>): bounded copy,
  case-insensitive comparison, and case-insensitive substring search. Each loop is a
  recursion over the remaining characters; the comparison results are the C \<open>int\<close>
  differences, so the sign is kept.
\<close>

section \<open>Operations\<close>

text \<open>
  \<open>mg_strlcpy\<close> returns the bytes it writes to \<open>dst\<close>, the terminator included. The
  source is the buffer behind \<open>src\<close>; the loop stops at its first NUL.
\<close>

fun mg_strlcpy :: "string \<Rightarrow> nat \<Rightarrow> string" where
  "mg_strlcpy [] n = [NUL]"
| "mg_strlcpy (c # src) n =
     (if c \<noteq> NUL \<and> n > 1 then c # mg_strlcpy src (n - 1) else [NUL])"

definition lowercase :: "char \<Rightarrow> int" where
  "lowercase c = int (code (tolower c))"

fun mg_strncasecmp :: "string \<Rightarrow> string \<Rightarrow> nat \<Rightarrow> int" where
  "mg_strncasecmp s1 s2 0 = 0"
| "mg_strncasecmp s1 s2 (Suc len) =
     (let diff = lowercase (hd0 s1) - lowercase (hd0 s2)
      in if diff = 0 \<and> hd0 s1 \<noteq> NUL \<and> len > 0
         then mg_strncasecmp (tl s1) (tl s2) len else diff)"

fun mg_strcasecmp :: "string \<Rightarrow> string \<Rightarrow> int" where
  "mg_strcasecmp [] s2 = lowercase NUL - lowercase (hd0 s2)"
| "mg_strcasecmp (c # s1) s2 =
     (let diff = lowercase c - lowercase (hd0 s2)
      in if diff = 0 \<and> c \<noteq> NUL then mg_strcasecmp s1 (tl s2) else diff)"

text \<open>\<open>mg_strndup\<close> allocates \<open>len + 1\<close> bytes and copies; the result is the new C string.\<close>

definition mg_strndup :: "string \<Rightarrow> nat \<Rightarrow> string" where
  "mg_strndup ptr len = cstr (mg_strlcpy ptr (len + 1))"

definition mg_strdup :: "string \<Rightarrow> string" where
  "mg_strdup str = mg_strndup str (length str)"

text \<open>
  \<open>mg_strcasestr\<close> tries every offset up to \<open>big_len - small_len\<close>; the result is the
  offset of the first match in \<open>big_str\<close>.
\<close>

definition mg_strcasestr :: "string \<Rightarrow> string \<Rightarrow> nat option" where
  "mg_strcasestr big small =
     (if length big \<ge> length small
      then find (\<lambda>i. mg_strncasecmp (drop i big) small (length small) = 0)
             [0..<Suc (length big - length small)]
      else None)"

section \<open>Bounded copy\<close>

lemma mg_strlcpy_eq: "n > 0 \<Longrightarrow> mg_strlcpy src n = take (n - 1) (cstr src) @ [NUL]"
proof (induction src n rule: mg_strlcpy.induct)
  case (1 n)
  then show ?case by simp
next
  case (2 c src n)
  then show ?case by (cases n) (auto simp: take_Cons split: nat.splits)
qed

lemma length_mg_strlcpy: "length (mg_strlcpy src n) \<le> max 1 n"
  by (induction src n rule: mg_strlcpy.induct) auto

lemma mg_strndup_eq: "mg_strndup ptr len = take len (cstr ptr)"
proof -
  have "wf_cstr (take len (cstr ptr))" by (intro wf_cstr_take wf_cstr_cstr)
  then show ?thesis by (simp add: mg_strndup_def mg_strlcpy_eq cstr_append_NUL)
qed

lemma mg_strdup_eq: "wf_cstr s \<Longrightarrow> mg_strdup s = s"
  by (simp add: mg_strdup_def mg_strndup_eq cstr_wf)

section \<open>Case-insensitive comparison\<close>

lemma lowercase_eq_iff: "lowercase c = lowercase d \<longleftrightarrow> tolower c = tolower d"
  by (simp add: lowercase_def)

lemma lowercase_NUL [simp]: "lowercase NUL = 0"
  by (simp add: lowercase_def)

lemma lowercase_nonneg [simp]: "0 \<le> lowercase c"
  by (simp add: lowercase_def)

lemma lowercase_eq_0 [simp]: "lowercase c = 0 \<longleftrightarrow> c = NUL"
  using lowercase_eq_iff [of c NUL] by simp

lemma lowercase_pos_iff [simp]: "0 < lowercase c \<longleftrightarrow> c \<noteq> NUL"
  using lowercase_eq_0 [of c] lowercase_nonneg [of c] by linarith

lemma lowercase_pos: "c \<noteq> NUL \<Longrightarrow> 0 < lowercase c"
  using lowercase_eq_0 [of c] lowercase_nonneg [of c] by linarith

lemma mg_strncasecmp_eq_0:
  "wf_cstr s1 \<Longrightarrow> wf_cstr s2 \<Longrightarrow>
   mg_strncasecmp s1 s2 n = 0 \<longleftrightarrow> map tolower (take n s1) = map tolower (take n s2)"
proof (induction s1 s2 n rule: mg_strncasecmp.induct)
  case (1 s1 s2)
  then show ?case by simp
next
  case (2 s1 s2 len)
  then show ?case
    by (cases s1; cases s2; cases "len = 0")
      (auto simp: Let_def lowercase_eq_iff dest: lowercase_pos)
qed

lemma mg_strcasecmp_eq_0:
  "wf_cstr s1 \<Longrightarrow> wf_cstr s2 \<Longrightarrow> mg_strcasecmp s1 s2 = 0 \<longleftrightarrow> map tolower s1 = map tolower s2"
proof (induction s1 s2 rule: mg_strcasecmp.induct)
  case (1 s2)
  then show ?case by (cases s2) auto
next
  case (2 c s1 s2)
  then show ?case
    by (cases s2) (auto simp: Let_def lowercase_eq_iff)
qed

text \<open>The two comparisons look only at the C strings their arguments start with.\<close>

lemma mg_strcasecmp_unfold:
  "mg_strcasecmp a b =
     (if lowercase (hd0 a) = lowercase (hd0 b) \<and> hd0 a \<noteq> NUL
      then mg_strcasecmp (tl a) (tl b) else lowercase (hd0 a) - lowercase (hd0 b))"
  by (cases a) (auto simp: Let_def)

declare mg_strcasecmp.simps [simp del]

lemma lowercase_eq_hd0_NUL: "lowercase x = lowercase y \<Longrightarrow> x = NUL \<longleftrightarrow> y = NUL"
  by (metis lowercase_eq_0)

lemma hd0_cstr [simp]: "hd0 (cstr s) = hd0 s"
  by (cases s) auto

lemma tl_cstr: "hd0 s \<noteq> NUL \<Longrightarrow> tl (cstr s) = cstr (tl s)"
  by (cases s) auto

lemma mg_strcasecmp_cstr: "mg_strcasecmp (cstr a) (cstr b) = mg_strcasecmp a b"
proof (induction a arbitrary: b)
  case Nil
  show ?case by (simp add: mg_strcasecmp.simps)
next
  case (Cons c a)
  have "hd0 b \<noteq> NUL \<Longrightarrow> mg_strcasecmp (cstr a) (tl (cstr b)) = mg_strcasecmp a (tl b)"
    by (simp add: tl_cstr Cons.IH)
  then show ?case
    using lowercase_eq_hd0_NUL [of c "hd0 b"]
    unfolding mg_strcasecmp_unfold [of "cstr (c # a)" "cstr b"] mg_strcasecmp_unfold [of "c # a" b]
    by auto
qed

lemma mg_strcasecmp_sym: "mg_strcasecmp b a = - mg_strcasecmp a b"
proof (induction a arbitrary: b)
  case Nil
  show ?case
    unfolding mg_strcasecmp_unfold [of "[]" b] mg_strcasecmp_unfold [of b "[]"] by auto
next
  case (Cons c a)
  show ?case
    using lowercase_eq_hd0_NUL [of c "hd0 b"]
    unfolding mg_strcasecmp_unfold [of "c # a" b] mg_strcasecmp_unfold [of b "c # a"]
    by (auto simp: Cons.IH)
qed

lemma mg_strcasecmp_le_0:
  "mg_strcasecmp a b \<le> 0 \<longleftrightarrow>
     lowercase (hd0 a) < lowercase (hd0 b) \<or>
     lowercase (hd0 a) = lowercase (hd0 b) \<and> (hd0 a = NUL \<or> mg_strcasecmp (tl a) (tl b) \<le> 0)"
proof (cases "lowercase (hd0 a) = lowercase (hd0 b) \<and> hd0 a \<noteq> NUL")
  case True
  then show ?thesis by (subst mg_strcasecmp_unfold) simp
next
  case False
  then show ?thesis
    using lowercase_nonneg [of "hd0 b"]
    by (subst mg_strcasecmp_unfold) auto
qed

lemma mg_strcasecmp_trans:
  "mg_strcasecmp a b \<le> 0 \<Longrightarrow> mg_strcasecmp b c \<le> 0 \<Longrightarrow> mg_strcasecmp a c \<le> 0"
proof (induction a arbitrary: b c)
  case Nil
  then show ?case by (simp add: mg_strcasecmp.simps)
next
  case (Cons x a)
  have nul: "lowercase x = lowercase (hd0 b) \<Longrightarrow> hd0 b = NUL \<longleftrightarrow> x = NUL"
    using lowercase_eq_hd0_NUL by blast
  have ab: "lowercase x < lowercase (hd0 b) \<or>
      lowercase x = lowercase (hd0 b) \<and> (x = NUL \<or> mg_strcasecmp a (tl b) \<le> 0)"
    using Cons.prems(1) by (simp add: mg_strcasecmp_le_0 [of "x # a" b])
  have bc: "lowercase (hd0 b) < lowercase (hd0 c) \<or>
      lowercase (hd0 b) = lowercase (hd0 c) \<and> (hd0 b = NUL \<or> mg_strcasecmp (tl b) (tl c) \<le> 0)"
    using Cons.prems(2) by (simp only: mg_strcasecmp_le_0 [of b c])
  have "lowercase x < lowercase (hd0 c) \<or>
      lowercase x = lowercase (hd0 c) \<and> (x = NUL \<or> mg_strcasecmp a (tl c) \<le> 0)"
    using ab bc nul Cons.IH [of "tl b" "tl c"] by linarith
  then show ?case by (simp add: mg_strcasecmp_le_0 [of "x # a" c])
qed

interpretation casecmp: comparator mg_strcasecmp
proof unfold_locales
  show "mg_strcasecmp y x > 0 \<longleftrightarrow> mg_strcasecmp x y < 0" for x y
    using mg_strcasecmp_sym [of y x] by linarith
  show "mg_strcasecmp x y \<le> 0 \<Longrightarrow> mg_strcasecmp y z \<le> 0 \<Longrightarrow> mg_strcasecmp x z \<le> 0" for x y z
    by (rule mg_strcasecmp_trans)
qed

section \<open>Case-insensitive search\<close>

lemma find_upt_Some_iff:
  "find P [0..<n] = Some i \<longleftrightarrow> i < n \<and> P i \<and> (\<forall>j < i. \<not> P j)"
  by (auto simp: find_Some_iff)

lemma mg_strcasestr_Some_iff:
  assumes "wf_cstr big" and "wf_cstr small"
  shows "mg_strcasestr big small = Some i \<longleftrightarrow>
    i + length small \<le> length big \<and>
    map tolower (take (length small) (drop i big)) = map tolower small \<and>
    (\<forall>j < i. map tolower (take (length small) (drop j big)) \<noteq> map tolower small)"
  using assms
  by (auto simp: mg_strcasestr_def find_upt_Some_iff mg_strncasecmp_eq_0 simp del: upt_Suc)

lemma mg_strcasestr_bound: "mg_strcasestr big small = Some i \<Longrightarrow> i + length small \<le> length big"
  by (auto simp: mg_strcasestr_def find_upt_Some_iff simp del: upt_Suc split: if_splits)

end
