(* ===== verification/C_Numbers.thy ===== *)
theory C_Numbers
  imports Civet_Prelude
begin

text \<open>
  Numbers in text, as the sources use them through the C library: printing with \<open>%u\<close>,
  \<open>%i\<close>, \<open>%lu\<close> and \<open>%x\<close>, and reading with \<open>strtol\<close>, \<open>strtoul\<close>, \<open>strtoll\<close>, \<open>atoi\<close> and the
  \<open>%d\<close> and \<open>%n\<close> conversions of \<open>sscanf\<close>. Reading clamps to the range of the result type, as
  the C library does.
\<close>

section \<open>Printing\<close>

function show_base :: "nat \<Rightarrow> nat \<Rightarrow> string" where
  "show_base b n =
     (if n < b \<or> b < 2 then [hex_digit n] else show_base b (n div b) @ [hex_digit (n mod b)])"
  by pat_completeness auto
termination
  by (relation "measure snd") auto

declare show_base.simps [simp del]

definition show_nat :: "nat \<Rightarrow> string" where "show_nat n = show_base 10 n"
definition show_hex :: "nat \<Rightarrow> string" where "show_hex n = show_base 16 n"

definition show_int :: "int \<Rightarrow> string" where
  "show_int i = (if i < 0 then CHR ''-'' # show_nat (nat (- i)) else show_nat (nat i))"

section \<open>Reading\<close>

definition digit_of :: "nat \<Rightarrow> char \<Rightarrow> nat option" where
  "digit_of base c =
     (let d = (if isdigit c then Some (code c - 48)
               else if islower c then Some (code c - 87)
               else if isupper c then Some (code c - 55) else None)
      in case d of None \<Rightarrow> None | Some v \<Rightarrow> if v < base then Some v else None)"

fun digits_value :: "nat \<Rightarrow> nat \<Rightarrow> string \<Rightarrow> nat \<times> string" where
  "digits_value base acc [] = (acc, [])"
| "digits_value base acc (c # s) =
     (case digit_of base c of None \<Rightarrow> (acc, c # s) | Some d \<Rightarrow> digits_value base (base * acc + d) s)"

text \<open>
  The common grammar: white space, an optional sign, with base 16 an optional \<open>0x\<close>, digits.
  The result is the sign, the value and the text behind the number; \<open>None\<close> if there are no
  digits (the C functions then give 0 and leave \<open>end\<close> at the start).
\<close>

definition scan_number :: "nat \<Rightarrow> string \<Rightarrow> (bool \<times> nat \<times> string) option" where
  "scan_number base s =
     (let s1 = dropWhile isspace s;
          neg = (hd0 s1 = CHR ''-'');
          s2 = (if hd0 s1 = CHR ''-'' \<or> hd0 s1 = CHR ''+'' then tl s1 else s1);
          s3 = (if base = 16 \<and> rd s2 0 = CHR ''0'' \<and> tolower (rd s2 1) = CHR ''x'' \<and>
                   digit_of 16 (rd s2 2) \<noteq> None
                then drop 2 s2 else s2)
      in if digit_of base (hd0 s3) = None then None
         else case digits_value base 0 s3 of (v, rest) \<Rightarrow> Some (neg, v, rest))"

definition clamp :: "int \<Rightarrow> int \<Rightarrow> int \<Rightarrow> int" where
  "clamp lo hi v = (if v < lo then lo else if hi < v then hi else v)"

definition strtol :: "nat \<Rightarrow> string \<Rightarrow> int \<times> string" where
  "strtol base s =
     (case scan_number base s of
        None \<Rightarrow> (0, s)
      | Some (neg, v, rest) \<Rightarrow> (clamp (- (2 ^ 63)) (2 ^ 63 - 1) (if neg then - int v else int v), rest))"

definition strtoul :: "nat \<Rightarrow> string \<Rightarrow> nat \<times> string" where
  "strtoul base s =
     (case scan_number base s of
        None \<Rightarrow> (0, s)
      | Some (neg, v, rest) \<Rightarrow>
          (if v \<ge> 2 ^ 64 then 2 ^ 64 - 1 else if neg then (2 ^ 64 - v) mod 2 ^ 64 else v, rest))"

text \<open>Conversion of an integer to the \<open>n\<close>-bit signed type.\<close>

definition to_signed :: "nat \<Rightarrow> int \<Rightarrow> int" where
  "to_signed n v = (v + 2 ^ (n - 1)) mod 2 ^ n - 2 ^ (n - 1)"

definition atoi :: "string \<Rightarrow> int" where
  "atoi s = to_signed 32 (fst (strtol 10 s))"

section \<open>Reading what was printed\<close>

lemma digit_of_hex_digit: "n < b \<Longrightarrow> b \<le> 16 \<Longrightarrow> digit_of b (hex_digit n) = Some n"
proof -
  have "\<forall>n \<in> {0..<16}. (let c = hex_digit n in
      (if isdigit c then Some (code c - 48) else if islower c then Some (code c - 87)
       else if isupper c then Some (code c - 55) else None)) = Some n"
    unfolding atLeastLessThan_upt by (simp add: hex_digit_def upt_rec ctype_simps)
  moreover assume "n < b" "b \<le> 16"
  ultimately show ?thesis by (simp add: digit_of_def Let_def)
qed

lemma digits_value_append:
  "digits_value b acc (s @ t) =
     (case digits_value b acc s of (v, []) \<Rightarrow> digits_value b v t | (v, c # r) \<Rightarrow> (v, (c # r) @ t))"
  by (induction b acc s rule: digits_value.induct) (auto split: option.splits list.splits)

definition nondigit_start :: "nat \<Rightarrow> string \<Rightarrow> bool" where
  "nondigit_start b r \<longleftrightarrow> r = [] \<or> digit_of b (hd r) = None"

lemma digits_value_nondigit: "nondigit_start b r \<Longrightarrow> digits_value b acc r = (acc, r)"
  by (cases r) (auto simp: nondigit_start_def)

lemma digits_value_show:
  "2 \<le> b \<Longrightarrow> b \<le> 16 \<Longrightarrow> digits_value b acc (show_base b n) = (acc * b ^ length (show_base b n) + n, [])"
proof (induction b n arbitrary: acc rule: show_base.induct)
  case (1 b n)
  show ?case
  proof (cases "n < b")
    case True
    with 1 show ?thesis by (simp add: show_base.simps [of b n] digit_of_hex_digit)
  next
    case False
    then have step: "show_base b n = show_base b (n div b) @ [hex_digit (n mod b)]"
      using 1(2) by (subst show_base.simps) simp
    have "digits_value b acc (show_base b (n div b)) =
        (acc * b ^ length (show_base b (n div b)) + n div b, [])"
      using 1 False by simp
    then show ?thesis
      using 1(2,3) by (simp add: step digits_value_append digit_of_hex_digit algebra_simps)
  qed
qed

lemma show_base_nonempty: "show_base b n \<noteq> []"
  by (subst show_base.simps) simp

lemma show_base_digits:
  assumes "2 \<le> b" "b \<le> 16" "c \<in> set (show_base b n)"
  shows "\<exists>d < b. c = hex_digit d"
  using assms
proof (induction b n rule: show_base.induct)
  case (1 b n)
  show ?case
  proof (cases "n < b")
    case True
    with 1 show ?thesis by (auto simp: show_base.simps [of b n])
  next
    case False
    then have step: "show_base b n = show_base b (n div b) @ [hex_digit (n mod b)]"
      using 1(2) by (subst show_base.simps) simp
    then consider "c \<in> set (show_base b (n div b))" | "c = hex_digit (n mod b)" using 1(4) by auto
    then show ?thesis
    proof cases
      case 1
      with "1.IH" False "1.prems" show ?thesis by simp
    next
      case 2
      moreover have "n mod b < b" using 1(2) by simp
      ultimately show ?thesis by blast
    qed
  qed
qed

lemma hex_digit_class:
  assumes "d < 16"
  shows "\<not> isspace (hex_digit d)" "hex_digit d \<noteq> CHR ''-''" "hex_digit d \<noteq> CHR ''+''"
    "isxdigit (hex_digit d)" "tolower (hex_digit d) \<noteq> CHR ''x''" "hex_digit d \<noteq> CR" "hex_digit d \<noteq> CHR '';''"
proof -
  have "\<forall>d \<in> {0..<16}. \<not> isspace (hex_digit d) \<and> hex_digit d \<noteq> CHR ''-'' \<and> hex_digit d \<noteq> CHR ''+'' \<and>
      isxdigit (hex_digit d) \<and> tolower (hex_digit d) \<noteq> CHR ''x'' \<and> hex_digit d \<noteq> CR \<and> hex_digit d \<noteq> CHR '';''"
    unfolding atLeastLessThan_upt
    by (simp add: hex_digit_def upt_rec ctype_simps tolower_def char_of_eq_iff)
  with assms show "\<not> isspace (hex_digit d)" "hex_digit d \<noteq> CHR ''-''" "hex_digit d \<noteq> CHR ''+''"
    "isxdigit (hex_digit d)" "tolower (hex_digit d) \<noteq> CHR ''x''" "hex_digit d \<noteq> CR" "hex_digit d \<noteq> CHR '';''"
    by auto
qed

lemma scan_number_show:
  assumes b: "2 \<le> b" "b \<le> 16" and r: "nondigit_start b r" and x: "tolower (hd0 r) \<noteq> CHR ''x''"
  shows "scan_number b (show_base b n @ r) = Some (False, n, r)"
proof -
  obtain c t where ct: "show_base b n = c # t" using show_base_nonempty by (cases "show_base b n") auto
  have digs: "\<And>c. c \<in> set (show_base b n) \<Longrightarrow> \<exists>d < 16. d < b \<and> c = hex_digit d"
    using show_base_digits [OF b] b by (meson order_less_le_trans)
  from digs [of c] ct obtain d where d: "d < 16" "d < b" "c = hex_digit d" by auto
  have second: "tolower (rd (t @ r) 0) \<noteq> CHR ''x''"
  proof (cases t)
    case Nil
    with x show ?thesis by (cases r) auto
  next
    case (Cons c' t')
    with digs [of c'] ct obtain d' where "d' < 16" "c' = hex_digit d'" by auto
    with Cons hex_digit_class show ?thesis by simp
  qed
  have "digits_value b 0 (show_base b n @ r) = (n, r)"
    by (simp add: digits_value_append digits_value_show b digits_value_nondigit r)
  then show ?thesis
    using d hex_digit_class [OF d(1)] second digit_of_hex_digit [OF d(2) b(2)] ct
    by (simp add: scan_number_def Let_def)
qed

lemma strtoul_show:
  assumes "2 \<le> b" "b \<le> 16" "nondigit_start b r" "tolower (hd0 r) \<noteq> CHR ''x''" "n < 2 ^ 64"
  shows "strtoul b (show_base b n @ r) = (n, r)"
  using assms by (simp add: strtoul_def scan_number_show)

lemma strtol_show:
  assumes "2 \<le> b" "b \<le> 16" "nondigit_start b r" "tolower (hd0 r) \<noteq> CHR ''x''" "n < 2 ^ 63"
  shows "strtol b (show_base b n @ r) = (int n, r)"
proof -
  have "int n < 2 ^ 63" using assms(5) by (metis of_nat_less_iff of_nat_numeral of_nat_power)
  then show ?thesis using assms by (simp add: strtol_def scan_number_show clamp_def)
qed

lemma to_signed_id: "0 < n \<Longrightarrow> - (2 ^ (n - 1)) \<le> v \<Longrightarrow> v < 2 ^ (n - 1) \<Longrightarrow> to_signed n v = v"
proof -
  assume n: "0 < n" and v: "- (2 ^ (n - 1)) \<le> v" "v < 2 ^ (n - 1)"
  have "(2::int) ^ n = 2 * 2 ^ (n - 1)" using n by (simp add: power_eq_if)
  with v show ?thesis by (simp add: to_signed_def)
qed

interpretation dec_codec: codec show_nat "\<lambda>s. case scan_number 10 s of Some (False, v, []) \<Rightarrow> Some v | _ \<Rightarrow> None" "\<lambda>_. True"
  using scan_number_show [of 10 "[]"] by unfold_locales (simp add: show_nat_def nondigit_start_def)

end
