(* ===== verification/Url_Codec.thy ===== *)
theory Url_Codec
  imports C_Strings C_Numbers
begin

text \<open>
  Percent encoding and the form, query and cookie accessors of \<open>src/civetweb.c\<close>:
  \<open>mg_url_decode\<close>, \<open>url_decode_in_place\<close>, \<open>mg_get_var\<close>, \<open>mg_get_var2\<close>,
  \<open>mg_split_form_urlencoded\<close>, \<open>mg_get_cookie\<close> and \<open>mg_url_encode\<close>. A function that writes
  through a \<open>dst\<close> pointer returns its C result together with the bytes it stored from
  \<open>dst\<close> on, the terminator included where the code writes one.
\<close>

section \<open>Percent decoding\<close>

definition hextoi :: "char \<Rightarrow> nat" where
  "hextoi x = (if isdigit x then code x - 48 else code x - 87)"

text \<open>
  The loop over the characters left in \<open>src\<close>, with \<open>room\<close> the free bytes in front of the
  terminator (\<open>dst_len - 1 - j\<close>) and \<open>acc\<close> the bytes stored. \<open>Inl\<close>: an invalid character,
  the function returns without terminating \<open>dst\<close>. \<open>Inr\<close>: the stored bytes and the
  characters not consumed.
\<close>

fun url_decode_loop ::
    "bool \<Rightarrow> string \<Rightarrow> nat \<Rightarrow> string \<Rightarrow> string + (string \<times> string)" where
  "url_decode_loop form [] room acc = Inr (acc, [])"
| "url_decode_loop form (c # src) 0 acc = Inr (acc, c # src)"
| "url_decode_loop form (c # src) (Suc room) acc =
     (if length src \<ge> 2 \<and> c = CHR ''%'' \<and> isxdigit (src ! 0) \<and> isxdigit (src ! 1)
      then let a = tolower (src ! 0); b = tolower (src ! 1)
           in url_decode_loop form (drop 2 src) room
                (acc @ [char_of (push_bit 4 (hextoi a) OR hextoi b)])
      else if form \<and> c = CHR ''+'' then url_decode_loop form src room (acc @ [SP])
      else if code c \<le> 32 then Inl acc
      else url_decode_loop form src room (acc @ [c]))"

definition mg_url_decode :: "string \<Rightarrow> int \<Rightarrow> bool \<Rightarrow> int \<times> string" where
  "mg_url_decode src dst_len form =
     (case url_decode_loop form src (nat (dst_len - 1)) [] of
        Inl acc \<Rightarrow> (-1, acc)
      | Inr (acc, rest) \<Rightarrow> (if rest = [] then int (length acc) else -1, acc @ [NUL]))"

text \<open>
  In place the bytes are stored over the ones already read. After an invalid character the
  tail of the old content stays behind the decoded part. The length is converted to an \<open>int\<close>; the
  decoder takes a negative length for an empty source.
\<close>

definition url_decode_in_place :: "string \<Rightarrow> string" where
  "url_decode_in_place buf =
     (let len = to_signed 32 (int (length buf))
      in case mg_url_decode (take (nat len) buf) (len + 1) True of
           (_, stored) \<Rightarrow> cstr (stored @ drop (length stored) buf))"

section \<open>Percent encoding\<close>

definition dont_escape :: string where
  "dont_escape = ''._-$,;~()''"

text \<open>\<open>room\<close> is \<open>end - pos\<close>. The result holds the bytes stored and the unread source.\<close>

fun url_encode_loop :: "string \<Rightarrow> nat \<Rightarrow> string \<times> string" where
  "url_encode_loop [] room = ([], [])"
| "url_encode_loop (c # src) room =
     (if c = NUL then ([], []) else
      if room = 0 then ([], c # src)
      else if isalnum c \<or> c \<in> set dont_escape
      then (case url_encode_loop src (room - 1) of (out, rest) \<Rightarrow> (c # out, rest))
      else if 2 < room
      then (case url_encode_loop src (room - 3) of (out, rest) \<Rightarrow>
              (CHR ''%'' # hex_digit (drop_bit 4 (code c)) # hex_digit (code c AND 15) # out, rest))
      else ([], c # src))"

definition mg_url_encode :: "string \<Rightarrow> nat \<Rightarrow> int \<times> string" where
  "mg_url_encode src dst_len =
     (case url_encode_loop src (dst_len - 1) of (out, rest) \<Rightarrow>
        (if rest = [] then int (length out) else -1, out @ [NUL]))"

section \<open>Form variables\<close>

text \<open>
  The search loop of \<open>mg_get_var2\<close>: \<open>p\<close> is the data from the current position to the end
  \<open>e\<close>, \<open>start\<close> says that the position is the first one or follows an \<open>&\<close>.
\<close>

fun find_var :: "string \<Rightarrow> bool \<Rightarrow> string \<Rightarrow> nat \<Rightarrow> string option" where
  "find_var name start [] occurrence = None"
| "find_var name start (c # p) occurrence =
     (if length name < length (c # p)
      then if start \<and> (c # p) ! length name = CHR ''='' \<and>
              mg_strncasecmp name (c # p) (length name) = 0
           then if occurrence = 0 then Some (drop (length name + 1) (c # p))
                else find_var name (c = CHR ''&'') p (occurrence - 1)
           else find_var name (c = CHR ''&'') p occurrence
      else None)"

text \<open>
  \<open>data\<close> is \<open>None\<close> for a NULL pointer; its length is \<open>data_len\<close>. The length of the value and \<open>dst_len\<close>
  are converted to \<open>int\<close>: a buffer of \<open>2 ^ 31\<close> bytes counts as one without room, a value of that length
  as empty.
\<close>

definition mg_get_var2 ::
    "string option \<Rightarrow> string option \<Rightarrow> nat \<Rightarrow> nat \<Rightarrow> int \<times> string" where
  "mg_get_var2 data name dst_len occurrence =
     (if dst_len = 0 then (-2, [])
      else case (data, name) of
        (Some d, Some n) \<Rightarrow>
          (if d = [] then (-1, [NUL])
           else case find_var n True d occurrence of
             None \<Rightarrow> (-1, [NUL])
           | Some p \<Rightarrow>
               let value = takeWhile (\<lambda>c. c \<noteq> CHR ''&'') p;
                   src_len = to_signed 32 (int (length value));
                   (len, stored) = mg_url_decode (take (nat src_len) value) (to_signed 32 (int dst_len)) True
               in (if len = -1 then -2 else len, if stored = [] then [NUL] else stored))
      | _ \<Rightarrow> (-1, [NUL]))"

definition mg_get_var :: "string option \<Rightarrow> string option \<Rightarrow> nat \<Rightarrow> int \<times> string" where
  "mg_get_var data name dst_len = mg_get_var2 data name dst_len 0"

text \<open>
  Splitting a whole form. \<open>split_fields\<close> is the loop over at most \<open>num_form_fields\<close>
  fields; the strings are the ones left between the terminators it stores. The second loop
  decodes them in place.
\<close>

fun split_fields :: "nat \<Rightarrow> string \<Rightarrow> (string \<times> string option) list" where
  "split_fields 0 data = []"
| "split_fields (Suc n) data =
     (let data = dropWhile (\<lambda>c. c = SP \<or> c = TAB) data
      in if data = [] then []
         else
           let name = takeWhile (\<lambda>c. c \<noteq> CHR ''&'' \<and> c \<noteq> CHR ''='') data
           in case drop (length name) data of
                [] \<Rightarrow> [(name, None)]
              | b # data \<Rightarrow>
                  if b = CHR ''&'' then (name, None) # split_fields n data
                  else
                    let value = takeWhile (\<lambda>c. c \<noteq> CHR ''&'') data
                    in (name, Some value) #
                       (case drop (length value) data of
                          [] \<Rightarrow> []
                        | _ # data \<Rightarrow> split_fields n data))"

definition count_fields :: "string \<Rightarrow> nat" where
  "count_fields data = (if data = [] then 0 else Suc (length (filter (\<lambda>c. c = CHR ''&'') data)))"

text \<open>
  \<open>form_fields = None\<close> is the NULL pointer; otherwise the array has room for
  \<open>num_form_fields\<close> elements.
\<close>

definition mg_split_form_urlencoded ::
    "string option \<Rightarrow> bool \<Rightarrow> int \<Rightarrow> int \<times> (string \<times> string option) list" where
  "mg_split_form_urlencoded data form_fields_null num_form_fields =
     (case data of
        None \<Rightarrow> (-1, [])
      | Some d \<Rightarrow>
          if form_fields_null \<and> num_form_fields = 0 then (int (count_fields d), [])
          else if form_fields_null \<or> num_form_fields \<le> 0 then (-1, [])
          else let fields = split_fields (nat num_form_fields) d
               in (int (length fields),
                   map (\<lambda>(n, v). (url_decode_in_place n, map_option url_decode_in_place v)) fields))"

section \<open>Cookies\<close>

text \<open>
  The value at offset \<open>v\<close> of the header: up to the next blank, without a trailing
  semicolon and without enclosing quotes. Result: first offset and length.
\<close>

definition cookie_value :: "string \<Rightarrow> nat \<Rightarrow> nat \<times> nat" where
  "cookie_value hdr v =
     (let p = (case memchr SP (drop v hdr) of None \<Rightarrow> length hdr | Some k \<Rightarrow> v + k);
          p = (if rd hdr (p - 1) = CHR '';'' then p - 1 else p)
      in if rd hdr v = DQUOTE \<and> rd hdr (p - 1) = DQUOTE \<and> p > v + 1
         then (v + 1, p - 1 - (v + 1)) else (v, p - v))"

text \<open>
  The search loop at offset \<open>pos\<close>: it gives the offset of the value (\<open>Some None\<close> if the
  search ends without one). With an empty name the loop need not end, so it is a partial
  function: \<open>None\<close> means that the C function does not return.
\<close>

partial_function (option) cookie_search :: "string \<Rightarrow> string \<Rightarrow> nat \<Rightarrow> nat option option" where
  "cookie_search hdr name pos =
     (case mg_strcasestr (drop pos hdr) name of
        None \<Rightarrow> Some None
      | Some k \<Rightarrow>
          let s = pos + k in
          if rd hdr (s + length name) = CHR ''='' \<and> (s = 0 \<or> rd hdr (s - 1) = SP)
          then Some (Some (s + length name + 1))
          else cookie_search hdr name (s + length name))"

definition mg_get_cookie ::
    "string option \<Rightarrow> string option \<Rightarrow> nat \<Rightarrow> (int \<times> string) option" where
  "mg_get_cookie cookie_header var_name dst_size =
     (if dst_size = 0 then Some (-2, [])
      else case (cookie_header, var_name) of
        (Some hdr, Some name) \<Rightarrow>
          map_option
            (\<lambda>found. case found of
               None \<Rightarrow> (-1, [NUL])
             | Some v \<Rightarrow>
                 let (s, len) = cookie_value hdr v
                 in if len < dst_size then (int len, mg_strlcpy (drop s hdr) (len + 1))
                    else (-3, [NUL]))
            (cookie_search hdr name 0)
      | _ \<Rightarrow> Some (-1, [NUL]))"

section \<open>Bounds of the decoder and the encoder\<close>

lemma url_decode_loop_bound:
  "case url_decode_loop form src room acc of
     Inr (out, rest) \<Rightarrow> length out \<le> length acc + room \<and> length out + length rest \<le> length acc + length src
   | Inl out \<Rightarrow> length out \<le> length acc + room \<and> length out \<le> length acc + length src"
proof (induction form src room acc rule: url_decode_loop.induct)
  case (3 form c src room acc)
  consider (hex) "length src \<ge> 2 \<and> c = CHR ''%'' \<and> isxdigit (src ! 0) \<and> isxdigit (src ! 1)"
    | (plus) "\<not> (length src \<ge> 2 \<and> c = CHR ''%'' \<and> isxdigit (src ! 0) \<and> isxdigit (src ! 1))"
        "form \<and> c = CHR ''+''"
    | (other) "\<not> (length src \<ge> 2 \<and> c = CHR ''%'' \<and> isxdigit (src ! 0) \<and> isxdigit (src ! 1))"
        "\<not> (form \<and> c = CHR ''+'')"
    by blast
  then show ?case
  proof cases
    case hex
    from 3(1) [OF hex refl refl] hex show ?thesis
      by (auto simp: Let_def split: sum.splits prod.splits)
  next
    case plus
    from 3(2) [OF plus] plus show ?thesis by (simp split: sum.splits prod.splits)
  next
    case other
    then have step: "url_decode_loop form (c # src) (Suc room) acc =
      (if code c \<le> 32 then Inl acc else url_decode_loop form src room (acc @ [c]))"
      by (simp only: url_decode_loop.simps if_False)
    show ?thesis
    proof (cases "code c \<le> 32")
      case True
      then show ?thesis unfolding step by simp
    next
      case False
      from 3(3) [OF other False] show ?thesis
        unfolding step if_not_P [OF False] by (simp split: sum.splits prod.splits)
    qed
  qed
qed simp_all

lemma mg_url_decode_bound:
  assumes "mg_url_decode src dst_len form = (r, stored)"
  shows "int (length stored) \<le> max 1 dst_len" and "length stored \<le> length src + 1"
    and "0 \<le> r \<Longrightarrow> int (length stored) = r + 1 \<and> last stored = NUL"
  using assms url_decode_loop_bound [where form = form and src = src and room = "nat (dst_len - 1)" and acc = "[]"]
  by (simp_all add: mg_url_decode_def split: sum.splits prod.splits if_splits) (auto simp: nat_le_iff)

lemma url_encode_loop_bound: "length (fst (url_encode_loop src room)) \<le> room"
  by (induction src room rule: url_encode_loop.induct) (auto split: prod.splits)

lemma mg_url_encode_bound:
  assumes "mg_url_encode src dst_len = (r, stored)"
  shows "length stored \<le> max 1 dst_len" and "last stored = NUL"
    and "r \<noteq> -1 \<Longrightarrow> int (length stored) = r + 1"
  using assms url_encode_loop_bound [of src "dst_len - 1"]
  by (auto simp: mg_url_encode_def split: prod.splits if_splits)

section \<open>Round trip\<close>

lemma hex_digit_facts:
  assumes "n < 16"
  shows "isxdigit (hex_digit n)" "hextoi (tolower (hex_digit n)) = n"
    "hex_digit n \<noteq> CHR ''&''" "hex_digit n \<noteq> CHR ''=''" "hex_digit n \<noteq> NUL"
proof -
  have "\<forall>n \<in> {0..<16}. isxdigit (hex_digit n) \<and> hextoi (tolower (hex_digit n)) = n \<and>
    hex_digit n \<noteq> CHR ''&'' \<and> hex_digit n \<noteq> CHR ''='' \<and> hex_digit n \<noteq> NUL"
    unfolding atLeastLessThan_upt
    by (simp add: hex_digit_def upt_rec hextoi_def tolower_def ctype_simps)
  with assms show "isxdigit (hex_digit n)" "hextoi (tolower (hex_digit n)) = n"
    "hex_digit n \<noteq> CHR ''&''" "hex_digit n \<noteq> CHR ''=''" "hex_digit n \<noteq> NUL" by auto
qed

lemma hex_pair:
  "char_of (push_bit 4 (code c div 16) OR (code c mod 16)) = c"
proof -
  have "push_bit 4 (code c div 16) OR (code c mod 16) = code c"
    using or_disjoint_nat [of "code c mod 16" 4 "code c div 16"] by simp
  then show ?thesis by simp
qed

lemma nibbles: "drop_bit 4 (code c) = code c div 16" "code c AND 15 = code c mod 16"
    "code c div 16 < 16" "code c mod 16 < 16"
  using less_mult_imp_div_less [of "code c" 16 16] by (simp_all add: drop_bit_eq_div and_low_bits)

lemma unescaped_facts:
  assumes "isalnum c \<or> c \<in> set dont_escape"
  shows "c \<noteq> CHR ''%''" "c \<noteq> CHR ''+''" "c \<noteq> CHR ''&''" "c \<noteq> CHR ''=''" "\<not> code c \<le> 32" "c \<noteq> NUL"
  using assms by (auto simp: dont_escape_def ctype_simps)

lemma url_encode_loop_full:
  "url_encode_loop src room = (out, []) \<Longrightarrow> wf_cstr src \<Longrightarrow> length src \<le> n \<Longrightarrow>
   url_decode_loop form out n acc = Inr (acc @ src, [])"
proof (induction src room arbitrary: out n acc rule: url_encode_loop.induct)
  case (1 room)
  then show ?case by simp
next
  case (2 c src room)
  then obtain m where n: "n = Suc m" and m: "length src \<le> m" by (cases n) auto
  show ?case
  proof (cases "isalnum c \<or> c \<in> set dont_escape")
    case True
    note facts = unescaped_facts [OF True]
    obtain o' r' where e: "url_encode_loop src (room - 1) = (o', r')" by fastforce
    from True 2(3) facts e obtain out' where
      out': "room \<noteq> 0" "url_encode_loop src (room - 1) = (out', [])" "out = c # out'"
      by (simp split: if_splits)
    from 2(1) [OF facts(6) out'(1) True out'(2) _ m] 2(4) facts show ?thesis
      by (simp add: n out'(3))
  next
    case False
    obtain o' r' where e: "url_encode_loop src (room - 3) = (o', r')" by fastforce
    from False 2(3,4) e obtain out' where out': "url_encode_loop src (room - 3) = (out', [])" and
      out: "out = CHR ''%'' # hex_digit (code c div 16) # hex_digit (code c mod 16) # out'" and
      r: "room \<noteq> 0" "2 < room" "c \<noteq> NUL"
      by (simp add: nibbles split: if_splits)
    have "url_decode_loop form out' m (acc @ [c]) = Inr ((acc @ [c]) @ src, [])"
      using 2(2) [OF r(3,1) False r(2) out' _ m] 2(4) by simp
    then show ?thesis
      by (simp add: out n Let_def hex_digit_facts nibbles hex_pair)
  qed
qed

lemma mg_url_encode_ok:
  assumes "mg_url_encode src dst_len = (r, stored)" and "r \<noteq> -1"
  shows "\<exists>out. url_encode_loop src (dst_len - 1) = (out, []) \<and> stored = out @ [NUL] \<and> r = int (length out)"
  using assms by (auto simp: mg_url_encode_def split: prod.splits if_splits)

text \<open>Whatever was encoded decodes to the source, into any buffer that can hold it.\<close>

lemma mg_url_decode_encode:
  assumes enc: "mg_url_encode src dst_len = (r, stored)" "r \<noteq> -1" and wf: "wf_cstr src"
    and room: "int (length src) < n"
  shows "mg_url_decode (butlast stored) n form = (int (length src), src @ [NUL])"
proof -
  from mg_url_encode_ok [OF enc] obtain out where
    out: "url_encode_loop src (dst_len - 1) = (out, [])" "stored = out @ [NUL]" by blast
  have "url_decode_loop form out (nat (n - 1)) [] = Inr (src, [])"
    using url_encode_loop_full [OF out(1) wf, of "nat (n - 1)"] room by simp
  with out show ?thesis by (simp add: mg_url_decode_def)
qed

section \<open>Finding a form variable\<close>

text \<open>A form body as a browser sends it: \<open>key=value\<close> pairs joined by \<open>&\<close>.\<close>

fun form_body :: "(string \<times> string) list \<Rightarrow> string" where
  "form_body [] = []"
| "form_body [(k, v)] = k @ CHR ''='' # v"
| "form_body ((k, v) # ps) = k @ CHR ''='' # v @ CHR ''&'' # form_body ps"

definition plain_key :: "string \<Rightarrow> bool" where
  "plain_key k \<longleftrightarrow> wf_cstr k \<and> CHR ''&'' \<notin> set k \<and> CHR ''='' \<notin> set k"

definition plain_pair :: "string \<times> string \<Rightarrow> bool" where
  "plain_pair p \<longleftrightarrow> plain_key (fst p) \<and> wf_cstr (snd p) \<and> CHR ''&'' \<notin> set (snd p)"

definition same_key :: "string \<Rightarrow> string \<times> string \<Rightarrow> bool" where
  "same_key name p \<longleftrightarrow> map tolower (fst p) = map tolower name"

lemma find_var_short: "length p \<le> length name \<Longrightarrow> find_var name b p occ = None"
  by (cases p) auto

lemma find_var_skip:
  "CHR ''&'' \<notin> set x \<Longrightarrow> find_var name False (x @ CHR ''&'' # r) occ = find_var name True r occ"
  "CHR ''&'' \<notin> set x \<Longrightarrow> find_var name False x occ = None"
proof (induction x)
  case Nil
  { case 1 show ?case by (auto simp: find_var_short) }
  { case 2 show ?case by simp }
next
  case (Cons c x)
  { case 1 with Cons.IH(1) show ?case by (auto simp: find_var_short) }
  { case 2 with Cons.IH(2) show ?case by auto }
qed

lemma tolower_eq_symbol: "\<not> isalpha d \<Longrightarrow> tolower c = d \<longleftrightarrow> c = d"
proof -
  assume "\<not> isalpha d"
  then have "code (tolower c) = code d \<longleftrightarrow> code c = code d"
    by (auto simp: code_tolower ctype_simps)
  then show ?thesis by (simp only: code_eq_iff)
qed

lemma key_at_start:
  assumes key: "plain_key k" and name: "plain_key name" and wf: "wf_cstr d" and d: "d = k @ CHR ''='' # r"
  shows "length name < length d \<and> d ! length name = CHR ''='' \<and> mg_strncasecmp name d (length name) = 0
    \<longleftrightarrow> map tolower k = map tolower name" (is "?L \<longleftrightarrow> ?R")
proof
  assume ?L
  with wf name have eq: "map tolower name = map tolower (take (length name) d)"
    by (simp add: mg_strncasecmp_eq_0 plain_key_def)
  have "\<not> length name < length k"
    using \<open>?L\<close> key nth_mem [of "length name" k] by (fastforce simp: d nth_append plain_key_def)
  moreover have "\<not> length k < length name"
  proof
    assume less: "length k < length name"
    have "map tolower name ! length k = tolower (d ! length k)"
      using eq less \<open>?L\<close> by simp
    then have "tolower (name ! length k) = CHR ''=''"
      using less by (simp add: d tolower_eq_symbol ctype_simps)
    then have "name ! length k = CHR ''=''" by (simp add: tolower_eq_symbol ctype_simps)
    with less name show False by (metis nth_mem plain_key_def)
  qed
  ultimately have "length k = length name" by simp
  with eq show ?R by (simp add: d)
next
  assume ?R
  then have len: "length k = length name" by (metis length_map)
  with \<open>?R\<close> wf name show ?L
    by (simp add: mg_strncasecmp_eq_0 plain_key_def d nth_append)
qed

lemma find_var_segment:
  assumes key: "plain_key k" "plain_key name" and v: "CHR ''&'' \<notin> set v" and
    d: "d = k @ CHR ''='' # v" and wf: "wf_cstr (d @ t)" and t: "t = [] \<or> t = CHR ''&'' # r"
  shows "map_option (takeWhile (\<lambda>c. c \<noteq> CHR ''&'')) (find_var name True (d @ t) occ) =
    (if same_key name (k, v) \<and> occ = 0 then Some v
     else if t = [] then None
     else map_option (takeWhile (\<lambda>c. c \<noteq> CHR ''&''))
       (find_var name True r (if same_key name (k, v) then occ - 1 else occ)))"
proof -
  have at: "length name < length (d @ t) \<and> (d @ t) ! length name = CHR ''='' \<and>
      mg_strncasecmp name (d @ t) (length name) = 0 \<longleftrightarrow> same_key name (k, v)"
    unfolding same_key_def fst_conv by (rule key_at_start [OF key wf]) (simp add: d)
  obtain c x where cx: "d = c # x" and c: "c \<noteq> CHR ''&''" and x: "CHR ''&'' \<notin> set x"
    using key v unfolding d plain_key_def by (cases k) auto
  have rest: "find_var name (c = CHR ''&'') (x @ t) n = (if t = [] then None else find_var name True r n)" for n
    using t c find_var_skip [OF x] by auto
  have step: "find_var name True (d @ t) occ =
      (if same_key name (k, v)
       then if occ = 0 then Some (drop (length name + 1) (d @ t))
            else if t = [] then None else find_var name True r (occ - 1)
       else if length name < length (d @ t) then if t = [] then None else find_var name True r occ
       else None)"
    using at unfolding cx append_Cons find_var.simps rest by (auto split: if_splits)
  have "same_key name (k, v) \<Longrightarrow> takeWhile (\<lambda>c. c \<noteq> CHR ''&'') (drop (length name + 1) (d @ t)) = v"
  proof -
    assume "same_key name (k, v)"
    then have "length k = length name" unfolding same_key_def by (metis fst_conv length_map)
    moreover have "takeWhile (\<lambda>c. c \<noteq> CHR ''&'') (v @ t) = v"
      using v t by (induction v) auto
    ultimately show ?thesis by (simp add: d)
  qed
  moreover have "\<not> length name < length (d @ t) \<Longrightarrow> t \<noteq> [] \<Longrightarrow> find_var name True r occ = None"
    using t by (intro find_var_short) auto
  ultimately show ?thesis unfolding step by auto
qed

lemma wf_form_body: "\<forall>p \<in> set ps. plain_pair p \<Longrightarrow> wf_cstr (form_body ps)"
  by (induction ps rule: form_body.induct) (auto simp: plain_pair_def plain_key_def)

lemma find_var_form_body:
  assumes "\<forall>p \<in> set ps. plain_pair p" and "plain_key name"
  shows "map_option (takeWhile (\<lambda>c. c \<noteq> CHR ''&'')) (find_var name True (form_body ps) occ) =
    (if occ < length (filter (same_key name) ps) then Some (snd (filter (same_key name) ps ! occ)) else None)"
  using assms
proof (induction ps arbitrary: occ rule: form_body.induct)
  case 1
  then show ?case by simp
next
  case (2 k v)
  then show ?case
    using find_var_segment [of k name v "k @ CHR ''='' # v" "[]" "[]" occ]
    by (simp add: plain_pair_def plain_key_def)
next
  case (3 k v p ps)
  let ?t = "CHR ''&'' # form_body (p # ps)"
  have "wf_cstr ((k @ CHR ''='' # v) @ ?t)"
    using 3 wf_form_body [of "(k, v) # p # ps"] by simp
  then show ?case
    using 3 find_var_segment [of k name v "k @ CHR ''='' # v" ?t "form_body (p # ps)" occ]
    by (cases occ) (simp_all add: plain_pair_def)
qed

text \<open>
  Encoding values with \<open>mg_url_encode\<close> and looking a key up again gives the value back: the
  occurrence-th pair with that key, compared without case.
\<close>

definition url_encoded :: "string \<Rightarrow> string" where
  "url_encoded w = butlast (snd (mg_url_encode w (3 * length w + 1)))"

lemma url_encode_loop_room: "wf_cstr w \<Longrightarrow> 3 * length w \<le> room \<Longrightarrow> snd (url_encode_loop w room) = []"
  by (induction w room rule: url_encode_loop.induct) (auto split: prod.splits)

lemma not_amp_unescaped: "\<not> (isalnum CHR ''&'' \<or> CHR ''&'' \<in> set dont_escape)"
  by (simp add: dont_escape_def ctype_simps)

lemma url_encode_loop_clean: "wf_cstr w \<Longrightarrow> CHR ''&'' \<notin> set (fst (url_encode_loop w room)) \<and>
    wf_cstr (fst (url_encode_loop w room))"
proof (induction w room rule: url_encode_loop.induct)
  case (2 c src room)
  then show ?case
    using hex_digit_facts(3,5) [OF nibbles(3) [of c]] hex_digit_facts(3,5) [OF nibbles(4) [of c]]
      not_amp_unescaped
    by (auto simp: nibbles split: prod.splits)
qed simp

lemma url_encoded_eq: "url_encoded w = fst (url_encode_loop w (3 * length w))"
  by (auto simp: url_encoded_def mg_url_encode_def split: prod.splits)

lemma url_decode_encoded:
  assumes "wf_cstr w" "int (length w) < n"
  shows "mg_url_decode (url_encoded w) n form = (int (length w), w @ [NUL])"
proof -
  obtain r stored where e: "mg_url_encode w (3 * length w + 1) = (r, stored)" by fastforce
  then have "r \<noteq> -1"
    using url_encode_loop_room [OF assms(1), of "3 * length w"]
    by (auto simp: mg_url_encode_def split: prod.splits)
  from mg_url_decode_encode [OF e this assms] show ?thesis
    by (simp only: url_encoded_def e snd_conv)
qed

interpretation url: codec url_encoded
  "\<lambda>s. case mg_url_decode s (int (length s) + 1) False of (r, d) \<Rightarrow> if r = -1 then None else Some (butlast d)"
  wf_cstr
proof
  fix w
  assume w: "wf_cstr w"
  have "length w \<le> length (url_encoded w)"
    using url_decode_encoded [OF w, of "int (length w) + 1" False]
      mg_url_decode_bound(2) [of "url_encoded w" "int (length w) + 1" False] by fastforce
  then show "(case mg_url_decode (url_encoded w) (int (length (url_encoded w)) + 1) False of
      (r, d) \<Rightarrow> if r = -1 then None else Some (butlast d)) = Some w"
    by (simp add: url_decode_encoded [OF w])
qed

lemma length_url_encoded: "length (url_encoded w) \<le> 3 * length w"
proof -
  obtain r stored where e: "mg_url_encode w (3 * length w + 1) = (r, stored)" by fastforce
  have "length stored - 1 \<le> 3 * length w" using mg_url_encode_bound(1) [OF e] by simp
  then show ?thesis unfolding url_encoded_def e snd_conv length_butlast .
qed

section \<open>Splitting a form\<close>

lemma length_split_fields: "length (split_fields n data) \<le> n"
  by (induction n data rule: split_fields.induct) (auto simp: Let_def split: list.splits)

section \<open>Cookies: termination and the selected value\<close>

text \<open>
  With a non-empty name every round of the search moves forward, so the function returns.
\<close>

lemma cookie_search_returns:
  assumes "name \<noteq> []"
  shows "\<exists>r. cookie_search hdr name pos = Some r"
proof (induction "length hdr - pos" arbitrary: pos rule: less_induct)
  case less
  show ?case
  proof (cases "mg_strcasestr (drop pos hdr) name")
    case None
    then show ?thesis by (simp add: cookie_search.simps)
  next
    case (Some k)
    from mg_strcasestr_bound [OF Some] assms
    have "length hdr - (pos + k + length name) < length hdr - pos" by (cases name) auto
    from less [OF this] Some show ?thesis
      by (subst cookie_search.simps) (simp add: Let_def)
  qed
qed

text \<open>
  With an empty name the search stays where it is: unless the header starts with \<open>=\<close>, the
  function does not return.
\<close>

lemma mg_strcasestr_empty: "mg_strcasestr s [] = Some 0"
  by (simp add: mg_strcasestr_def upt_conv_Cons del: upt_Suc)

lemma cookie_search_empty_name:
  assumes "rd hdr 0 \<noteq> CHR ''=''"
  shows "cookie_search hdr [] 0 = None"
proof (rule ccontr)
  assume "cookie_search hdr [] 0 \<noteq> None"
  then obtain r where "cookie_search hdr [] 0 = Some r" by blast
  then have "\<not> (([]::string) = [] \<and> (0::nat) = 0 \<and> rd hdr 0 \<noteq> CHR ''='')"
  proof (rule cookie_search.raw_induct
      [where P = "\<lambda>hdr name pos r. \<not> (name = [] \<and> pos = 0 \<and> rd hdr 0 \<noteq> CHR ''='')", rotated])
    fix f :: "string \<Rightarrow> string \<Rightarrow> nat \<Rightarrow> nat option option" and hdr name pos r
    assume IH: "\<And>hdr name pos r. f hdr name pos = Some r \<Longrightarrow> \<not> (name = [] \<and> pos = 0 \<and> rd hdr 0 \<noteq> CHR ''='')"
      and eq: "(case mg_strcasestr (drop pos hdr) name of None \<Rightarrow> Some None
            | Some k \<Rightarrow> let s = pos + k in
                if rd hdr (s + length name) = CHR ''='' \<and> (s = 0 \<or> rd hdr (s - 1) = SP)
                then Some (Some (s + length name + 1)) else f hdr name (s + length name)) = Some r"
    show "\<not> (name = [] \<and> pos = 0 \<and> rd hdr 0 \<noteq> CHR ''='')"
    proof
      assume at: "name = [] \<and> pos = 0 \<and> rd hdr 0 \<noteq> CHR ''=''"
      with eq have "f hdr [] 0 = Some r" by (simp add: mg_strcasestr_empty Let_def)
      from IH [OF this] at show False by simp
    qed
  qed
  with assms show False by simp
qed

lemma cookie_search_sound:
  assumes "wf_cstr hdr" "wf_cstr name" "name \<noteq> []"
  shows "cookie_search hdr name pos = Some (Some v) \<Longrightarrow>
    length name < v \<and> v \<le> length hdr \<and> hdr ! (v - 1) = CHR ''='' \<and>
    map tolower (take (length name) (drop (v - 1 - length name) hdr)) = map tolower name \<and>
    (v = length name + 1 \<or> hdr ! (v - 2 - length name) = SP)"
proof (induction "length hdr - pos" arbitrary: pos rule: less_induct)
  case less
  then obtain k where k: "mg_strcasestr (drop pos hdr) name = Some k"
    by (cases "mg_strcasestr (drop pos hdr) name") (auto simp: cookie_search.simps)
  let ?s = "pos + k"
  from k assms have match: "map tolower (take (length name) (drop ?s hdr)) = map tolower name"
    by (simp add: mg_strcasestr_Some_iff add.commute)
  from mg_strcasestr_bound [OF k] assms(3)
  have smaller: "length hdr - (?s + length name) < length hdr - pos" and
    inside: "?s + length name \<le> length hdr" by (cases name; auto)+
  show ?case
  proof (cases "rd hdr (?s + length name) = CHR ''='' \<and> (?s = 0 \<or> rd hdr (?s - 1) = SP)")
    case True
    with less.prems k have v: "v = ?s + length name + 1"
      by (subst (asm) cookie_search.simps) (simp add: Let_def)
    from True have lt: "?s + length name < length hdr" by (intro rd_nonNUL) simp
    have "rd hdr (?s - 1) = hdr ! (?s - 1)" using lt by (intro rd_in) linarith
    with True have "?s = 0 \<or> hdr ! (?s - 1) = SP" by metis
    then show ?thesis using True match lt by (auto simp: v rd_def)
  next
    case False
    with less.prems k have "cookie_search hdr name (?s + length name) = Some (Some v)"
      by (subst (asm) cookie_search.simps) (simp only: option.case Let_def if_False)
    from less.hyps [OF smaller this] show ?thesis .
  qed
qed

section \<open>Properties\<close>

lemma wf_url_encoded: "wf_cstr w \<Longrightarrow> wf_cstr (url_encoded w) \<and> CHR ''&'' \<notin> set (url_encoded w)"
  using url_encode_loop_clean by (simp add: url_encoded_eq)

text \<open>
  C5: a form sent with URL-encoded values is read back. For every list of pairs whose keys
  hold no separator, the call of \<open>mg_get_var2\<close> for a name and an occurrence stores the
  original value of that occurrence and returns its length, if the buffer has room and the lengths
  of the buffer and of the encoded value fit into an \<open>int\<close>.
\<close>

theorem mg_get_var2_encoded_form:
  assumes "\<forall>(k, v) \<in> set ps. plain_key k \<and> wf_cstr v" and "plain_key name"
    and "occ < length (filter (same_key name) ps)"
    and "v = snd (filter (same_key name) ps ! occ)" and "length v < n"
    and "n < 2 ^ 31" and "length (url_encoded v) < 2 ^ 31"
  shows "mg_get_var2 (Some (form_body (map (\<lambda>(k, v). (k, url_encoded v)) ps))) (Some name) n occ =
    (int (length v), v @ [NUL])"
proof -
  let ?enc = "\<lambda>(k, v). (k, url_encoded v)"
  let ?qs = "map ?enc ps"
  have fm: "filter (same_key name) ?qs = map ?enc (filter (same_key name) ps)"
  proof -
    have "same_key name \<circ> ?enc = same_key name" by (auto simp: same_key_def fun_eq_iff)
    then show ?thesis by (simp add: filter_map)
  qed
  have plain: "\<forall>p \<in> set ?qs. plain_pair p"
    using assms(1) wf_url_encoded by (auto simp: plain_pair_def)
  have "filter (same_key name) ps ! occ \<in> set ps"
    using nth_mem [OF assms(3)] by simp
  then have wfv: "wf_cstr v" using assms(1,4) by fastforce
  have sel: "snd (filter (same_key name) ?qs ! occ) = url_encoded v"
    unfolding fm using assms(3,4) by (simp add: split_def)
  obtain p where p: "find_var name True (form_body ?qs) occ = Some p"
    "takeWhile (\<lambda>c. c \<noteq> CHR ''&'') p = url_encoded v"
    using find_var_form_body [OF plain assms(2), of occ] assms(3) sel fm by auto
  have "form_body ?qs \<noteq> []"
    using p(1) by (cases "form_body ?qs") auto
  moreover have "to_signed 32 (int n) = int n" "to_signed 32 (int (length (url_encoded v))) = int (length (url_encoded v))"
    using assms(6,7) by (auto intro!: to_signed_id)
  ultimately show ?thesis
    using p url_decode_encoded [OF wfv, of "int n" True] assms(5)
    by (simp add: mg_get_var2_def Let_def)
qed

lemma mg_get_var2_encoded_form_witness:
  "mg_get_var2 (Some (form_body (map (\<lambda>(k, v). (k, url_encoded v)) [(''a'', ''1&2''), (''b'', ''x''), (''A'', ''y z'')])))
     (Some ''a'') 10 1 = (3, ''y z'' @ [NUL])"
proof -
  have "length (url_encoded ''y z'') < 2 ^ 31" using length_url_encoded [of "''y z''"] by simp
  then show ?thesis
    by (subst mg_get_var2_encoded_form [where v = "''y z''"])
       (simp_all add: plain_key_def same_key_def tolower_def ctype_simps char_of_eq_iff)
qed

text \<open>A buffer of \<open>2 ^ 31\<close> bytes is refused: its length is negative as an \<open>int\<close>.\<close>

lemma mg_get_var2_huge_buffer: "mg_get_var2 (Some ''a=1'') (Some ''a'') (2 ^ 31) 0 = (-2, [NUL])"
proof -
  have "mg_strncasecmp ''a'' ''a=1'' (Suc 0) = 0" by simp
  moreover have "to_signed 32 2147483648 = - 2147483648" "to_signed 32 1 = 1" by (simp_all add: to_signed_def)
  ultimately show ?thesis by (simp add: mg_get_var2_def mg_url_decode_def)
qed

text \<open>
  C9: decoding undoes encoding. Whatever \<open>mg_url_encode\<close> stored without running out of room,
  \<open>mg_url_decode\<close> turns back into the source, for both treatments of the plus sign.
\<close>

theorem url_encode_decode_roundtrip:
  assumes "mg_url_encode src dst_len = (r, stored)" "r \<noteq> -1" "wf_cstr src" "int (length src) < n"
  shows "mg_url_decode (butlast stored) n form = (int (length src), src @ [NUL])"
  by (rule mg_url_decode_encode [OF assms])

lemma url_encode_decode_roundtrip_witness:
  "\<exists>r stored. mg_url_encode ''a b'' 20 = (r, stored) \<and> mg_url_decode (butlast stored) 9 True = (3, ''a b'' @ [NUL])"
proof -
  obtain r st where e: "mg_url_encode ''a b'' 20 = (r, st)" by fastforce
  moreover have "r \<noteq> -1"
    using e by (auto simp: mg_url_encode_def Let_def numeral_eq_Suc ctype_simps dont_escape_def
        split: prod.splits if_splits)
  ultimately have "mg_url_decode (butlast st) 9 True = (int (length ''a b''), ''a b'' @ [NUL])"
    using url_encode_decode_roundtrip [of "''a b''" 20 r st 9 True] by simp
  then show ?thesis using e by auto
qed

text \<open>
  Decoding never stores more than the buffer holds nor more than the source and the
  terminator, and a result that is not an error is the length of the terminated text.
\<close>

lemma url_decode_stays_in_buffer:
  assumes "mg_url_decode src dst_len form = (r, stored)"
  shows "int (length stored) \<le> max 1 dst_len \<and> length stored \<le> length src + 1 \<and>
    (0 \<le> r \<longrightarrow> int (length stored) = r + 1 \<and> last stored = NUL)"
  using mg_url_decode_bound [OF assms] by blast

lemma url_decode_stays_in_buffer_witness:
  "\<exists>r stored. mg_url_decode ''%41%zz'' 4 False = (r, stored) \<and> int (length stored) \<le> 4"
proof -
  obtain r st where "mg_url_decode ''%41%zz'' 4 False = (r, st)" by fastforce
  then show ?thesis using url_decode_stays_in_buffer [of "''%41%zz''" 4 False r st] by auto
qed

text \<open>
  C10: the search for a cookie ends for every header if the name is not empty. A position it
  finds lies behind the name, spelled in any case, and an equals sign, at the start of the
  header or behind a space.
\<close>

theorem cookie_search_total:
  assumes "wf_cstr hdr" "wf_cstr name" "name \<noteq> []"
  shows "\<exists>r. cookie_search hdr name pos = Some r \<and>
    (case r of None \<Rightarrow> True
     | Some v \<Rightarrow> length name < v \<and> v \<le> length hdr \<and> hdr ! (v - 1) = CHR ''='' \<and>
         map tolower (take (length name) (drop (v - 1 - length name) hdr)) = map tolower name \<and>
         (v = length name + 1 \<or> hdr ! (v - 2 - length name) = SP))"
proof -
  obtain r where "cookie_search hdr name pos = Some r" using cookie_search_returns [OF assms(3)] by blast
  then show ?thesis using cookie_search_sound [OF assms]
    by (intro exI [of _ r]) (auto simp del: One_nat_def split: option.splits)
qed

lemma cookie_search_total_witness:
  "\<exists>r. cookie_search ''a=1; sid=7'' ''sid'' 0 = Some r"
  using cookie_search_total [of "''a=1; sid=7''" "''sid''" 0] by auto

text \<open>
  With an empty name the search does not return: no value of the loop exists for a header that
  does not start with an equals sign, if there is a buffer.
\<close>

lemma mg_get_cookie_empty_name_hangs:
  assumes "rd hdr 0 \<noteq> CHR ''=''" "dst_size \<noteq> 0"
  shows "mg_get_cookie (Some hdr) (Some []) dst_size = None"
  using cookie_search_empty_name [OF assms(1)] assms(2) by (simp add: mg_get_cookie_def)

lemma mg_get_cookie_empty_name_hangs_witness: "mg_get_cookie (Some ''sid=7'') (Some []) 8 = None"
  by (rule mg_get_cookie_empty_name_hangs) simp_all

end
