(* ===== verification/Mg_Sort.thy ===== *)
theory Mg_Sort
  imports Civet_Prelude "HOL-Library.Multiset"
begin

text \<open>
  \<open>mg_sort\<close> of \<open>src/sort.inl\<close>: shell sort with the gap sequence \<open>A102549\<close>. The array is a
  list, the element copies are list updates. The comparison function is an argument; the
  results hold for every \<open>comparator\<close>.
\<close>

section \<open>The sort\<close>

definition A102549 :: "nat list" where
  "A102549 = [1, 4, 10, 23, 57, 132, 301, 701, 1750]"

text \<open>
  The innermost loop: shift elements greater than \<open>tmp\<close> by \<open>gap\<close> to the right, then store
  \<open>tmp\<close>. Gaps are positive; the guard \<open>0 < gap\<close> only makes the recursion well-founded.
\<close>

function sort_shift :: "('a \<Rightarrow> 'a \<Rightarrow> int) \<Rightarrow> nat \<Rightarrow> 'a \<Rightarrow> 'a list \<Rightarrow> nat \<Rightarrow> 'a list" where
  "sort_shift cmp gap tmp xs k =
     (if 0 < gap \<and> gap \<le> k \<and> cmp (xs ! (k - gap)) tmp > 0
      then sort_shift cmp gap tmp (xs[k := xs ! (k - gap)]) (k - gap)
      else xs[k := tmp])"
  by pat_completeness auto
termination
  by (relation "measure (\<lambda>(cmp, gap, tmp, xs, k). k)") auto

declare sort_shift.simps [simp del]

text \<open>The loop over \<open>j = i, i + gap, ...\<close> below the element count.\<close>

function sort_class :: "('a \<Rightarrow> 'a \<Rightarrow> int) \<Rightarrow> nat \<Rightarrow> 'a list \<Rightarrow> nat \<Rightarrow> 'a list" where
  "sort_class cmp gap xs j =
     (if 0 < gap \<and> j < length xs
      then sort_class cmp gap (sort_shift cmp gap (xs ! j) xs j) (j + gap) else xs)"
  by pat_completeness auto

lemma length_sort_shift [simp]: "length (sort_shift cmp gap tmp xs k) = length xs"
  by (induction cmp gap tmp xs k rule: sort_shift.induct) (subst sort_shift.simps, simp)

termination sort_class
  by (relation "measure (\<lambda>(cmp, gap, xs, j). length xs - j)") auto

declare sort_class.simps [simp del]

definition sort_gap :: "('a \<Rightarrow> 'a \<Rightarrow> int) \<Rightarrow> nat \<Rightarrow> 'a list \<Rightarrow> 'a list" where
  "sort_gap cmp gap xs =
     (if gap > length xs div 2 then xs
      else fold (\<lambda>i xs. sort_class cmp gap xs i) [0..<gap] xs)"

definition mg_sort :: "('a \<Rightarrow> 'a \<Rightarrow> int) \<Rightarrow> 'a list \<Rightarrow> 'a list" where
  "mg_sort cmp xs = fold (sort_gap cmp) (rev A102549) xs"

section \<open>The result is a permutation\<close>

lemma mset_sort_shift:
  "k < length xs \<Longrightarrow> mset (sort_shift cmp gap tmp xs k) + {# xs ! k #} = mset xs + {# tmp #}"
proof (induction cmp gap tmp xs k rule: sort_shift.induct)
  case (1 cmp gap tmp xs k)
  show ?case
  proof (cases "0 < gap \<and> gap \<le> k \<and> cmp (xs ! (k - gap)) tmp > 0")
    case True
    let ?ys = "xs[k := xs ! (k - gap)]"
    have "k - gap < length ?ys" and nth: "?ys ! (k - gap) = xs ! (k - gap)"
      using True "1.prems" by auto
    with True "1.IH" have IH: "mset (sort_shift cmp gap tmp ?ys (k - gap)) + {# xs ! (k - gap) #}
      = mset ?ys + {# tmp #}" by simp
    have ys: "mset ?ys + {# xs ! k #} = mset xs + {# xs ! (k - gap) #}"
      using "1.prems" by (simp add: mset_update)
    have "mset (sort_shift cmp gap tmp ?ys (k - gap)) + {# xs ! k #} + {# xs ! (k - gap) #}
      = mset xs + {# tmp #} + {# xs ! (k - gap) #}"
      using IH ys by (metis (no_types, lifting) add.assoc add.commute)
    then have "mset (sort_shift cmp gap tmp ?ys (k - gap)) + {# xs ! k #} = mset xs + {# tmp #}"
      by (rule add_right_imp_eq)
    then show ?thesis using True by (subst sort_shift.simps) simp
  next
    case False
    then show ?thesis
      using "1.prems" by (subst sort_shift.simps) (auto simp: mset_update)
  qed
qed

lemma mset_sort_class: "mset (sort_class cmp gap xs j) = mset xs"
proof (induction cmp gap xs j rule: sort_class.induct)
  case (1 cmp gap xs j)
  then show ?case
    using mset_sort_shift [of j xs cmp gap "xs ! j"] by (subst sort_class.simps) auto
qed

lemma mset_fold: "(\<And>x ys. mset (f x ys) = mset ys) \<Longrightarrow> mset (fold f is xs) = mset xs"
  by (induction "is" arbitrary: xs) simp_all

lemma mset_sort_gap: "mset (sort_gap cmp gap xs) = mset xs"
  by (simp add: sort_gap_def mset_fold mset_sort_class)

lemma mset_mg_sort: "mset (mg_sort cmp xs) = mset xs"
  by (simp add: mg_sort_def mset_fold mset_sort_gap)

lemma length_mg_sort [simp]: "length (mg_sort cmp xs) = length xs"
  by (metis mset_mg_sort size_mset)

lemma set_mg_sort [simp]: "set (mg_sort cmp xs) = set xs"
  by (metis mset_mg_sort set_mset_mset)

section \<open>The result is sorted\<close>

text \<open>
  The last pass has gap 1 and is an insertion sort; it sorts whatever the earlier passes
  leave. \<open>insr\<close> inserts from the right, as the shifting loop does.
\<close>

function insr :: "('a \<Rightarrow> 'a \<Rightarrow> int) \<Rightarrow> 'a list \<Rightarrow> 'a \<Rightarrow> 'a list" where
  "insr cmp ys x =
     (if ys \<noteq> [] \<and> cmp (last ys) x > 0 then insr cmp (butlast ys) x @ [last ys] else ys @ [x])"
  by pat_completeness auto
termination
  by (relation "measure (\<lambda>(cmp, ys, x). length ys)") auto

declare insr.simps [simp del]

lemma set_insr: "set (insr cmp ys x) = insert x (set ys)"
proof (induction cmp ys x rule: insr.induct)
  case (1 cmp ys x)
  have "ys \<noteq> [] \<Longrightarrow> set ys = insert (last ys) (set (butlast ys))"
    by (metis append_butlast_last_id list.simps(15) rotate1.simps(2) set_rotate1)
  with 1 show ?case by (subst insr.simps) auto
qed

lemma length_insr: "length (insr cmp ys x) = Suc (length ys)"
  by (induction cmp ys x rule: insr.induct) (subst insr.simps, simp)

lemma sort_shift_1:
  "k < length xs \<Longrightarrow> sort_shift cmp 1 tmp xs k = insr cmp (take k xs) tmp @ drop (Suc k) xs"
proof (induction k arbitrary: xs)
  case 0
  then show ?case by (subst sort_shift.simps, subst insr.simps) (cases xs; simp)
next
  case (Suc k)
  have take: "take (Suc k) xs = take k xs @ [xs ! k]"
    using Suc.prems by (simp add: take_Suc_conv_app_nth)
  show ?case
  proof (cases "cmp (xs ! k) tmp > 0")
    case True
    have "sort_shift cmp 1 tmp xs (Suc k) = sort_shift cmp 1 tmp (xs[Suc k := xs ! k]) k"
      using True by (subst sort_shift.simps) simp
    also have "... = insr cmp (take k xs) tmp @ xs ! k # drop (Suc (Suc k)) xs"
      using Suc by (simp add: Cons_nth_drop_Suc [symmetric])
    also have "insr cmp (take (Suc k) xs) tmp = insr cmp (take k xs) tmp @ [xs ! k]"
      unfolding take using True by (subst insr.simps) simp
    ultimately show ?thesis by simp
  next
    case False
    have "insr cmp (take (Suc k) xs) tmp = take (Suc k) xs @ [tmp]"
      unfolding take using False by (subst insr.simps) simp
    with False Suc.prems show ?thesis
      by (subst sort_shift.simps) (simp add: upd_conv_take_nth_drop)
  qed
qed

context comparator
begin

abbreviation ascending :: "'a list \<Rightarrow> bool" where
  "ascending \<equiv> sorted_wrt (\<lambda>x y. cmp x y \<le> 0)"

lemma ascending_insr: "ascending ys \<Longrightarrow> ascending (insr cmp ys x)"
proof (induction "length ys" arbitrary: ys)
  case 0
  then show ?case by (subst insr.simps) simp
next
  case (Suc n)
  then obtain zs z where ys: "ys = zs @ [z]" by (metis length_Suc_conv_rev)
  show ?case
  proof (cases "cmp z x > 0")
    case True
    then have "cmp x z \<le> 0" using cmp_sym [of z x] cmp_sym [of x z] by linarith
    moreover have "ascending (insr cmp zs x)" using Suc ys by (simp add: sorted_wrt_append)
    ultimately have "ascending (insr cmp zs x @ [z])"
      using Suc.prems ys by (auto simp: sorted_wrt_append set_insr)
    then show ?thesis using True ys by (subst insr.simps) simp
  next
    case False
    then have "\<forall>y \<in> set ys. cmp y x \<le> 0"
      using Suc.prems ys cmp_trans by (fastforce simp: sorted_wrt_append)
    with False Suc.prems ys show ?thesis by (subst insr.simps) (simp add: sorted_wrt_append)
  qed
qed

lemma ascending_sort_class_1:
  "ascending (take j xs) \<Longrightarrow> ascending (sort_class cmp 1 xs j)"
proof (induction "length xs - j" arbitrary: xs j)
  case 0
  then show ?case by (subst sort_class.simps) simp
next
  case (Suc n)
  then have j: "j < length xs" by simp
  let ?ys = "sort_shift cmp 1 (xs ! j) xs j"
  have len: "length (insr cmp (take j xs) (xs ! j)) = Suc j"
    using j by (simp add: length_insr)
  have "take (Suc j) ?ys = insr cmp (take j xs) (xs ! j)"
    unfolding sort_shift_1 [OF j] using len by simp
  then have "ascending (take (Suc j) ?ys)"
    using ascending_insr [OF Suc.prems] by simp
  with Suc(1) [of ?ys "Suc j"] Suc(2) have "ascending (sort_class cmp 1 ?ys (Suc j))" by simp
  then show ?case using j by (subst sort_class.simps) simp
qed

lemma ascending_sort_gap_1: "ascending (sort_gap cmp 1 xs)"
proof (cases "1 > length xs div 2")
  case True
  then have "length xs \<le> 1" by linarith
  with True show ?thesis by (cases xs) (auto simp: sort_gap_def)
next
  case False
  then show ?thesis using ascending_sort_class_1 [of 0 xs] by (simp add: sort_gap_def)
qed

lemma ascending_mg_sort: "ascending (mg_sort cmp xs)"
  using ascending_sort_gap_1 by (simp add: mg_sort_def A102549_def)

end

section \<open>Properties\<close>

text \<open>
  C13: the gap sort returns a permutation of its input in ascending order, for every
  comparison function that is a total preorder.
\<close>

theorem mg_sort_sorts:
  assumes "comparator cmp"
  shows "sorted_wrt (\<lambda>x y. cmp x y \<le> 0) (mg_sort cmp xs) \<and> mset (mg_sort cmp xs) = mset xs"
  using comparator.ascending_mg_sort [OF assms] mset_mg_sort by simp

lemma mg_sort_sorts_witness: "sorted_wrt (\<lambda>x y. x - y \<le> 0) (mg_sort (\<lambda>x y. x - y) [3, 1, 2 :: int])"
proof -
  have "comparator (\<lambda>x y :: int. x - y)" by unfold_locales auto
  then show ?thesis using mg_sort_sorts by blast
qed

end
