(* ===== verification/Mg_Match.thy ===== *)
theory Mg_Match
  imports C_Strings Mg_Sort
begin

text \<open>
  Pattern matching, \<open>src/match.inl\<close>. A pointer into the subject string is its offset; a
  match element is an offset and a length. The pattern pointer with its remaining length
  is the list of remaining pattern characters.
\<close>

section \<open>Match contexts\<close>

type_synonym match_element = "nat \<times> nat"

record mg_match_context =
  case_sensitive :: bool
  matches :: "match_element list"   \<comment> \<open>the first \<open>num_matches\<close> elements\<close>

definition MG_MATCH_CONTEXT_MAX_MATCHES :: nat where
  "MG_MATCH_CONTEXT_MAX_MATCHES = 32"

definition match_context_reset :: "mg_match_context \<Rightarrow> mg_match_context" where
  "match_context_reset mcx = mcx\<lparr>matches := []\<rparr>"

definition match_context_push :: "nat \<Rightarrow> nat \<Rightarrow> mg_match_context \<Rightarrow> mg_match_context" where
  "match_context_push str len mcx =
     (if length (matches mcx) < MG_MATCH_CONTEXT_MAX_MATCHES
      then mcx\<lparr>matches := matches mcx @ [(str, len)]\<rparr> else mcx)"

text \<open>\<open>if (mcx)\<close>: the context pointer may be NULL.\<close>

definition push_opt :: "nat \<Rightarrow> nat \<Rightarrow> mg_match_context option \<Rightarrow> mg_match_context option" where
  "push_opt str len mcx = map_option (match_context_push str len) mcx"

definition sensitive :: "mg_match_context option \<Rightarrow> bool" where
  "sensitive mcx = (case mcx of None \<Rightarrow> False | Some m \<Rightarrow> case_sensitive m)"

section \<open>Matching one alternative\<close>

text \<open>The number of characters a run of \<open>?\<close> consumes at an offset.\<close>

fun qmarks :: "string \<Rightarrow> string \<Rightarrow> nat \<Rightarrow> nat" where
  "qmarks s [] pos = 0"
| "qmarks s (c # pat) pos =
     (if c = CHR ''?'' \<and> rd s pos \<noteq> NUL \<and> rd s pos \<noteq> CHR ''/''
      then Suc (qmarks s pat (Suc pos)) else 0)"

definition char_differs :: "bool \<Rightarrow> char \<Rightarrow> char \<Rightarrow> bool" where
  "char_differs sens p c = (if sens then p \<noteq> c else lowercase p \<noteq> lowercase c)"

text \<open>
  \<open>mg_match_impl s pat pos mcx\<close> is the loop at offset \<open>pos\<close>. The result is the offset
  behind the match (\<open>pos\<close> plus the C return value), \<open>None\<close> for -1, with the context as the
  function leaves it. \<open>mg_match_star\<close> is the loop over the length \<open>len\<close> that a \<open>*\<close> takes,
  from the longest down; a failed attempt leaves its entries in the context, as in the
  source.
\<close>

function (sequential)
  mg_match_impl :: "string \<Rightarrow> string \<Rightarrow> nat \<Rightarrow> mg_match_context option
    \<Rightarrow> nat option \<times> mg_match_context option" and
  mg_match_star :: "string \<Rightarrow> string \<Rightarrow> nat \<Rightarrow> nat \<Rightarrow> mg_match_context option
    \<Rightarrow> (nat \<times> nat) option \<times> mg_match_context option"
where
  "mg_match_impl s pat pos mcx =
     (if pat = [] then (Some pos, mcx)
      else
        let n = qmarks s pat pos;
            pat1 = drop n pat;
            pos1 = pos + n;
            mcx1 = (if n > 0 then push_opt pos n mcx else mcx)
        in case pat1 of
             [] \<Rightarrow> (Some pos1, mcx1)
           | c # pat2 \<Rightarrow>
               if c = CHR ''$'' then (if rd s pos1 = NUL then Some pos1 else None, mcx1)
               else if c = CHR ''*'' then
                 let all = (pat2 \<noteq> [] \<and> hd pat2 = CHR ''*'');
                     pat3 = (if all then tl pat2 else pat2);
                     len = (if all then length (drop pos1 s) else strcspn (drop pos1 s) ''/'')
                 in if pat3 = [] then (Some (pos1 + len), push_opt pos1 len mcx1)
                    else case mg_match_star s pat3 pos1 len mcx1 of
                           (None, mcx2) \<Rightarrow> (None, mcx2)
                         | (Some (e, l), mcx2) \<Rightarrow> (Some e, push_opt pos1 l mcx2)
               else if char_differs (sensitive mcx) c (rd s pos1) then (None, mcx1)
               else mg_match_impl s pat2 (Suc pos1) mcx1)"
| "mg_match_star s pat pos len mcx =
     (case mg_match_impl s pat (pos + len) mcx of
        (Some e, mcx1) \<Rightarrow> (Some (e, len), mcx1)
      | (None, mcx1) \<Rightarrow>
          if len > 0 then mg_match_star s pat pos (len - 1) mcx1 else (None, mcx1))"
  by pat_completeness auto
termination
  by (relation "measures
       [\<lambda>x. case x of Inl (s, pat, pos, mcx) \<Rightarrow> length pat | Inr (s, pat, pos, len, mcx) \<Rightarrow> length pat,
        \<lambda>x. case x of Inl _ \<Rightarrow> 0 | Inr (s, pat, pos, len, mcx) \<Rightarrow> Suc len]")
    (auto simp: Let_def split: if_splits dest: arg_cong [where f = length])

declare mg_match_impl.simps [simp del] mg_match_star.simps [simp del]

section \<open>Alternatives and the match function\<close>

function match_alternatives_loop :: "string \<Rightarrow> string \<Rightarrow> mg_match_context option
    \<Rightarrow> nat option \<times> mg_match_context option" where
  "match_alternatives_loop pat str mcx =
     (case memchr (CHR ''|'') pat of
        None \<Rightarrow> mg_match_impl str pat 0 mcx
      | Some left_size \<Rightarrow>
          (case mg_match_impl str (take left_size pat) 0 mcx of
             (Some ret, mcx1) \<Rightarrow> (Some ret, mcx1)
           | (None, mcx1) \<Rightarrow>
               match_alternatives_loop (drop (left_size + 1) pat) str
                 (map_option match_context_reset mcx1)))"
  by pat_completeness auto
termination
  by (relation "measure (\<lambda>(pat, str, mcx). length pat)") (auto dest: memchr_less)

declare match_alternatives_loop.simps [simp del]

definition mg_match_alternatives :: "string \<Rightarrow> string \<Rightarrow> mg_match_context option
    \<Rightarrow> nat option \<times> mg_match_context option" where
  "mg_match_alternatives pat str mcx =
     match_alternatives_loop pat str (map_option match_context_reset mcx)"

definition match_compare :: "match_element \<Rightarrow> match_element \<Rightarrow> int" where
  "match_compare e1 e2 =
     (if fst e1 > fst e2 then 1 else if fst e1 < fst e2 then -1 else 0)"

text \<open>The loop that joins consecutive matches: it works on the element in front of index \<open>i\<close>.\<close>

fun join_matches :: "match_element list \<Rightarrow> match_element list" where
  "join_matches ((p, len) # (q, len') # es) =
     (if p + len = q then join_matches ((p, len + len') # es)
      else (p, len) # join_matches ((q, len') # es))"
| "join_matches es = es"

definition mg_match ::
    "string \<Rightarrow> string \<Rightarrow> mg_match_context option \<Rightarrow> int \<times> mg_match_context option" where
  "mg_match pat str mcx =
     (case mg_match_alternatives pat str mcx of
        (None, mcx1) \<Rightarrow> (-1, map_option match_context_reset mcx1)
      | (Some ret, mcx1) \<Rightarrow>
          (int ret,
           map_option (\<lambda>m. m\<lparr>matches := join_matches (mg_sort match_compare (matches m))\<rparr>) mcx1))"

definition match_prefix :: "string option \<Rightarrow> string \<Rightarrow> int" where
  "match_prefix pattern str =
     (case pattern of None \<Rightarrow> -1
      | Some pat \<Rightarrow> (case fst (mg_match_alternatives pat str None) of None \<Rightarrow> -1 | Some n \<Rightarrow> int n))"

section \<open>Reference semantics of a pattern\<close>

text \<open>
  \<open>wild sens s pat pos e\<close>: the pattern can match the characters of \<open>s\<close> from offset \<open>pos\<close> up to
  \<open>e\<close>. A \<open>$\<close> ends the pattern; what follows it is not looked at.
\<close>

inductive wild :: "bool \<Rightarrow> string \<Rightarrow> string \<Rightarrow> nat \<Rightarrow> nat \<Rightarrow> bool" for sens s where
  wild_end: "wild sens s [] pos pos"
| wild_any: "\<lbrakk> rd s pos \<noteq> NUL; rd s pos \<noteq> CHR ''/''; wild sens s pat (Suc pos) e \<rbrakk>
    \<Longrightarrow> wild sens s (CHR ''?'' # pat) pos e"
| wild_dollar: "rd s pos = NUL \<Longrightarrow> wild sens s (CHR ''$'' # pat) pos pos"
| wild_star: "\<lbrakk> pat = [] \<or> hd pat \<noteq> CHR ''*''; len \<le> strcspn (drop pos s) ''/'';
      wild sens s pat (pos + len) e \<rbrakk> \<Longrightarrow> wild sens s (CHR ''*'' # pat) pos e"
| wild_stars: "\<lbrakk> len \<le> length (drop pos s); wild sens s pat (pos + len) e \<rbrakk>
    \<Longrightarrow> wild sens s (CHR ''*'' # CHR ''*'' # pat) pos e"
| wild_char: "\<lbrakk> c \<noteq> CHR ''?''; c \<noteq> CHR ''$''; c \<noteq> CHR ''*''; \<not> char_differs sens c (rd s pos);
      wild sens s pat (Suc pos) e \<rbrakk> \<Longrightarrow> wild sens s (c # pat) pos e"

inductive_simps wild_Nil [simp]: "wild sens s [] pos e"
inductive_simps wild_any_simp: "wild sens s (CHR ''?'' # pat) pos e"
inductive_simps wild_dollar_simp: "wild sens s (CHR ''$'' # pat) pos e"
inductive_simps wild_star_simp: "wild sens s (CHR ''*'' # pat) pos e"
inductive_simps wild_Cons: "wild sens s (c # pat) pos e"

lemma wild_qmarks:
  "wild sens s (drop (qmarks s pat pos) pat) (pos + qmarks s pat pos) e \<longleftrightarrow> wild sens s pat pos e"
  by (induction s pat pos rule: qmarks.induct) (auto simp: wild_any_simp)

lemma qmarks_stop:
  "drop (qmarks s pat pos) pat = c # pat2 \<Longrightarrow> c = CHR ''?'' \<Longrightarrow>
   rd s (pos + qmarks s pat pos) = NUL \<or> rd s (pos + qmarks s pat pos) = CHR ''/''"
  by (induction s pat pos rule: qmarks.induct) (auto split: if_splits)

lemma char_differs_qmark: "char_differs sens (CHR ''?'') NUL" "char_differs sens (CHR ''?'') (CHR ''/'')"
  by (simp_all add: char_differs_def lowercase_def tolower_def ctype_simps)

lemma sensitive_push [simp]: "sensitive (push_opt p l m) = sensitive m"
  by (simp add: sensitive_def push_opt_def match_context_push_def split: option.splits)

lemma sensitive_reset [simp]: "sensitive (map_option match_context_reset m) = sensitive m"
  by (simp add: sensitive_def match_context_reset_def split: option.splits)

text \<open>One step of the loop, as an equation on the reference semantics.\<close>

lemma wild_literal:
  assumes "c \<noteq> CHR ''$''" "c \<noteq> CHR ''*''" "c = CHR ''?'' \<Longrightarrow> rd s pos = NUL \<or> rd s pos = CHR ''/''"
  shows "wild sens s (c # pat) pos e \<longleftrightarrow> \<not> char_differs sens c (rd s pos) \<and> wild sens s pat (Suc pos) e"
  using assms char_differs_qmark by (subst wild_Cons) auto

lemma wild_star_step:
  fixes pat2 pos s
  defines "all \<equiv> pat2 \<noteq> [] \<and> hd pat2 = CHR ''*''"
  defines "pat3 \<equiv> (if all then tl pat2 else pat2)"
  defines "len \<equiv> (if all then length (drop pos s) else strcspn (drop pos s) ''/'')"
  shows "wild sens s (CHR ''*'' # pat2) pos e \<longleftrightarrow> (\<exists>l \<le> len. wild sens s pat3 (pos + l) e)"
  unfolding assms wild_star_simp by (cases pat2) auto

definition impl_correct :: "string \<Rightarrow> string \<Rightarrow> nat \<Rightarrow> bool \<Rightarrow> nat option \<times> mg_match_context option \<Rightarrow> bool" where
  "impl_correct s pat pos sens r \<longleftrightarrow> sensitive (snd r) = sens \<and>
     (case fst r of Some e \<Rightarrow> wild sens s pat pos e | None \<Rightarrow> \<forall>e. \<not> wild sens s pat pos e)"

definition star_correct ::
    "string \<Rightarrow> string \<Rightarrow> nat \<Rightarrow> nat \<Rightarrow> bool \<Rightarrow> (nat \<times> nat) option \<times> mg_match_context option \<Rightarrow> bool" where
  "star_correct s pat pos len sens r \<longleftrightarrow> sensitive (snd r) = sens \<and>
     (case fst r of Some (e, l) \<Rightarrow> l \<le> len \<and> wild sens s pat (pos + l) e
      | None \<Rightarrow> \<forall>l \<le> len. \<forall>e. \<not> wild sens s pat (pos + l) e)"

lemma match_correct:
  "impl_correct s pat pos (sensitive mcx) (mg_match_impl s pat pos mcx)"
  "star_correct s pat pos len (sensitive mcx) (mg_match_star s pat pos len mcx)"
proof (induction s pat pos mcx and s pat pos len mcx rule: mg_match_impl_mg_match_star.induct)
  case (1 s pat pos mcx)
  show ?case
  proof (cases "pat = []")
    case True
    then show ?thesis by (simp add: mg_match_impl.simps impl_correct_def)
  next
    case False
    define n where "n = qmarks s pat pos"
    define m where "m = (if n > 0 then push_opt pos n mcx else mcx)"
    have sens: "sensitive m = sensitive mcx" by (simp add: m_def)
    have step: "wild sens s pat pos e \<longleftrightarrow> wild sens s (drop n pat) (pos + n) e" for sens e
      by (simp add: n_def wild_qmarks)
    show ?thesis
    proof (cases "drop n pat")
      case Nil
      with False show ?thesis
        by (simp add: mg_match_impl.simps [of s pat] Let_def n_def [symmetric] m_def [symmetric]
            impl_correct_def step sens)
    next
      case (Cons c pat2)
      note unfold = mg_match_impl.simps [of s pat pos mcx] Let_def n_def [symmetric] m_def [symmetric] Cons
      have run: "c = CHR ''?'' \<Longrightarrow> rd s (pos + n) = NUL \<or> rd s (pos + n) = CHR ''/''"
        using qmarks_stop Cons unfolding n_def by blast
      consider "c = CHR ''$''" | "c = CHR ''*''" | "c \<noteq> CHR ''$''" "c \<noteq> CHR ''*''" by blast
      then show ?thesis
      proof cases
        case 1
        with False show ?thesis
          by (simp add: unfold impl_correct_def step sens wild_dollar_simp)
      next
        case star: 2
        define al where "al \<longleftrightarrow> pat2 \<noteq> [] \<and> hd pat2 = CHR ''*''"
        define pat3 where "pat3 = (if al then tl pat2 else pat2)"
        define len where "len = (if al then length (drop (pos + n) s) else strcspn (drop (pos + n) s) ''/'')"
        have "star_correct s pat3 (pos + n) len (sensitive m) (mg_match_star s pat3 (pos + n) len m)"
          if "pat3 \<noteq> []"
          using "1.IH"(1) [OF False n_def refl refl m_def Cons] star that
          by (simp add: al_def pat3_def len_def)
        moreover have "wild sens s (c # pat2) (pos + n) e \<longleftrightarrow> (\<exists>l \<le> len. wild sens s pat3 (pos + n + l) e)" for sens e
          using wild_star_step [of sens s pat2 "pos + n" e] star by (simp add: al_def pat3_def len_def)
        moreover have "mg_match_impl s pat pos mcx =
          (if pat3 = [] then (Some (pos + n + len), push_opt (pos + n) len m)
           else case mg_match_star s pat3 (pos + n) len m of (None, mcx2) \<Rightarrow> (None, mcx2)
             | (Some (e, l), mcx2) \<Rightarrow> (Some e, push_opt (pos + n) l mcx2))"
          using False star by (simp add: unfold al_def pat3_def len_def)
        ultimately show ?thesis
          by (auto simp: impl_correct_def star_correct_def step Cons sens split: prod.splits option.splits)
      next
        case lit: 3
        have "impl_correct s pat2 (Suc (pos + n)) (sensitive m) (mg_match_impl s pat2 (Suc (pos + n)) m)"
          if "\<not> char_differs (sensitive mcx) c (rd s (pos + n))"
          using "1.IH"(2) [OF False n_def refl refl m_def Cons lit that] .
        with False lit run show ?thesis
          by (auto simp: unfold impl_correct_def step sens wild_literal split: option.splits)
      qed
    qed
  qed
next
  case (2 s pat pos len mcx)
  have le: "l \<le> len \<longleftrightarrow> l = len \<or> 0 < len \<and> l \<le> len - 1" for l by linarith
  show ?case
  proof (cases "mg_match_impl s pat (pos + len) mcx")
    case (Pair r m)
    note impl = "2.IH"(1) [unfolded Pair impl_correct_def]
    show ?thesis
    proof (cases r)
      case (Some e)
      with impl Pair show ?thesis by (simp add: mg_match_star.simps star_correct_def)
    next
      case None
      have step: "mg_match_star s pat pos len mcx =
          (if len > 0 then mg_match_star s pat pos (len - 1) m else (None, m))"
        using Pair None by (subst mg_match_star.simps) simp
      show ?thesis
      proof (cases "len > 0")
        case True
        from "2.IH"(2) [OF Pair [symmetric] None True] impl None True show ?thesis
          unfolding step by (auto simp: star_correct_def le split: option.splits)
      next
        case False
        with impl None show ?thesis unfolding step by (simp add: star_correct_def)
      qed
    qed
  qed
qed

lemma mg_match_impl_iff:
  "(\<exists>e. fst (mg_match_impl s pat pos mcx) = Some e) \<longleftrightarrow> (\<exists>e. wild (sensitive mcx) s pat pos e)"
  "fst (mg_match_impl s pat pos mcx) = Some e \<Longrightarrow> wild (sensitive mcx) s pat pos e"
  using match_correct(1) [of s pat pos mcx] by (auto simp: impl_correct_def split: option.splits)

section \<open>Bounds\<close>

lemma wild_bounds:
  "wild sens s pat pos e \<Longrightarrow> NUL \<notin> set pat \<Longrightarrow> pos \<le> length s \<Longrightarrow> pos \<le> e \<and> e \<le> length s"
proof (induction rule: wild.induct)
  case (wild_any pos pat e)
  then show ?case using rd_nonNUL [of s pos] by simp
next
  case (wild_star pat len pos e)
  then show ?case using strcspn_le [of "drop pos s" "''/''"] by (simp; linarith)
next
  case (wild_stars len pos pat e)
  then show ?case by (simp; linarith)
next
  case (wild_char c pos pat e)
  have "rd s pos \<noteq> NUL"
  proof
    assume "rd s pos = NUL"
    with wild_char show False by (auto simp: char_differs_def split: if_splits)
  qed
  then have "pos < length s" by (rule rd_nonNUL)
  with wild_char show ?case by simp
qed auto

lemma qmarks_bound: "pos \<le> length s \<Longrightarrow> pos + qmarks s pat pos \<le> length s"
proof (induction s pat pos rule: qmarks.induct)
  case (2 s c pat pos)
  then show ?case using rd_nonNUL [of s pos] by auto
qed simp

text \<open>The context holds at most 32 entries and all of them lie inside the subject.\<close>

definition context_ok :: "string \<Rightarrow> mg_match_context option \<Rightarrow> bool" where
  "context_ok s mcx = (case mcx of None \<Rightarrow> True | Some m \<Rightarrow>
     length (matches m) \<le> MG_MATCH_CONTEXT_MAX_MATCHES \<and>
     (\<forall>(p, len) \<in> set (matches m). p + len \<le> length s))"

lemma context_ok_push: "context_ok s mcx \<Longrightarrow> p + len \<le> length s \<Longrightarrow> context_ok s (push_opt p len mcx)"
  by (auto simp: context_ok_def push_opt_def match_context_push_def split: option.splits)

lemma context_ok_reset: "context_ok s (map_option match_context_reset mcx)"
  by (auto simp: context_ok_def match_context_reset_def split: option.splits)

lemma match_context_ok:
  "NUL \<notin> set pat \<Longrightarrow> pos \<le> length s \<Longrightarrow> context_ok s mcx \<Longrightarrow> context_ok s (snd (mg_match_impl s pat pos mcx))"
  "NUL \<notin> set pat \<Longrightarrow> pos + len \<le> length s \<Longrightarrow> context_ok s mcx \<Longrightarrow>
     context_ok s (snd (mg_match_star s pat pos len mcx))"
proof (induction s pat pos mcx and s pat pos len mcx rule: mg_match_impl_mg_match_star.induct)
  case (1 s pat pos mcx)
  show ?case
  proof (cases "pat = []")
    case True
    with 1 show ?thesis by (simp add: mg_match_impl.simps)
  next
    case False
    define n where "n = qmarks s pat pos"
    define m where "m = (if n > 0 then push_opt pos n mcx else mcx)"
    have n: "pos + n \<le> length s" using qmarks_bound 1 by (simp add: n_def)
    with 1 have m: "context_ok s m" by (simp add: m_def context_ok_push)
    show ?thesis
    proof (cases "drop n pat")
      case Nil
      with False m show ?thesis
        by (simp add: mg_match_impl.simps [of s pat] Let_def n_def [symmetric] m_def [symmetric])
    next
      case (Cons c pat2)
      note unfold = mg_match_impl.simps [of s pat pos mcx] Let_def n_def [symmetric] m_def [symmetric] Cons
      have "set (c # pat2) \<subseteq> set pat" unfolding Cons [symmetric] by (rule set_drop_subset)
      with 1 have pat2: "NUL \<notin> set pat2" "c \<noteq> NUL" by auto
      consider "c = CHR ''$''" | "c = CHR ''*''" | "c \<noteq> CHR ''$''" "c \<noteq> CHR ''*''" by blast
      then show ?thesis
      proof cases
        case 1
        with False m show ?thesis by (simp add: unfold)
      next
        case star: 2
        define al where "al \<longleftrightarrow> pat2 \<noteq> [] \<and> hd pat2 = CHR ''*''"
        define pat3 where "pat3 = (if al then tl pat2 else pat2)"
        define len where "len = (if al then length (drop (pos + n) s) else strcspn (drop (pos + n) s) ''/'')"
        have len: "pos + n + len \<le> length s"
          using n strcspn_le [of "drop (pos + n) s" "''/''"] by (simp add: len_def; linarith)
        have pat3: "NUL \<notin> set pat3"
          using pat2 by (cases pat2) (auto simp: pat3_def)
        have "context_ok s (snd (mg_match_star s pat3 (pos + n) len m))" if "pat3 \<noteq> []"
          using "1.IH"(1) [OF False n_def refl refl m_def Cons] star that len m pat3
          by (simp add: al_def pat3_def len_def)
        moreover have "mg_match_impl s pat pos mcx =
          (if pat3 = [] then (Some (pos + n + len), push_opt (pos + n) len m)
           else case mg_match_star s pat3 (pos + n) len m of (None, mcx2) \<Rightarrow> (None, mcx2)
             | (Some (e, l), mcx2) \<Rightarrow> (Some e, push_opt (pos + n) l mcx2))"
          using False star by (simp add: unfold al_def pat3_def len_def)
        moreover have "l \<le> len" if "fst (mg_match_star s pat3 (pos + n) len m) = Some (e, l)" for e l
          using match_correct(2) [where s = s and pat = pat3 and pos = "pos + n" and len = len and mcx = m] that
          by (simp add: star_correct_def)
        ultimately show ?thesis
          using m len by (auto intro!: context_ok_push split: prod.splits option.splits dest: add_leD1)
      next
        case lit: 3
        show ?thesis
        proof (cases "char_differs (sensitive mcx) c (rd s (pos + n))")
          case True
          with False lit m show ?thesis by (simp add: unfold)
        next
          case match: False
          have "rd s (pos + n) \<noteq> NUL"
          proof
            assume "rd s (pos + n) = NUL"
            with match pat2 show False by (auto simp: char_differs_def split: if_splits)
          qed
          then have "Suc (pos + n) \<le> length s" using rd_nonNUL by fastforce
          with "1.IH"(2) [OF False n_def refl refl m_def Cons lit match] pat2 m False lit match
          show ?thesis by (simp add: unfold)
        qed
      qed
    qed
  qed
next
  case (2 s pat pos len mcx)
  show ?case
  proof (cases "mg_match_impl s pat (pos + len) mcx")
    case (Pair r m)
    have m: "context_ok s m" using "2.IH"(1) "2.prems" Pair by simp
    show ?thesis
    proof (cases r)
      case (Some e)
      with m Pair show ?thesis by (simp add: mg_match_star.simps)
    next
      case None
      have step: "mg_match_star s pat pos len mcx =
          (if len > 0 then mg_match_star s pat pos (len - 1) m else (None, m))"
        using Pair None by (subst mg_match_star.simps) simp
      show ?thesis
      proof (cases "len > 0")
        case True
        have "context_ok s (snd (mg_match_star s pat pos (len - 1) m))"
          by (rule "2.IH"(2) [OF Pair [symmetric] None True "2.prems"(1) _ m]) (use "2.prems" in simp)
        with True show ?thesis unfolding step by simp
      next
        case False
        with m show ?thesis unfolding step by simp
      qed
    qed
  qed
qed

section \<open>The whole match function\<close>

interpretation match_order: comparator match_compare
  by unfold_locales (auto simp: match_compare_def split: if_splits)

lemma set_take_drop_NUL: "NUL \<notin> set pat \<Longrightarrow> NUL \<notin> set (take n pat) \<and> NUL \<notin> set (drop n pat)"
  by (auto dest: in_set_takeD in_set_dropD)

lemma alternatives_ok:
  assumes "wf_cstr pat" "context_ok str mcx"
  shows "context_ok str (snd (match_alternatives_loop pat str mcx))"
    and "fst (match_alternatives_loop pat str mcx) = Some e \<Longrightarrow> e \<le> length str"
proof -
  have "context_ok str (snd (match_alternatives_loop pat str mcx)) \<and>
    (\<forall>e. fst (match_alternatives_loop pat str mcx) = Some e \<longrightarrow> e \<le> length str)"
    using assms
  proof (induction pat str mcx rule: match_alternatives_loop.induct)
    case (1 pat str mcx)
    have bound: "e \<le> length str" if "fst (mg_match_impl str p 0 mcx) = Some e" "NUL \<notin> set p" for p e
      using wild_bounds [OF mg_match_impl_iff(2) [OF that(1)] that(2)] by simp
    have ok: "context_ok str (snd (mg_match_impl str p 0 mcx))" if "NUL \<notin> set p" for p
      using match_context_ok(1) [OF that _ 1(3)] by simp
    show ?case
    proof (cases "memchr (CHR ''|'') pat")
      case None
      with bound [of pat] ok [of pat] 1(2) show ?thesis
        by (simp add: match_alternatives_loop.simps [of pat] wf_cstr_def)
    next
      case (Some i)
      obtain r m where rm: "mg_match_impl str (take i pat) 0 mcx = (r, m)" by fastforce
      have nul: "NUL \<notin> set (take i pat)" using 1(2) set_take_drop_NUL by (auto simp: wf_cstr_def)
      show ?thesis
      proof (cases r)
        case None
        with 1(1) [OF Some rm [symmetric] None wf_cstr_drop [OF 1(2)] context_ok_reset] rm Some
        show ?thesis by (simp add: match_alternatives_loop.simps [of pat])
      next
        case (Some e)
        with rm \<open>memchr _ pat = _\<close> bound [OF _ nul] ok [OF nul] show ?thesis
          by (simp add: match_alternatives_loop.simps [of pat])
      qed
    qed
  qed
  then show "context_ok str (snd (match_alternatives_loop pat str mcx))"
    and "fst (match_alternatives_loop pat str mcx) = Some e \<Longrightarrow> e \<le> length str" by blast+
qed

lemma join_matches_inside:
  "\<forall>(p, len) \<in> set es. p + len \<le> n \<Longrightarrow> \<forall>(p, len) \<in> set (join_matches es). p + len \<le> n"
  by (induction es rule: join_matches.induct) auto

lemma length_join_matches: "length (join_matches es) \<le> length es"
  by (induction es rule: join_matches.induct) auto

lemma fst_join_matches: "fst ` set (join_matches es) \<subseteq> fst ` set es"
  by (induction es rule: join_matches.induct) auto

lemma sorted_join_matches:
  "sorted (map fst es) \<Longrightarrow> sorted (map fst (join_matches es))"
proof (induction es rule: join_matches.induct)
  case (1 p len q len' es)
  then show ?case using fst_join_matches [of "(q, len') # es"] by fastforce
qed simp_all

lemma ascending_fst: "match_order.ascending es \<longleftrightarrow> sorted (map fst es)"
  by (simp add: sorted_map match_compare_def) (rule arg_cong2 [where f = sorted_wrt], auto simp: fun_eq_iff)

text \<open>
  No two neighbours in the joined list are adjacent substrings of the subject.
\<close>

fun separated :: "match_element list \<Rightarrow> bool" where
  "separated (e # f # es) \<longleftrightarrow> fst e + snd e \<noteq> fst f \<and> separated (f # es)"
| "separated es \<longleftrightarrow> True"

lemma join_matches_hd: "join_matches ((p, len) # es) \<noteq> [] \<and> fst (hd (join_matches ((p, len) # es))) = p"
  by (induction "(p, len) # es" arbitrary: p len es rule: join_matches.induct) auto

lemma separated_join_matches: "separated (join_matches es)"
proof (induction es rule: join_matches.induct)
  case (1 p len q len' es)
  then show ?case
    using join_matches_hd [of q len' es] by (cases "join_matches ((q, len') # es)") auto
qed simp_all

lemma mg_match_context:
  assumes "wf_cstr pat" and "mg_match pat str mcx = (r, mcx')"
  shows "- 1 \<le> r \<and> r \<le> int (length str)"
    and "mcx' = Some m' \<Longrightarrow> sorted (map fst (matches m')) \<and> separated (matches m') \<and>
      length (matches m') \<le> MG_MATCH_CONTEXT_MAX_MATCHES \<and>
      (\<forall>(p, len) \<in> set (matches m'). p + len \<le> length str) \<and> (r < 0 \<longrightarrow> matches m' = [])"
proof -
  let ?loop = "match_alternatives_loop pat str (map_option match_context_reset mcx)"
  have ok: "context_ok str (snd ?loop)" and le: "\<And>e. fst ?loop = Some e \<Longrightarrow> e \<le> length str"
    using alternatives_ok [OF assms(1) context_ok_reset] by blast+
  show "- 1 \<le> r \<and> r \<le> int (length str)"
    using assms(2) le by (auto simp: mg_match_def mg_match_alternatives_def split: prod.splits option.splits)
  assume some: "mcx' = Some m'"
  show "sorted (map fst (matches m')) \<and> separated (matches m') \<and>
      length (matches m') \<le> MG_MATCH_CONTEXT_MAX_MATCHES \<and>
      (\<forall>(p, len) \<in> set (matches m'). p + len \<le> length str) \<and> (r < 0 \<longrightarrow> matches m' = [])"
  proof (cases "fst ?loop")
    case None
    with assms(2) some have "matches m' = []"
      by (auto simp: mg_match_def mg_match_alternatives_def match_context_reset_def split: prod.splits option.splits)
    then show ?thesis by simp
  next
    case (Some e)
    with assms(2) some obtain m where m: "snd ?loop = Some m" and r: "r = int e" and
      ms: "matches m' = join_matches (mg_sort match_compare (matches m))"
      by (auto simp: mg_match_def mg_match_alternatives_def split: prod.splits option.splits)
    have "sorted (map fst (mg_sort match_compare (matches m)))"
      using match_order.ascending_mg_sort [of "matches m"] by (simp add: ascending_fst)
    moreover have "length (matches m) \<le> MG_MATCH_CONTEXT_MAX_MATCHES"
      "\<forall>(p, len) \<in> set (mg_sort match_compare (matches m)). p + len \<le> length str"
      using ok m by (auto simp: context_ok_def)
    moreover have
      "\<forall>(p, len) \<in> set (join_matches (mg_sort match_compare (matches m))). p + len \<le> length str"
      using ok m by (intro join_matches_inside) (simp add: context_ok_def)
    ultimately show ?thesis
      using r length_join_matches [of "mg_sort match_compare (matches m)"]
      by (simp add: ms sorted_join_matches separated_join_matches)
  qed
qed

text \<open>
  Entries of a failed attempt of a star stay in the context: in \<open>*?b\<close> against \<open>acb\<close> the
  wildcards cover only \<open>ac\<close>, but the context reports one match of all three characters.
\<close>

lemmas match_eval = mg_match_impl.simps mg_match_star.simps Let_def rd_def strcspn_def push_opt_def
  match_context_push_def MG_MATCH_CONTEXT_MAX_MATCHES_def char_differs_def sensitive_def
  match_context_reset_def

lemma stale_match_entries:
  "mg_match ''*?b'' ''acb'' (Some \<lparr>case_sensitive = True, matches = []\<rparr>) =
     (3, Some \<lparr>case_sensitive = True, matches = [(0, 3)]\<rparr>)"
proof -
  have impl: "mg_match_impl ''acb'' ''*?b'' 0 (Some \<lparr>case_sensitive = True, matches = []\<rparr>) =
      (Some 3, Some \<lparr>case_sensitive = True, matches = [(2, 1), (1, 1), (0, 1)]\<rparr>)"
    by (simp add: match_eval)
  have sort: "sort_class match_compare 1 [(2, 1), (1, 1), (0, 1)] 0 = [(0, 1), (1, 1), (2, 1)]"
    by (simp add: sort_class.simps sort_shift.simps match_compare_def)
  have alternatives: "mg_match_alternatives ''*?b'' ''acb'' (Some \<lparr>case_sensitive = True, matches = []\<rparr>) =
      (Some 3, Some \<lparr>case_sensitive = True, matches = [(2, 1), (1, 1), (0, 1)]\<rparr>)"
    unfolding mg_match_alternatives_def
    by (subst match_alternatives_loop.simps) (simp add: impl match_context_reset_def)
  have sorted: "mg_sort match_compare [(2, 1), (1, 1), (0, 1)] = [(0, 1), (1, 1), (2, 1)]"
    using sort by (simp add: mg_sort_def A102549_def sort_gap_def)
  show ?thesis by (simp add: mg_match_def alternatives sorted [simplified])
qed

section \<open>Properties\<close>

text \<open>
  C4: the pattern matcher is correct and complete for the reference semantics \<open>wild\<close>: it
  finds a match exactly if there is one, the end it returns is the end of a match, and the
  optional context has no influence on whether the text matches.
\<close>

theorem mg_match_impl_refines_wild:
  "((\<exists>e. fst (mg_match_impl s pat pos mcx) = Some e) \<longleftrightarrow> (\<exists>e. wild (sensitive mcx) s pat pos e)) \<and>
   (fst (mg_match_impl s pat pos mcx) = Some e \<longrightarrow> wild (sensitive mcx) s pat pos e)"
  using mg_match_impl_iff by blast

lemma mg_match_impl_refines_wild_witness: "\<exists>e. fst (mg_match_impl ''ab'' ''?b'' 0 None) = Some e"
proof -
  have "wild (sensitive None) ''ab'' ''?b'' 0 2"
    by (simp add: wild_any_simp wild_Cons rd_def char_differs_def numeral_2_eq_2)
  then show ?thesis using mg_match_impl_refines_wild [of "''ab''" "''?b''" 0 None 0] by blast
qed

text \<open>
  C12: the matches reported in the context are in the order of their positions, do not
  touch each other, are at most \<open>MG_MATCH_CONTEXT_MAX_MATCHES\<close>, lie inside the text, and are
  cleared if nothing matched; the return value is -1 or a length inside the text.
\<close>

theorem mg_match_context_wf:
  assumes "wf_cstr pat" "mg_match pat str (Some m) = (r, Some m')"
  shows "- 1 \<le> r \<and> r \<le> int (length str) \<and> sorted (map fst (matches m')) \<and> separated (matches m') \<and>
    length (matches m') \<le> MG_MATCH_CONTEXT_MAX_MATCHES \<and>
    (\<forall>(p, len) \<in> set (matches m'). p + len \<le> length str) \<and> (r < 0 \<longrightarrow> matches m' = [])"
  using mg_match_context [OF assms] by blast

lemma mg_match_context_wf_witness:
  "\<exists>r m'. mg_match ''a*'' ''abc'' (Some \<lparr> case_sensitive = True, matches = [] \<rparr>) = (r, m') \<and> r \<le> 3"
proof -
  obtain r m' where e: "mg_match ''a*'' ''abc'' (Some \<lparr> case_sensitive = True, matches = [] \<rparr>) = (r, m')"
    by fastforce
  show ?thesis
  proof (cases m')
    case None
    then show ?thesis using e mg_match_context(1) [OF _ e] by auto
  next
    case (Some m)
    then show ?thesis using e mg_match_context_wf [of "''a*''" "''abc''" _ r m] by auto
  qed
qed

end
