(* ===== verification/Config.thy ===== *)
theory Config
  imports Civet_Prelude
begin

text \<open>
  The configuration options of \<open>src/civetweb.c\<close>: the enumeration of the options, the table
  \<open>config_options\<close> with name, type and default value, \<open>get_option_index\<close> and
  \<open>mg_get_option\<close>. Both lists are those of a Linux build with \<open>USE_WEBSOCKET\<close> and without Lua,
  Duktape, HTTP/2, timers and \<open>USE_4_CGI\<close>; the other options are behind preprocessor
  conditions. A configuration is the array \<open>config\<close> of a context: a value or NULL for each
  option.
\<close>

datatype config_opt =
    LISTENING_PORTS | NUM_THREADS | PRESPAWN_THREADS | RUN_AS_USER
  | CONFIG_TCP_NODELAY | MAX_REQUEST_SIZE | LINGER_TIMEOUT | CONNECTION_QUEUE_SIZE
  | LISTEN_BACKLOG_SIZE | ALLOW_SENDFILE_CALL | THROTTLE | ENABLE_KEEP_ALIVE
  | REQUEST_TIMEOUT | KEEP_ALIVE_TIMEOUT | WEBSOCKET_TIMEOUT | ENABLE_WEBSOCKET_PING_PONG
  | DECODE_URL | DECODE_QUERY_STRING | DOCUMENT_ROOT | FALLBACK_DOCUMENT_ROOT
  | ACCESS_LOG_FILE | ERROR_LOG_FILE | CGI_EXTENSIONS | CGI_ENVIRONMENT
  | CGI_INTERPRETER | CGI_INTERPRETER_ARGS | CGI_BUFFERING | CGI2_EXTENSIONS
  | CGI2_ENVIRONMENT | CGI2_INTERPRETER | CGI2_INTERPRETER_ARGS | CGI2_BUFFERING
  | PUT_DELETE_PASSWORDS_FILE | PROTECT_URI | AUTHENTICATION_DOMAIN | ENABLE_AUTH_DOMAIN_CHECK
  | SSI_EXTENSIONS | ENABLE_DIRECTORY_LISTING | ENABLE_WEBDAV | GLOBAL_PASSWORDS_FILE
  | INDEX_FILES | ACCESS_CONTROL_LIST | EXTRA_MIME_TYPES | SSL_CERTIFICATE
  | SSL_CERTIFICATE_CHAIN | URL_REWRITE_PATTERN | HIDE_FILES | SSL_DO_VERIFY_PEER
  | SSL_CACHE_TIMEOUT | SSL_CA_PATH | SSL_CA_FILE | SSL_VERIFY_DEPTH
  | SSL_DEFAULT_VERIFY_PATHS | SSL_CIPHER_LIST | SSL_PROTOCOL_VERSION | SSL_SHORT_TRUST
  | WEBSOCKET_ROOT | FALLBACK_WEBSOCKET_ROOT | REPLACE_ASTERISK_WITH_ORIGIN | ACCESS_CONTROL_ALLOW_ORIGIN
  | ACCESS_CONTROL_ALLOW_METHODS | ACCESS_CONTROL_ALLOW_HEADERS | ACCESS_CONTROL_EXPOSE_HEADERS | ACCESS_CONTROL_ALLOW_CREDENTIALS
  | ERROR_PAGES | STATIC_FILE_MAX_AGE | STATIC_FILE_CACHE_CONTROL | STRICT_HTTPS_MAX_AGE
  | ADDITIONAL_HEADER | ALLOW_INDEX_SCRIPT_SUB_RES

datatype config_type =
    MG_CONFIG_TYPE_UNKNOWN | MG_CONFIG_TYPE_NUMBER | MG_CONFIG_TYPE_STRING | MG_CONFIG_TYPE_FILE
  | MG_CONFIG_TYPE_DIRECTORY | MG_CONFIG_TYPE_BOOLEAN | MG_CONFIG_TYPE_EXT_PATTERN
  | MG_CONFIG_TYPE_STRING_LIST | MG_CONFIG_TYPE_STRING_MULTILINE | MG_CONFIG_TYPE_YES_NO_OPTIONAL

type_synonym config = "config_opt \<Rightarrow> string option"

text \<open>The rows once for each server and the CGI rows, and the remaining rows of a domain.\<close>

definition config_options_server :: "(config_opt \<times> string \<times> config_type \<times> string option) list" where
  "config_options_server = [
     (LISTENING_PORTS, ''listening_ports'', MG_CONFIG_TYPE_STRING_LIST, Some ''8080''),
     (NUM_THREADS, ''num_threads'', MG_CONFIG_TYPE_NUMBER, Some ''50''),
     (PRESPAWN_THREADS, ''prespawn_threads'', MG_CONFIG_TYPE_NUMBER, Some ''0''),
     (RUN_AS_USER, ''run_as_user'', MG_CONFIG_TYPE_STRING, None),
     (CONFIG_TCP_NODELAY, ''tcp_nodelay'', MG_CONFIG_TYPE_NUMBER, Some ''0''),
     (MAX_REQUEST_SIZE, ''max_request_size'', MG_CONFIG_TYPE_NUMBER, Some ''16384''),
     (LINGER_TIMEOUT, ''linger_timeout_ms'', MG_CONFIG_TYPE_NUMBER, None),
     (CONNECTION_QUEUE_SIZE, ''connection_queue'', MG_CONFIG_TYPE_NUMBER, Some ''20''),
     (LISTEN_BACKLOG_SIZE, ''listen_backlog'', MG_CONFIG_TYPE_NUMBER, Some ''200''),
     (ALLOW_SENDFILE_CALL, ''allow_sendfile_call'', MG_CONFIG_TYPE_BOOLEAN, Some ''yes''),
     (THROTTLE, ''throttle'', MG_CONFIG_TYPE_STRING_LIST, None),
     (ENABLE_KEEP_ALIVE, ''enable_keep_alive'', MG_CONFIG_TYPE_BOOLEAN, Some ''no''),
     (REQUEST_TIMEOUT, ''request_timeout_ms'', MG_CONFIG_TYPE_NUMBER, Some ''30000''),
     (KEEP_ALIVE_TIMEOUT, ''keep_alive_timeout_ms'', MG_CONFIG_TYPE_NUMBER, Some ''500''),
     (WEBSOCKET_TIMEOUT, ''websocket_timeout_ms'', MG_CONFIG_TYPE_NUMBER, None),
     (ENABLE_WEBSOCKET_PING_PONG, ''enable_websocket_ping_pong'', MG_CONFIG_TYPE_BOOLEAN, Some ''no''),
     (DECODE_URL, ''decode_url'', MG_CONFIG_TYPE_BOOLEAN, Some ''yes''),
     (DECODE_QUERY_STRING, ''decode_query_string'', MG_CONFIG_TYPE_BOOLEAN, Some ''no''),
     (DOCUMENT_ROOT, ''document_root'', MG_CONFIG_TYPE_DIRECTORY, None),
     (FALLBACK_DOCUMENT_ROOT, ''fallback_document_root'', MG_CONFIG_TYPE_DIRECTORY, None),
     (ACCESS_LOG_FILE, ''access_log_file'', MG_CONFIG_TYPE_FILE, None),
     (ERROR_LOG_FILE, ''error_log_file'', MG_CONFIG_TYPE_FILE, None),
     (CGI_EXTENSIONS, ''cgi_pattern'', MG_CONFIG_TYPE_EXT_PATTERN, Some ''**.cgi$|**.pl$|**.php$''),
     (CGI_ENVIRONMENT, ''cgi_environment'', MG_CONFIG_TYPE_STRING_LIST, None),
     (CGI_INTERPRETER, ''cgi_interpreter'', MG_CONFIG_TYPE_FILE, None),
     (CGI_INTERPRETER_ARGS, ''cgi_interpreter_args'', MG_CONFIG_TYPE_STRING, None),
     (CGI_BUFFERING, ''cgi_buffering'', MG_CONFIG_TYPE_BOOLEAN, Some ''yes''),
     (CGI2_EXTENSIONS, ''cgi2_pattern'', MG_CONFIG_TYPE_EXT_PATTERN, None),
     (CGI2_ENVIRONMENT, ''cgi2_environment'', MG_CONFIG_TYPE_STRING_LIST, None),
     (CGI2_INTERPRETER, ''cgi2_interpreter'', MG_CONFIG_TYPE_FILE, None),
     (CGI2_INTERPRETER_ARGS, ''cgi2_interpreter_args'', MG_CONFIG_TYPE_STRING, None),
     (CGI2_BUFFERING, ''cgi2_buffering'', MG_CONFIG_TYPE_BOOLEAN, Some ''yes'')]"

definition config_options_domain :: "(config_opt \<times> string \<times> config_type \<times> string option) list" where
  "config_options_domain = [
     (PUT_DELETE_PASSWORDS_FILE, ''put_delete_auth_file'', MG_CONFIG_TYPE_FILE, None),
     (PROTECT_URI, ''protect_uri'', MG_CONFIG_TYPE_STRING_LIST, None),
     (AUTHENTICATION_DOMAIN, ''authentication_domain'', MG_CONFIG_TYPE_STRING, Some ''mydomain.com''),
     (ENABLE_AUTH_DOMAIN_CHECK, ''enable_auth_domain_check'', MG_CONFIG_TYPE_BOOLEAN, Some ''yes''),
     (SSI_EXTENSIONS, ''ssi_pattern'', MG_CONFIG_TYPE_EXT_PATTERN, Some ''**.shtml$|**.shtm$''),
     (ENABLE_DIRECTORY_LISTING, ''enable_directory_listing'', MG_CONFIG_TYPE_BOOLEAN, Some ''yes''),
     (ENABLE_WEBDAV, ''enable_webdav'', MG_CONFIG_TYPE_BOOLEAN, Some ''no''),
     (GLOBAL_PASSWORDS_FILE, ''global_auth_file'', MG_CONFIG_TYPE_FILE, None),
     (INDEX_FILES, ''index_files'', MG_CONFIG_TYPE_STRING_LIST, Some ''index.xhtml,index.html,index.htm,index.cgi,index.shtml,index.php''),
     (ACCESS_CONTROL_LIST, ''access_control_list'', MG_CONFIG_TYPE_STRING_LIST, None),
     (EXTRA_MIME_TYPES, ''extra_mime_types'', MG_CONFIG_TYPE_STRING_LIST, None),
     (SSL_CERTIFICATE, ''ssl_certificate'', MG_CONFIG_TYPE_FILE, None),
     (SSL_CERTIFICATE_CHAIN, ''ssl_certificate_chain'', MG_CONFIG_TYPE_FILE, None),
     (URL_REWRITE_PATTERN, ''url_rewrite_patterns'', MG_CONFIG_TYPE_STRING_LIST, None),
     (HIDE_FILES, ''hide_files_patterns'', MG_CONFIG_TYPE_EXT_PATTERN, None),
     (SSL_DO_VERIFY_PEER, ''ssl_verify_peer'', MG_CONFIG_TYPE_YES_NO_OPTIONAL, Some ''no''),
     (SSL_CACHE_TIMEOUT, ''ssl_cache_timeout'', MG_CONFIG_TYPE_NUMBER, Some ''-1''),
     (SSL_CA_PATH, ''ssl_ca_path'', MG_CONFIG_TYPE_DIRECTORY, None),
     (SSL_CA_FILE, ''ssl_ca_file'', MG_CONFIG_TYPE_FILE, None),
     (SSL_VERIFY_DEPTH, ''ssl_verify_depth'', MG_CONFIG_TYPE_NUMBER, Some ''9''),
     (SSL_DEFAULT_VERIFY_PATHS, ''ssl_default_verify_paths'', MG_CONFIG_TYPE_BOOLEAN, Some ''yes''),
     (SSL_CIPHER_LIST, ''ssl_cipher_list'', MG_CONFIG_TYPE_STRING, None),
     (SSL_PROTOCOL_VERSION, ''ssl_protocol_version'', MG_CONFIG_TYPE_NUMBER, Some ''4''),
     (SSL_SHORT_TRUST, ''ssl_short_trust'', MG_CONFIG_TYPE_BOOLEAN, Some ''no''),
     (WEBSOCKET_ROOT, ''websocket_root'', MG_CONFIG_TYPE_DIRECTORY, None),
     (FALLBACK_WEBSOCKET_ROOT, ''fallback_websocket_root'', MG_CONFIG_TYPE_DIRECTORY, None),
     (REPLACE_ASTERISK_WITH_ORIGIN, ''replace_asterisk_with_origin'', MG_CONFIG_TYPE_BOOLEAN, Some ''no''),
     (ACCESS_CONTROL_ALLOW_ORIGIN, ''access_control_allow_origin'', MG_CONFIG_TYPE_STRING, Some ''*''),
     (ACCESS_CONTROL_ALLOW_METHODS, ''access_control_allow_methods'', MG_CONFIG_TYPE_STRING, Some ''*''),
     (ACCESS_CONTROL_ALLOW_HEADERS, ''access_control_allow_headers'', MG_CONFIG_TYPE_STRING, Some ''*''),
     (ACCESS_CONTROL_EXPOSE_HEADERS, ''access_control_expose_headers'', MG_CONFIG_TYPE_STRING, Some ''''),
     (ACCESS_CONTROL_ALLOW_CREDENTIALS, ''access_control_allow_credentials'', MG_CONFIG_TYPE_STRING, Some ''''),
     (ERROR_PAGES, ''error_pages'', MG_CONFIG_TYPE_DIRECTORY, None),
     (STATIC_FILE_MAX_AGE, ''static_file_max_age'', MG_CONFIG_TYPE_NUMBER, Some ''3600''),
     (STATIC_FILE_CACHE_CONTROL, ''static_file_cache_control'', MG_CONFIG_TYPE_STRING, None),
     (STRICT_HTTPS_MAX_AGE, ''strict_transport_security_max_age'', MG_CONFIG_TYPE_NUMBER, None),
     (ADDITIONAL_HEADER, ''additional_header'', MG_CONFIG_TYPE_STRING_MULTILINE, None),
     (ALLOW_INDEX_SCRIPT_SUB_RES, ''allow_index_script_resource'', MG_CONFIG_TYPE_BOOLEAN, Some ''no'')]"

definition config_options :: "(config_opt \<times> string \<times> config_type \<times> string option) list" where
  "config_options = config_options_server @ config_options_domain"

fun option_index_from :: "nat \<Rightarrow> (config_opt \<times> string \<times> config_type \<times> string option) list \<Rightarrow> string \<Rightarrow> int" where
  "option_index_from i [] name = -1"
| "option_index_from i ((_, n, _) # rows) name =
     (if n = name then int i else option_index_from (Suc i) rows name)"

definition get_option_index :: "string \<Rightarrow> int" where
  "get_option_index name = option_index_from 0 config_options name"

definition mg_get_option :: "config option \<Rightarrow> string \<Rightarrow> string option" where
  "mg_get_option ctx name =
     (let i = get_option_index name in
      if i = -1 then None
      else case ctx of
             None \<Rightarrow> Some []
           | Some cfg \<Rightarrow>
               (case cfg (fst (config_options ! nat i)) of None \<Rightarrow> Some [] | Some v \<Rightarrow> Some v))"

text \<open>The values a context starts with: the defaults of the table.\<close>

definition default_config :: config where
  "default_config opt =
     (case find (\<lambda>row. fst row = opt) config_options of None \<Rightarrow> None | Some (_, _, _, d) \<Rightarrow> d)"

section \<open>The table\<close>

definition option_names :: "string list" where
  "option_names = map (\<lambda>(_, n, _). n) config_options"

lemma distinct_option_names: "distinct option_names"
  by code_simp

text \<open>Every enumerator has a row, and only one.\<close>

lemma config_options_distinct: "distinct (map fst config_options)"
  by code_simp

lemma config_options_complete: "opt \<in> set (map fst config_options)"
  by (cases opt) (simp_all add: config_options_def config_options_server_def config_options_domain_def)

lemma option_index_from_nth:
  "distinct (map (\<lambda>(_, n, _). n) rows) \<Longrightarrow> i < length rows \<Longrightarrow>
   option_index_from k rows (fst (snd (rows ! i))) = int (k + i)"
proof (induction rows arbitrary: i k)
  case (Cons row rows)
  then show ?case
  proof (cases i)
    case (Suc j)
    with Cons.prems have "fst (snd row) \<noteq> fst (snd (rows ! j))"
      using nth_mem [of j rows] by (force simp: split_def)
    with Cons Suc show ?thesis by (cases row) auto
  qed (cases row, simp)
qed simp

lemma option_index_from_unknown:
  "name \<notin> set (map (\<lambda>(_, n, _). n) rows) \<Longrightarrow> option_index_from k rows name = -1"
  by (induction rows arbitrary: k) auto

lemma get_option_index_nth:
  "i < length config_options \<Longrightarrow> get_option_index (option_names ! i) = int i"
  using option_index_from_nth [of config_options i 0] distinct_option_names
  by (simp add: get_option_index_def option_names_def split_def)

lemma get_option_index_unknown: "name \<notin> set option_names \<Longrightarrow> get_option_index name = -1"
  by (simp add: get_option_index_def option_names_def option_index_from_unknown)

text \<open>Reading a known option gives the configured value, or the empty string.\<close>

lemma mg_get_option_known:
  assumes "i < length config_options"
  shows "mg_get_option (Some cfg) (option_names ! i) =
    Some (case cfg (fst (config_options ! i)) of None \<Rightarrow> [] | Some v \<Rightarrow> v)"
  using get_option_index_nth [OF assms] by (simp add: mg_get_option_def split: option.splits)

lemma mg_get_option_unknown: "name \<notin> set option_names \<Longrightarrow> mg_get_option ctx name = None"
  by (simp add: mg_get_option_def get_option_index_unknown)

section \<open>Properties\<close>

text \<open>
  Looking an option up by its name gives the value of that very option of the table, the
  empty string for a NULL value, and NULL for a name the table does not have.
\<close>

lemma mg_get_option_lookup:
  "mg_get_option (Some cfg) name =
     (if name \<in> set option_names
      then Some (case cfg (fst (config_options ! nat (get_option_index name))) of None \<Rightarrow> [] | Some v \<Rightarrow> v)
      else None)"
proof (cases "name \<in> set option_names")
  case True
  then obtain i where i: "i < length option_names" "name = option_names ! i" by (metis in_set_conv_nth)
  then show ?thesis using mg_get_option_known [of i cfg] get_option_index_nth [of i] True
    by (simp add: option_names_def)
qed (simp add: mg_get_option_unknown)

end
