(* ===== verification/Connection.thy ===== *)
theory Connection
  imports C_Strings C_Numbers Config
begin

text \<open>
  The connection state of \<open>src/civetweb.c\<close> (\<open>struct mg_connection\<close>, with
  \<open>struct mg_request_info\<close> and \<open>struct mg_response_info\<close> of \<open>include/civetweb.h\<close>) and the
  socket layer below it: \<open>push_inner\<close>, \<open>push_all\<close>, \<open>pull_inner\<close>, \<open>pull_all\<close> and
  \<open>mg_write\<close> with its throttling. The peer and the operating system are the two scripts of
  events in the connection: what each \<open>send\<close> and each \<open>poll\<close>/\<open>recv\<close> is going to answer. All
  theorems hold for every script. TLS is not modelled: \<open>ssl\<close> is NULL.
\<close>

section \<open>State\<close>

record mg_header =
  hdr_name :: string
  hdr_value :: string

datatype connection_type = CONNECTION_TYPE_INVALID | CONNECTION_TYPE_REQUEST | CONNECTION_TYPE_RESPONSE

datatype protocol_type = PROTOCOL_TYPE_HTTP1 | PROTOCOL_TYPE_WEBSOCKET | PROTOCOL_TYPE_HTTP2

record mg_request_info =
  request_method :: "string option"
  request_uri :: "string option"
  local_uri_raw :: "string option"
  local_uri :: "string option"
  http_version :: "string option"
  query_string :: "string option"
  remote_user :: "string option"
  remote_addr :: string
  server_addr :: string
  server_port :: nat
  is_ssl :: bool
  http_headers :: "mg_header list"

record mg_response_info =
  rsp_status_code :: int
  status_text :: "string option"
  rsp_http_version :: "string option"
  rsp_headers :: "mg_header list"

text \<open>
  What the next call of \<open>send\<close> does: accept bytes, ask to try again, run into the time
  limit, fail, or accept bytes while the server is being stopped. What the next \<open>poll\<close> with
  its \<open>recv\<close> does: deliver bytes, run into the time limit of the poll after so many
  nanoseconds since the read began, fail, or see the server being stopped; \<open>Recv_Late\<close> delivers
  bytes, but the server is being stopped by the time \<open>recv\<close> returns.
\<close>

datatype send_event = Send_Bytes nat | Send_Timeout | Send_Failed | Send_Stop nat
datatype recv_event = Recv string | Poll_Timeout nat | Recv_Failed | Recv_Stop | Recv_Late string

record mg_connection =
  connection_type :: connection_type
  protocol_type :: protocol_type
  request_state :: nat
  request_info :: mg_request_info
  response_info :: mg_response_info
  dom_ctx :: "config option"
  stop_flag :: bool
  num_bytes_sent :: int
  content_len :: int
  consumed_content :: int
  is_chunked :: nat
  conn_buf :: string
  request_len :: nat
  must_close :: bool
  accept_gzip :: bool
  in_error_handler :: bool
  status_code :: int
  throttle :: int
  last_throttle_time :: int
  last_throttle_bytes :: int
  wall_clock :: int
  send_script :: "send_event list"
  recv_script :: "recv_event list"
  wire :: string

definition conf :: "mg_connection \<Rightarrow> config_opt \<Rightarrow> string option" where
  "conf conn opt = (case dom_ctx conn of None \<Rightarrow> None | Some cfg \<Rightarrow> cfg opt)"

text \<open>An option compared with a word; the options so compared have a default, so are not NULL.\<close>

definition conf_is :: "mg_connection \<Rightarrow> config_opt \<Rightarrow> string \<Rightarrow> bool" where
  "conf_is conn opt v = (case conf conn opt of None \<Rightarrow> False | Some s \<Rightarrow> mg_strcasecmp s v = 0)"

section \<open>Sending\<close>

text \<open>The result of \<open>push_inner\<close>: the return value, the bytes that left, stopped, the script.\<close>

fun push_inner :: "send_event list \<Rightarrow> nat \<Rightarrow> int \<times> nat \<times> bool \<times> send_event list" where
  "push_inner [] len = (-2, 0, False, [])"
| "push_inner (Send_Bytes n # es) len =
     (if min n len > 0 \<or> len = 0 then (int (min n len), min n len, False, es) else push_inner es len)"
| "push_inner (Send_Timeout # es) len = (-1, 0, False, es)"
| "push_inner (Send_Failed # es) len = (-2, 0, False, es)"
| "push_inner (Send_Stop n # es) len = (-2, min n len, True, es)"

definition push_step :: "mg_connection \<Rightarrow> string \<Rightarrow> int \<times> mg_connection" where
  "push_step conn data =
     (case push_inner (send_script conn) (length data) of
        (n, k, st, es) \<Rightarrow>
          (n, conn\<lparr> send_script := es, stop_flag := stop_flag conn \<or> st, wire := wire conn @ take k data \<rparr>))"

function push_loop :: "mg_connection \<Rightarrow> string \<Rightarrow> int \<Rightarrow> int \<times> mg_connection" where
  "push_loop conn data nwritten =
     (if data \<noteq> [] \<and> \<not> stop_flag conn
      then case push_step conn data of
             (n, conn') \<Rightarrow>
               if n < 0 then (if nwritten = 0 then -1 else nwritten, conn')
               else if n = 0 then (nwritten, conn')
               else push_loop conn' (drop (nat n) data) (nwritten + n)
      else (nwritten, conn))"
  by pat_completeness auto
termination
  by (relation "measure (\<lambda>(conn, data, nwritten). length data)") auto

declare push_loop.simps [simp del]

definition push_all :: "mg_connection \<Rightarrow> string \<Rightarrow> int \<times> mg_connection" where
  "push_all conn data = push_loop conn data 0"

text \<open>
  The loop of \<open>mg_write\<close> after the first throttled block: one block of at most
  \<open>throttle\<close> bytes, then \<open>sleep(1)\<close>. It is reached with \<open>throttle > 0\<close> only.
\<close>

function throttle_loop :: "mg_connection \<Rightarrow> string \<Rightarrow> int \<Rightarrow> int \<times> mg_connection" where
  "throttle_loop conn data sent =
     (if data \<noteq> [] \<and> \<not> stop_flag conn \<and> throttle conn > 0
      then let allowed = (if throttle conn > int (length data) then int (length data) else throttle conn)
           in case push_all conn (take (nat allowed) data) of
                (n, conn1) \<Rightarrow>
                  if n \<noteq> allowed then (sent, conn1)
                  else throttle_loop
                         (conn1\<lparr> wall_clock := wall_clock conn1 + 1, last_throttle_bytes := allowed,
                                 last_throttle_time := wall_clock conn1 + 1 \<rparr>)
                         (drop (nat n) data) (sent + n)
      else (sent, conn))"
  by pat_completeness auto
termination
  by (relation "measure (\<lambda>(conn, data, sent). length data)") (auto split: if_splits)

declare throttle_loop.simps [simp del]

definition INT_MAX :: int where "INT_MAX = 2147483647"

text \<open>The first throttled block: what is left of the current second; then the loop.\<close>

definition throttle_start :: "mg_connection \<Rightarrow> mg_connection" where
  "throttle_start conn =
     (if wall_clock conn \<noteq> last_throttle_time conn
      then conn\<lparr> last_throttle_time := wall_clock conn, last_throttle_bytes := 0 \<rparr> else conn)"

definition throttled_write :: "mg_connection \<Rightarrow> string \<Rightarrow> int \<times> mg_connection" where
  "throttled_write conn0 data =
     (let conn = throttle_start conn0;
          left = throttle conn - last_throttle_bytes conn;
          allowed = (if left > int (length data) then int (length data) else left)
      in case push_all conn (take (nat allowed) data) of
           (sent, conn') \<Rightarrow>
             if sent = allowed
             then throttle_loop (conn'\<lparr> last_throttle_bytes := last_throttle_bytes conn' + sent \<rparr>)
                    (drop (nat sent) data) sent
             else (sent, conn'))"

definition mg_write :: "mg_connection \<Rightarrow> string \<Rightarrow> int \<times> mg_connection" where
  "mg_write conn0 data =
     (if int (length data) > INT_MAX then (-1, conn0)
      else let conn = conn0\<lparr> request_state := 10 \<rparr>
           in case (if throttle conn > 0 then throttled_write conn data else push_all conn data) of
                (sent, conn') \<Rightarrow>
                  (sent, if sent > 0 then conn'\<lparr> num_bytes_sent := num_bytes_sent conn' + sent \<rparr> else conn'))"

text \<open>\<open>mg_printf\<close> of a formatted text (\<open>mg_vprintf\<close>): the empty text is not written.\<close>

definition mg_printf :: "mg_connection \<Rightarrow> string \<Rightarrow> int \<times> mg_connection" where
  "mg_printf conn txt = (if txt \<noteq> [] then mg_write conn txt else (0, conn))"

section \<open>Receiving\<close>

text \<open>
  The result of \<open>pull_inner\<close>: the return value, the bytes read, the connection. A \<open>recv\<close> of no
  bytes returns 0, which the code takes for the end of the connection. The stop flag is tested once
  more behind \<open>recv\<close>: then the bytes just received are dropped.
\<close>

fun pull_inner :: "recv_event list \<Rightarrow> nat \<Rightarrow> int \<times> string \<times> bool \<times> recv_event list" where
  "pull_inner [] len = (-2, [], False, [])"
| "pull_inner (Recv s # es) len =
     (if s = [] then (-2, [], False, es)
      else if len = 0 then (-2, [], False, Recv s # es)
      else (int (min len (length s)), take len s, False,
            if len < length s then Recv (drop len s) # es else es))"
| "pull_inner (Poll_Timeout t # es) len = (if len = 0 then 0 else -1, [], False, es)"
| "pull_inner (Recv_Failed # es) len = (-2, [], False, es)"
| "pull_inner (Recv_Stop # es) len = (-2, [], True, es)"
| "pull_inner (Recv_Late s # es) len = (-2, [], True, if len < length s then Recv (drop len s) # es else es)"

text \<open>The request timeout in milliseconds: \<open>request_timeout_ms\<close>, or its default if not positive.\<close>

definition request_timeout :: "mg_connection \<Rightarrow> nat" where
  "request_timeout conn =
     (case conf conn REQUEST_TIMEOUT of
        None \<Rightarrow> 30000
      | Some v \<Rightarrow> if atoi v \<le> 0 then 30000 else nat (atoi v))"

text \<open>The time of the poll that timed out, the first event of the script.\<close>

definition elapsed :: "mg_connection \<Rightarrow> nat" where
  "elapsed conn = (case recv_script conn of Poll_Timeout t # _ \<Rightarrow> t | _ \<Rightarrow> 0)"

definition pull_step :: "mg_connection \<Rightarrow> nat \<Rightarrow> int \<times> string \<times> mg_connection" where
  "pull_step conn len =
     (if stop_flag conn then (-2, [], conn)
      else case pull_inner (recv_script conn) len of
        (n, d, st, es) \<Rightarrow> (n, d, conn\<lparr> recv_script := es, stop_flag := stop_flag conn \<or> st \<rparr>))"

lemma pull_step_timeout:
  "pull_step conn len = (-1, d, conn') \<Longrightarrow> length (recv_script conn') < length (recv_script conn)"
  by (cases "(recv_script conn, len)" rule: pull_inner.cases) (auto simp: pull_step_def split: if_splits)

lemma pull_step_ge: "(n, d, conn') = pull_step conn len \<Longrightarrow> n \<ge> -2"
  by (cases "(recv_script conn, len)" rule: pull_inner.cases) (auto simp: pull_step_def split: if_splits)

function pull_loop :: "mg_connection \<Rightarrow> nat \<Rightarrow> string \<Rightarrow> int \<times> string \<times> mg_connection" where
  "pull_loop conn len data =
     (if len > 0 \<and> \<not> stop_flag conn
      then case pull_step conn len of
             (n, d, conn') \<Rightarrow>
               if n = -2 then (if data = [] then -1 else int (length data), data, conn')
               else if n = -1
               then (if elapsed conn \<le> request_timeout conn * 1000000
                     then pull_loop conn' len data
                     else (int (length data), data, conn'))
               else if n = 0 then (int (length data), data, conn')
               else pull_loop conn' (len - nat n) (data @ d)
      else (int (length data), data, conn))"
  by pat_completeness auto
termination
  by (relation "measures [\<lambda>(conn, len, data). len, \<lambda>(conn, len, data). length (recv_script conn)]")
     (auto dest: pull_step_timeout [OF sym] pull_step_ge)

declare pull_loop.simps [simp del]

definition pull_all :: "mg_connection \<Rightarrow> nat \<Rightarrow> int \<times> string \<times> mg_connection" where
  "pull_all conn len = pull_loop conn len []"

section \<open>What the socket layer changes\<close>

text \<open>The fields the socket layer may change are cleared; all others must agree.\<close>

definition io_clear :: "mg_connection \<Rightarrow> mg_connection" where
  "io_clear conn = conn\<lparr> request_state := 0, stop_flag := False, num_bytes_sent := 0,
     last_throttle_time := 0, last_throttle_bytes := 0, wall_clock := 0,
     send_script := [], recv_script := [], wire := [] \<rparr>"

definition io_only :: "mg_connection \<Rightarrow> mg_connection \<Rightarrow> bool" where
  "io_only conn conn' \<longleftrightarrow> io_clear conn' = io_clear conn"

lemma io_only_refl [simp]: "io_only conn conn"
  by (simp add: io_only_def)

lemma io_only_trans: "io_only a b \<Longrightarrow> io_only b c \<Longrightarrow> io_only a c"
  by (simp add: io_only_def)

lemma io_only_update [simp]:
  "io_only a (b\<lparr> request_state := rs \<rparr>) = io_only a b"
  "io_only a (b\<lparr> stop_flag := st \<rparr>) = io_only a b"
  "io_only a (b\<lparr> num_bytes_sent := nb \<rparr>) = io_only a b"
  "io_only a (b\<lparr> last_throttle_time := lt \<rparr>) = io_only a b"
  "io_only a (b\<lparr> last_throttle_bytes := lb \<rparr>) = io_only a b"
  "io_only a (b\<lparr> wall_clock := wc \<rparr>) = io_only a b"
  "io_only a (b\<lparr> send_script := ss \<rparr>) = io_only a b"
  "io_only a (b\<lparr> recv_script := rc \<rparr>) = io_only a b"
  "io_only a (b\<lparr> wire := w \<rparr>) = io_only a b"
  by (simp_all add: io_only_def io_clear_def)

lemma io_clear_fields [simp]:
  "connection_type (io_clear c) = connection_type c"
  "protocol_type (io_clear c) = protocol_type c"
  "request_info (io_clear c) = request_info c"
  "response_info (io_clear c) = response_info c"
  "dom_ctx (io_clear c) = dom_ctx c"
  "content_len (io_clear c) = content_len c"
  "consumed_content (io_clear c) = consumed_content c"
  "is_chunked (io_clear c) = is_chunked c"
  "conn_buf (io_clear c) = conn_buf c"
  "request_len (io_clear c) = request_len c"
  "must_close (io_clear c) = must_close c"
  "accept_gzip (io_clear c) = accept_gzip c"
  "in_error_handler (io_clear c) = in_error_handler c"
  "status_code (io_clear c) = status_code c"
  "throttle (io_clear c) = throttle c"
  by (simp_all add: io_clear_def)

lemma io_only_fields:
  assumes "io_only a b"
  shows "connection_type b = connection_type a"
    "protocol_type b = protocol_type a"
    "request_info b = request_info a"
    "response_info b = response_info a"
    "dom_ctx b = dom_ctx a"
    "content_len b = content_len a"
    "consumed_content b = consumed_content a"
    "is_chunked b = is_chunked a"
    "conn_buf b = conn_buf a"
    "request_len b = request_len a"
    "must_close b = must_close a"
    "accept_gzip b = accept_gzip a"
    "in_error_handler b = in_error_handler a"
    "status_code b = status_code a"
    "throttle b = throttle a"
  using assms unfolding io_only_def
  by (metis io_clear_fields)+

section \<open>Sending delivers a prefix\<close>

text \<open>
  A send of \<open>data\<close> that returned \<open>n\<close>: some prefix of the data is on the wire, at least the
  \<open>n\<close> bytes reported, and exactly those unless the server is being stopped.
\<close>

definition delivered :: "mg_connection \<Rightarrow> string \<Rightarrow> int \<Rightarrow> mg_connection \<Rightarrow> bool" where
  "delivered conn data n conn' \<longleftrightarrow>
     io_only conn conn' \<and> recv_script conn' = recv_script conn \<and> (stop_flag conn \<longrightarrow> stop_flag conn') \<and>
     (\<exists>m. m \<le> length data \<and> n \<le> int m \<and> wire conn' = wire conn @ take m data \<and>
          (\<not> stop_flag conn' \<longrightarrow> m = nat n))"

lemma push_inner_bounds:
  "push_inner es len = (n, k, st, es') \<Longrightarrow> k \<le> len \<and> -2 \<le> n \<and> n \<le> int k \<and> (\<not> st \<longrightarrow> k = nat n)"
  by (induction es len rule: push_inner.induct) (auto split: if_splits)

lemma push_inner_running: "push_inner es len = (n, k, st, es') \<Longrightarrow> 0 \<le> n \<Longrightarrow> \<not> st"
  by (induction es len rule: push_inner.induct) (auto split: if_splits)

lemma push_step_delivered: "push_step conn data = (n, conn') \<Longrightarrow> delivered conn data n conn'"
  using push_inner_bounds [of "send_script conn" "length data"]
  by (auto simp: push_step_def delivered_def split: prod.splits)

lemma delivered_trans:
  assumes d1: "delivered c data n c1" and n: "0 \<le> n" "\<not> stop_flag c1"
    and d2: "delivered c1 (drop (nat n) data) k c2" and k: "0 \<le> k"
  shows "delivered c data (n + k) c2"
proof -
  have w1: "wire c1 = wire c @ take (nat n) data" and le: "nat n \<le> length data"
    using d1 n by (auto simp: delivered_def)
  obtain m where m: "m \<le> length (drop (nat n) data)" "k \<le> int m"
    "wire c2 = wire c1 @ take m (drop (nat n) data)" "\<not> stop_flag c2 \<longrightarrow> m = nat k"
    using d2 by (auto simp: delivered_def)
  have "wire c2 = wire c @ take (nat n + m) data"
    using m(3) w1 by (simp add: take_add)
  moreover have "nat n + m \<le> length data" using m(1) le by auto
  moreover have "n + k \<le> int (nat n + m)" using m(2) n by simp
  moreover have "\<not> stop_flag c2 \<longrightarrow> nat n + m = nat (n + k)" using m(4) n k by (simp add: nat_add_distrib)
  ultimately show ?thesis using d1 d2 unfolding delivered_def by (metis io_only_trans)
qed

lemma delivered_none: "delivered c data 0 c"
  by (auto simp: delivered_def)

lemma push_step_running: "push_step conn data = (n, conn') \<Longrightarrow> 0 \<le> n \<Longrightarrow> stop_flag conn' = stop_flag conn"
  by (auto simp: push_step_def split: prod.splits dest: push_inner_running)

lemma push_loop_delivered:
  "push_loop conn data nw = (n, conn') \<Longrightarrow> 0 \<le> nw \<Longrightarrow>
     delivered conn data (n - nw) conn' \<and> (nw \<le> n \<or> nw = 0 \<and> n = -1)"
proof (induction conn data nw arbitrary: n conn' rule: push_loop.induct)
  case (1 conn data nw)
  obtain n1 conn1 where step: "push_step conn data = (n1, conn1)" by fastforce
  note d1 = push_step_delivered [OF step]
  consider "data = [] \<or> stop_flag conn" | "data \<noteq> []" "\<not> stop_flag conn" "n1 \<le> 0"
    | "data \<noteq> []" "\<not> stop_flag conn" "0 < n1" by linarith
  then show ?case
  proof cases
    case 1
    then show ?thesis using "1.prems" delivered_none by (subst (asm) push_loop.simps) auto
  next
    case 2
    have "n = (if n1 < 0 \<and> nw = 0 then -1 else nw)" "conn' = conn1"
      using "1.prems" 2 step by (subst (asm) push_loop.simps; auto split: if_splits)+
    moreover have "delivered conn data m conn1" if "m = 0 \<and> 0 < nw \<or> m = 0 \<and> n1 = 0 \<or> m = -1 \<and> n1 < 0" for m
      using d1 2 that by (auto simp: delivered_def)
    ultimately show ?thesis using "1.prems" 2 by auto
  next
    case 3
    have run: "push_loop conn1 (drop (nat n1) data) (nw + n1) = (n, conn')"
      using "1.prems" 3 step by (subst (asm) push_loop.simps) auto
    from "1.IH" [OF _ step [symmetric] _ _ run] 3 "1.prems"
    have "delivered conn1 (drop (nat n1) data) (n - (nw + n1)) conn'" "nw + n1 \<le> n"
      by auto
    then show ?thesis
      using delivered_trans [OF d1, of "n - (nw + n1)" conn'] push_step_running [OF step] 3 by auto
  qed
qed

text \<open>
  The throttled loop: a block that is sent in part ends the loop and is not counted, so the
  result can be less than the number of bytes on the wire. It never is more.
\<close>

definition sends :: "mg_connection \<Rightarrow> string \<Rightarrow> int \<Rightarrow> mg_connection \<Rightarrow> bool" where
  "sends conn data n conn' \<longleftrightarrow>
     io_only conn conn' \<and> recv_script conn' = recv_script conn \<and> (stop_flag conn \<longrightarrow> stop_flag conn') \<and>
     (\<exists>m. m \<le> length data \<and> n \<le> int m \<and> wire conn' = wire conn @ take m data)"

lemma delivered_sends: "delivered conn data n conn' \<Longrightarrow> sends conn data n conn'"
  by (auto simp: delivered_def sends_def)

lemma sends_refl: "n \<le> 0 \<Longrightarrow> sends conn data n conn"
  by (auto simp: sends_def)

lemma sends_take:
  assumes "sends conn (take k data) n conn'" shows "sends conn data n conn'"
proof -
  obtain m where m: "m \<le> length (take k data)" "n \<le> int m" "wire conn' = wire conn @ take m (take k data)"
    using assms by (auto simp: sends_def)
  then have "m \<le> length data" "wire conn' = wire conn @ take m data"
    by (auto simp: min_absorb1)
  then show ?thesis using assms m(2) unfolding sends_def by blast
qed

lemma sends_weaken: "sends conn data n conn' \<Longrightarrow> k \<le> n \<Longrightarrow> sends conn data k conn'"
  unfolding sends_def by (meson order_trans)

lemma sends_trans:
  assumes d1: "sends c data n c1" and n: "0 \<le> n" "wire c1 = wire c @ take (nat n) data" "nat n \<le> length data"
    and d2: "sends c1 (drop (nat n) data) k c2"
  shows "sends c data (n + k) c2"
proof -
  obtain m where m: "m \<le> length (drop (nat n) data)" "k \<le> int m"
    "wire c2 = wire c1 @ take m (drop (nat n) data)"
    using d2 by (auto simp: sends_def)
  have "wire c2 = wire c @ take (nat n + m) data"
    using m(3) n by (simp add: take_add)
  moreover have "nat n + m \<le> length data" "n + k \<le> int (nat n + m)" using m n by auto
  ultimately show ?thesis using d1 d2 unfolding sends_def by (metis io_only_trans)
qed

lemma sends_fields [simp]:
  "sends c data n (c'\<lparr> wall_clock := wc, last_throttle_bytes := lb, last_throttle_time := lt \<rparr>) = sends c data n c'"
  "sends c data n (c'\<lparr> last_throttle_bytes := lb \<rparr>) = sends c data n c'"
  "sends c data n (c'\<lparr> num_bytes_sent := nb \<rparr>) = sends c data n c'"
  "sends (c\<lparr> request_state := rs \<rparr>) data n c' = sends c data n c'"
  "sends (c\<lparr> last_throttle_bytes := lb \<rparr>) data n c' = sends c data n c'"
  "sends (c\<lparr> last_throttle_time := lt, last_throttle_bytes := lb \<rparr>) data n c' = sends c data n c'"
  "sends (c\<lparr> wall_clock := wc, last_throttle_bytes := lb, last_throttle_time := lt \<rparr>) data n c' = sends c data n c'"
  by (simp_all add: sends_def io_only_def io_clear_def)

text \<open>Only the script, the stop flag and the wire change in the socket loop.\<close>

definition push_clear :: "mg_connection \<Rightarrow> mg_connection" where
  "push_clear conn = conn\<lparr> send_script := [], stop_flag := False, wire := [] \<rparr>"

lemma push_clear_fields:
  "wall_clock (push_clear c) = wall_clock c" "throttle (push_clear c) = throttle c"
  "last_throttle_bytes (push_clear c) = last_throttle_bytes c"
  "last_throttle_time (push_clear c) = last_throttle_time c"
  "request_state (push_clear c) = request_state c" "num_bytes_sent (push_clear c) = num_bytes_sent c"
  by (simp_all add: push_clear_def)

lemma push_loop_clear: "push_loop conn data nw = (n, conn') \<Longrightarrow> push_clear conn' = push_clear conn"
proof (induction conn data nw arbitrary: n conn' rule: push_loop.induct)
  case (1 conn data nw)
  obtain n1 conn1 where step: "push_step conn data = (n1, conn1)" by fastforce
  then have frame: "push_clear conn1 = push_clear conn"
    by (auto simp: push_step_def push_clear_def split: prod.splits)
  show ?case
  proof (cases "data \<noteq> [] \<and> \<not> stop_flag conn \<and> 0 < n1")
    case True
    then have run: "push_loop conn1 (drop (nat n1) data) (nw + n1) = (n, conn')"
      using "1.prems" step by (subst (asm) push_loop.simps) auto
    show ?thesis using "1.IH" [OF _ step [symmetric] _ _ run] True frame by auto
  next
    case False
    then show ?thesis using "1.prems" step frame
      by (subst (asm) push_loop.simps) (auto split: if_splits)
  qed
qed

lemma push_all_facts:
  assumes "push_all conn data = (n, conn')"
  shows "delivered conn data n conn'" "-1 \<le> n" "n \<le> int (length data)"
    "wall_clock conn' = wall_clock conn" "throttle conn' = throttle conn"
    "last_throttle_bytes conn' = last_throttle_bytes conn" "last_throttle_time conn' = last_throttle_time conn"
    "request_state conn' = request_state conn" "num_bytes_sent conn' = num_bytes_sent conn"
proof -
  have p: "push_loop conn data 0 = (n, conn')" using assms by (simp add: push_all_def)
  show d: "delivered conn data n conn'" and "-1 \<le> n" using push_loop_delivered [OF p] by auto
  show "n \<le> int (length data)" using d by (auto simp: delivered_def)
  show "wall_clock conn' = wall_clock conn" "throttle conn' = throttle conn"
    "last_throttle_bytes conn' = last_throttle_bytes conn" "last_throttle_time conn' = last_throttle_time conn"
    "request_state conn' = request_state conn" "num_bytes_sent conn' = num_bytes_sent conn"
    using push_loop_clear [OF p] by (metis push_clear_fields)+
qed

lemma sends_all: "sends conn data n conn' \<Longrightarrow> n = int (length data) \<Longrightarrow> wire conn' = wire conn @ data"
  by (auto simp: sends_def)

lemma throttle_loop_sends:
  "throttle_loop conn data t = (n, conn') \<Longrightarrow>
     sends conn data (n - t) conn' \<and> t \<le> n \<and>
     n - t \<le> throttle conn * (wall_clock conn' - wall_clock conn) \<and> wall_clock conn \<le> wall_clock conn' \<and>
     request_state conn' = request_state conn \<and> num_bytes_sent conn' = num_bytes_sent conn \<and>
     (0 \<le> last_throttle_bytes conn \<and> last_throttle_bytes conn \<le> throttle conn \<longrightarrow>
        0 \<le> last_throttle_bytes conn' \<and> last_throttle_bytes conn' \<le> throttle conn)"
proof (induction conn data t arbitrary: n conn' rule: throttle_loop.induct)
  case (1 conn data t)
  define allowed where "allowed = (if throttle conn > int (length data) then int (length data) else throttle conn)"
  obtain n1 c1 where push: "push_all conn (take (nat allowed) data) = (n1, c1)" by fastforce
  note p = push_all_facts [OF push]
  let ?c = "c1\<lparr> wall_clock := wall_clock c1 + 1, last_throttle_bytes := allowed, last_throttle_time := wall_clock c1 + 1 \<rparr>"
  consider "data = [] \<or> stop_flag conn \<or> throttle conn \<le> 0"
    | "data \<noteq> []" "\<not> stop_flag conn" "0 < throttle conn" "n1 \<noteq> allowed"
    | "data \<noteq> []" "\<not> stop_flag conn" "0 < throttle conn" "n1 = allowed" by linarith
  then show ?case
  proof cases
    case 1
    then show ?thesis using "1.prems" by (subst (asm) throttle_loop.simps) (auto simp: sends_refl)
  next
    case 2
    then have e: "n = t" "conn' = c1" using "1.prems" push
      by (subst (asm) throttle_loop.simps; simp add: Let_def allowed_def [symmetric])+
    have "sends conn data 0 c1"
      using sends_take [OF delivered_sends [OF p(1)]] p(1) by (auto simp: sends_def delivered_def)
    then show ?thesis using e p by simp
  next
    case 3
    have run: "throttle_loop ?c (drop (nat n1) data) (t + n1) = (n, conn')"
      using "1.prems" 3 push by (subst (asm) throttle_loop.simps) (simp add: Let_def allowed_def [symmetric])
    have al: "0 < allowed" "allowed \<le> throttle conn" "nat allowed \<le> length data"
      using 3 by (auto simp: allowed_def)
    note ih = "1.IH" [OF _ allowed_def push [symmetric] _ run]
    have w: "wire c1 = wire conn @ take (nat n1) data"
      using sends_all [OF delivered_sends [OF p(1)]] 3 al by simp
    have ih: "sends ?c (drop (nat n1) data) (n - (t + n1)) conn'" "t + n1 \<le> n"
      "n - (t + n1) \<le> throttle conn * (wall_clock conn' - (wall_clock conn + 1))"
      "wall_clock conn + 1 \<le> wall_clock conn'"
      "request_state conn' = request_state conn" "num_bytes_sent conn' = num_bytes_sent conn"
      "0 \<le> last_throttle_bytes conn'" "last_throttle_bytes conn' \<le> throttle conn"
      using ih 3 p al by auto
    have "sends conn data (n1 + (n - (t + n1))) conn'"
      by (rule sends_trans [OF sends_take [OF delivered_sends [OF p(1)]] _ w]) (use ih 3 al in auto)
    moreover have "n - t \<le> throttle conn * (wall_clock conn' - wall_clock conn)"
    proof -
      have "throttle conn * (wall_clock conn' - wall_clock conn) =
            throttle conn + throttle conn * (wall_clock conn' - (wall_clock conn + 1))"
        by (simp add: algebra_simps)
      then show ?thesis using ih(3) 3 al by linarith
    qed
    ultimately show ?thesis using ih 3 al by (auto simp: algebra_simps)
  qed
qed

text \<open>
  \<open>mg_write\<close>: what is on the wire is a prefix of the data, the count returned never exceeds
  it, the number of bytes sent is accounted, and a throttled connection sends at most
  \<open>throttle\<close> bytes for each second that passed during the call, and those of one more second.
\<close>

definition throttle_ok :: "mg_connection \<Rightarrow> bool" where
  "throttle_ok conn \<longleftrightarrow>
     throttle conn > 0 \<longrightarrow> 0 \<le> last_throttle_bytes conn \<and> last_throttle_bytes conn \<le> throttle conn"

lemma mg_write_unthrottled:
  assumes "mg_write conn data = (n, conn')" "throttle conn \<le> 0"
  shows "sends conn data n conn'" "\<not> stop_flag conn' \<Longrightarrow> wire conn' = wire conn @ take (nat n) data"
    "num_bytes_sent conn' = num_bytes_sent conn + max 0 n"
proof -
  obtain m c where p: "push_all (conn\<lparr> request_state := 10 \<rparr>) data = (m, c)" by fastforce
  note f = push_all_facts [OF p]
  have d: "delivered conn data m c" using f(1) by (simp add: delivered_def io_only_def io_clear_def)
  have eq: "int (length data) > INT_MAX \<and> n = -1 \<and> conn' = conn \<or>
        \<not> int (length data) > INT_MAX \<and> n = m \<and>
        conn' = (if m > 0 then c\<lparr> num_bytes_sent := num_bytes_sent c + m \<rparr> else c)"
    using assms p by (auto simp: mg_write_def split: if_splits)
  show "sends conn data n conn'"
    using eq delivered_sends [OF d] sends_refl [of n conn data] by auto
  show "wire conn' = wire conn @ take (nat n) data" if "\<not> stop_flag conn'"
    using eq d that by (auto simp: delivered_def split: if_splits)
  show "num_bytes_sent conn' = num_bytes_sent conn + max 0 n"
    using eq f by auto
qed

lemma throttle_start_facts:
  "sends (throttle_start conn) data n conn' = sends conn data n conn'"
  "throttle (throttle_start conn) = throttle conn" "wall_clock (throttle_start conn) = wall_clock conn"
  "wire (throttle_start conn) = wire conn" "num_bytes_sent (throttle_start conn) = num_bytes_sent conn"
  "request_state (throttle_start conn) = request_state conn"
  "0 < throttle conn \<Longrightarrow> throttle_ok conn \<Longrightarrow>
     0 \<le> last_throttle_bytes (throttle_start conn) \<and> last_throttle_bytes (throttle_start conn) \<le> throttle conn"
  by (auto simp: throttle_start_def throttle_ok_def sends_def io_only_def io_clear_def)

lemma throttled_write_facts:
  assumes w: "throttled_write conn data = (n, conn')" and t: "0 < throttle conn" and ok: "throttle_ok conn"
  shows "sends conn data n conn'" "n \<le> throttle conn * (1 + (wall_clock conn' - wall_clock conn))"
    "wall_clock conn \<le> wall_clock conn'" "0 \<le> last_throttle_bytes conn'"
    "last_throttle_bytes conn' \<le> throttle conn" "num_bytes_sent conn' = num_bytes_sent conn"
    "request_state conn' = request_state conn"
proof -
  let ?c = "throttle_start conn"
  define left where "left = throttle conn - last_throttle_bytes ?c"
  define allowed where "allowed = (if left > int (length data) then int (length data) else left)"
  note start = throttle_start_facts
  have lb: "0 \<le> left" "left \<le> throttle conn" using start(7) [OF t ok] by (auto simp: left_def)
  then have al: "0 \<le> allowed" "allowed \<le> left" "nat allowed \<le> length data" by (auto simp: allowed_def)
  obtain m c where p: "push_all ?c (take (nat allowed) data) = (m, c)" by fastforce
  note f = push_all_facts [OF p]
  have m: "m \<le> allowed" using f(3) al by simp
  have s0: "sends conn data m c" using sends_take [OF delivered_sends [OF f(1)]] by (simp add: start)
  have eq: "(if m = allowed
      then throttle_loop (c\<lparr> last_throttle_bytes := last_throttle_bytes c + m \<rparr>) (drop (nat m) data) m
      else (m, c)) = (n, conn')"
    using w unfolding throttled_write_def Let_def start(2) left_def [symmetric] allowed_def [symmetric] p
    by simp
  have "sends conn data n conn' \<and> n \<le> throttle conn * (1 + (wall_clock conn' - wall_clock conn)) \<and>
      wall_clock conn \<le> wall_clock conn' \<and> 0 \<le> last_throttle_bytes conn' \<and>
      last_throttle_bytes conn' \<le> throttle conn \<and> num_bytes_sent conn' = num_bytes_sent conn \<and>
      request_state conn' = request_state conn"
  proof (cases "m = allowed")
    case False
    then show ?thesis using eq s0 m al f lb start start(7) [OF t ok] by auto
  next
    case True
    have run: "throttle_loop (c\<lparr> last_throttle_bytes := last_throttle_bytes c + m \<rparr>) (drop (nat m) data) m = (n, conn')"
      using eq True by simp
    note l = throttle_loop_sends [OF run]
    have w0: "wire c = wire conn @ take (nat m) data"
      using sends_all [OF delivered_sends [OF f(1)]] True al by (simp add: start)
    have rate: "n - m \<le> throttle conn * (wall_clock conn' - wall_clock conn)"
      and more: "wall_clock conn \<le> wall_clock conn'" "num_bytes_sent conn' = num_bytes_sent conn"
        "request_state conn' = request_state conn"
      using l f by (auto simp: start)
    have range: "0 \<le> last_throttle_bytes conn'" "last_throttle_bytes conn' \<le> throttle conn"
      using l f True al lb start(7) [OF t ok] by (auto simp: start left_def)
    have "sends conn data (m + (n - m)) conn'"
      by (rule sends_trans [OF s0 _ w0]) (use l True al in auto)
    moreover have "n \<le> throttle conn * (1 + (wall_clock conn' - wall_clock conn))"
      using rate m al(2) lb(2) unfolding distrib_left by linarith
    ultimately show ?thesis using range more by simp
  qed
  then show "sends conn data n conn'" "n \<le> throttle conn * (1 + (wall_clock conn' - wall_clock conn))"
    "wall_clock conn \<le> wall_clock conn'" "0 \<le> last_throttle_bytes conn'"
    "last_throttle_bytes conn' \<le> throttle conn" "num_bytes_sent conn' = num_bytes_sent conn"
    "request_state conn' = request_state conn"
    by blast+
qed

lemma mg_write_throttled:
  assumes w: "mg_write conn data = (n, conn')" and t: "0 < throttle conn" and ok: "throttle_ok conn"
  shows "sends conn data n conn' \<and> n \<le> throttle conn * (1 + (wall_clock conn' - wall_clock conn)) \<and>
         throttle_ok conn' \<and> num_bytes_sent conn' = num_bytes_sent conn + max 0 n"
proof (cases "int (length data) > INT_MAX")
  case True
  then show ?thesis using w t ok by (auto simp: mg_write_def sends_refl)
next
  case False
  obtain m d where tw: "throttled_write (conn\<lparr> request_state := 10 \<rparr>) data = (m, d)" by fastforce
  note f = throttled_write_facts [OF tw]
  have ok': "throttle_ok (conn\<lparr> request_state := 10 \<rparr>)" using ok by (simp add: throttle_ok_def)
  have eq: "n = m" "conn' = (if m > 0 then d\<lparr> num_bytes_sent := num_bytes_sent d + m \<rparr> else d)"
    using w False t tw by (auto simp: mg_write_def)
  have s: "sends conn data m d" using f(1) ok' t by simp
  have "throttle d = throttle conn" using s by (auto simp: sends_def dest: io_only_fields)
  then show ?thesis using eq s f ok' t by (auto simp: throttle_ok_def)
qed

lemma mg_write_sends:
  assumes "mg_write conn data = (n, conn')" "throttle_ok conn"
  shows "sends conn data n conn'" "throttle_ok conn'" "num_bytes_sent conn' = num_bytes_sent conn + max 0 n"
proof -
  consider "throttle conn \<le> 0" | "0 < throttle conn" by linarith
  then have "sends conn data n conn' \<and> throttle_ok conn' \<and> num_bytes_sent conn' = num_bytes_sent conn + max 0 n"
  proof cases
    case 1
    then show ?thesis using mg_write_unthrottled [OF assms(1) 1]
      by (auto simp: throttle_ok_def sends_def dest: io_only_fields)
  next
    case 2
    then show ?thesis using mg_write_throttled [OF assms(1) 2 assms(2)] by simp
  qed
  then show "sends conn data n conn'" "throttle_ok conn'" "num_bytes_sent conn' = num_bytes_sent conn + max 0 n"
    by auto
qed

section \<open>Receiving keeps the order\<close>

text \<open>The bytes the peer still has to deliver.\<close>

fun recv_data :: "recv_event list \<Rightarrow> string" where
  "recv_data [] = []"
| "recv_data (Recv s # es) = s @ recv_data es"
| "recv_data (Recv_Late s # es) = s @ recv_data es"
| "recv_data (_ # es) = recv_data es"

lemma pull_step_data:
  "pull_step conn len = (n, d, conn') \<Longrightarrow>
     (\<not> stop_flag conn' \<longrightarrow> recv_data (recv_script conn) = d @ recv_data (recv_script conn')) \<and> length d \<le> len \<and>
     (if n < 0 then d = [] else n = int (length d)) \<and> io_only conn conn' \<and> wire conn' = wire conn"
  by (cases "(recv_script conn, len)" rule: pull_inner.cases)
     (auto simp: pull_step_def min_def split: if_splits)

text \<open>Bytes are lost only to a server that is being stopped.\<close>

lemma pull_step_lost:
  assumes "pull_step conn len = (n, d, conn')"
  shows "\<exists>lost. recv_data (recv_script conn) = d @ lost @ recv_data (recv_script conn') \<and>
    (lost = [] \<or> stop_flag conn' \<and> n = -2 \<and> length lost \<le> len)"
proof (cases "(recv_script conn, len)" rule: pull_inner.cases)
  case (6 s es l)
  then show ?thesis using assms
    by (intro exI [of _ "if stop_flag conn then [] else take len s"]) (auto simp: pull_step_def split: if_splits)
qed (use assms in \<open>auto simp: pull_step_def min_def split: if_splits\<close>)

lemma pull_loop_data:
  "pull_loop conn len data = (n, d, conn') \<Longrightarrow>
     (\<exists>e lost. d = data @ e \<and> length e \<le> len \<and> recv_data (recv_script conn) = e @ lost @ recv_data (recv_script conn') \<and>
        (lost = [] \<or> stop_flag conn' \<and> length e + length lost \<le> len)) \<and>
     (n = int (length d) \<or> n = -1 \<and> d = []) \<and> io_only conn conn' \<and> wire conn' = wire conn"
proof (induction conn len data arbitrary: n d conn' rule: pull_loop.induct)
  case (1 conn len data)
  obtain n1 d1 c1 where step: "pull_step conn len = (n1, d1, c1)" by (metis prod_cases3)
  note p = pull_step_data [OF step] and lost = pull_step_lost [OF step]
  have ge: "-2 \<le> n1" using pull_step_ge [OF step [symmetric]] .
  note st = step [symmetric]
  let ?timeout = "elapsed conn \<le> request_timeout conn * 1000000"
  consider "len = 0 \<or> stop_flag conn"
    | "0 < len" "\<not> stop_flag conn" "n1 = -2 \<or> n1 = -1 \<and> \<not> ?timeout \<or> n1 = 0"
    | "0 < len" "\<not> stop_flag conn" "n1 = -1" ?timeout
    | "0 < len" "\<not> stop_flag conn" "0 < n1" using ge by linarith
  then show ?case
  proof cases
    case 1
    then show ?thesis using "1.prems" by (subst (asm) pull_loop.simps) auto
  next
    case 2
    then have "d = data \<and> conn' = c1 \<and> (n = int (length d) \<or> n = -1 \<and> d = [])"
      using "1.prems" step by (subst (asm) pull_loop.simps) (auto split: if_splits)
    moreover have "d1 = []" using p 2 by (auto split: if_splits)
    ultimately show ?thesis using p lost by auto
  next
    case 3
    then have run: "pull_loop c1 len data = (n, d, conn')"
      using "1.prems" step by (subst (asm) pull_loop.simps) simp
    have "recv_data (recv_script conn) = recv_data (recv_script c1)" using lost p 3(3) by auto
    then show ?thesis using "1.IH"(1) [OF _ st refl _ _ _ run] 3 p by (auto intro: io_only_trans)
  next
    case 4
    then have run: "pull_loop c1 (len - nat n1) (data @ d1) = (n, d, conn')"
      using "1.prems" step by (subst (asm) pull_loop.simps) simp
    have d1: "recv_data (recv_script conn) = d1 @ recv_data (recv_script c1)" "n1 = int (length d1)" "length d1 \<le> len"
      using lost p 4(3) by auto
    obtain e l where e: "d = (data @ d1) @ e" "length e \<le> len - nat n1"
      "recv_data (recv_script c1) = e @ l @ recv_data (recv_script conn')"
      "l = [] \<or> stop_flag conn' \<and> length e + length l \<le> len - nat n1"
      "n = int (length d) \<or> n = -1 \<and> d = []" "io_only c1 conn'" "wire conn' = wire c1"
      using "1.IH"(2) [OF _ st refl _ _ _ run] 4 by auto
    have "io_only conn conn'" "wire conn' = wire conn" using p e by (auto intro: io_only_trans)
    moreover have "d = data @ d1 @ e" "recv_data (recv_script conn) = (d1 @ e) @ l @ recv_data (recv_script conn')"
      "length (d1 @ e) \<le> len" "l = [] \<or> stop_flag conn' \<and> length (d1 @ e) + length l \<le> len" using d1 e by auto
    ultimately show ?thesis using e(5) by blast
  qed
qed

lemma pull_all_data:
  assumes "pull_all conn len = (n, d, conn')"
  shows "length d \<le> len"
    "\<not> stop_flag conn' \<Longrightarrow> recv_data (recv_script conn) = d @ recv_data (recv_script conn')"
    "n = int (length d) \<or> n = -1 \<and> d = []" "io_only conn conn'" "wire conn' = wire conn"
    "\<exists>lost. recv_data (recv_script conn) = d @ lost @ recv_data (recv_script conn') \<and>
       (lost = [] \<or> stop_flag conn' \<and> length d + length lost \<le> len)"
  using pull_loop_data [OF assms [unfolded pull_all_def]] by auto

text \<open>A peer that only delivers data: a read is complete as long as there is enough.\<close>

definition steady :: "mg_connection \<Rightarrow> bool" where
  "steady conn \<longleftrightarrow> \<not> stop_flag conn \<and> (\<forall>e \<in> set (recv_script conn). \<exists>s. e = Recv s \<and> s \<noteq> [])"

lemma steady_step:
  assumes "steady conn" "0 < len" "recv_script conn \<noteq> []"
  shows "\<exists>d c. pull_step conn len = (int (length d), d, c) \<and> d \<noteq> [] \<and> steady c"
proof -
  obtain s es where e: "recv_script conn = Recv s # es" "s \<noteq> []"
    using assms by (cases "recv_script conn") (auto simp: steady_def)
  show ?thesis using assms e
    by (auto simp: pull_step_def steady_def min_def split: if_splits)
qed

lemma pull_loop_steady:
  "steady conn \<Longrightarrow> len \<le> length (recv_data (recv_script conn)) \<Longrightarrow>
     \<exists>c. pull_loop conn len data =
           (int (length data + len), data @ take len (recv_data (recv_script conn)), c) \<and> steady c"
proof (induction len arbitrary: conn data rule: less_induct)
  case (less len)
  show ?case
  proof (cases "len = 0")
    case True
    then show ?thesis using less.prems by (subst pull_loop.simps) simp
  next
    case False
    then have "recv_script conn \<noteq> []" using less.prems by auto
    with less.prems False obtain d c where s: "pull_step conn len = (int (length d), d, c)" "d \<noteq> []" "steady c"
      using steady_step by blast
    have sc: "\<not> stop_flag c" using s(3) by (simp add: steady_def)
    note p = pull_step_data [OF s(1)]
    have "\<not> stop_flag conn" using less.prems by (simp add: steady_def)
    then have unf: "pull_loop conn len data = pull_loop c (len - length d) (data @ d)"
      using s False by (subst pull_loop.simps) simp
    show ?thesis
      using less.IH [of "len - length d" c "data @ d"] s p sc less.prems False unfolding unf by auto
  qed
qed

lemma pull_all_steady:
  assumes "steady conn" "len \<le> length (recv_data (recv_script conn))"
  obtains c where "pull_all conn len = (int len, take len (recv_data (recv_script conn)), c)" "steady c"
  using pull_loop_steady [OF assms, of "[]"] by (auto simp: pull_all_def)

section \<open>Properties\<close>

text \<open>
  C6: \<open>mg_write\<close> puts a prefix of the data on the wire, never reports more bytes than it
  sent, adds the reported count to \<open>num_bytes_sent\<close>, keeps the throttling counters in range, and
  has sent the data in full and in order if it reports its length.
\<close>

theorem mg_write_prefix:
  assumes "mg_write conn data = (n, conn')" "throttle_ok conn"
  shows "(\<exists>m. m \<le> length data \<and> n \<le> int m \<and> wire conn' = wire conn @ take m data) \<and>
    (n = int (length data) \<longrightarrow> wire conn' = wire conn @ data) \<and>
    num_bytes_sent conn' = num_bytes_sent conn + max 0 n \<and> throttle_ok conn' \<and> io_only conn conn'"
proof -
  note w = mg_write_sends [OF assms]
  show ?thesis using w sends_all [OF w(1)] by (auto simp: sends_def)
qed

definition test_connection :: mg_connection where
  "test_connection = \<lparr> connection_type = CONNECTION_TYPE_REQUEST, protocol_type = PROTOCOL_TYPE_HTTP1,
     request_state = 0,
     request_info = \<lparr> request_method = None, request_uri = None, local_uri_raw = None, local_uri = None,
       http_version = None, query_string = None, remote_user = None, remote_addr = [], server_addr = [],
       server_port = 80, is_ssl = False, http_headers = [] \<rparr>,
     response_info = \<lparr> rsp_status_code = 0, status_text = None, rsp_http_version = None, rsp_headers = [] \<rparr>,
     dom_ctx = Some default_config, stop_flag = False, num_bytes_sent = 0, content_len = 0,
     consumed_content = 0, is_chunked = 0, conn_buf = [], request_len = 0, must_close = False,
     accept_gzip = False, in_error_handler = False, status_code = 200, throttle = 0,
     last_throttle_time = 0, last_throttle_bytes = 0, wall_clock = 0,
     send_script = [Send_Bytes 100, Send_Bytes 100, Send_Bytes 100], recv_script = [], wire = [] \<rparr>"

lemma mg_write_prefix_witness:
  "\<exists>n c. mg_write test_connection ''abc'' = (n, c) \<and> (n = 3 \<longrightarrow> wire c = ''abc'')"
proof -
  obtain n c where e: "mg_write test_connection ''abc'' = (n, c)" by fastforce
  have "throttle_ok test_connection" by (simp add: throttle_ok_def test_connection_def)
  then show ?thesis using mg_write_prefix [OF e] e by (auto simp: test_connection_def)
qed

text \<open>
  C7: a throttled connection reports at most \<open>throttle\<close> bytes for every second that passed
  during the call and for one second more; this one second is the burst before the first
  \<open>sleep\<close>.
\<close>

theorem mg_write_rate:
  assumes "mg_write conn data = (n, conn')" "0 < throttle conn" "throttle_ok conn"
  shows "n \<le> throttle conn * (1 + (wall_clock conn' - wall_clock conn))"
  using mg_write_throttled [OF assms] by blast

lemma mg_write_rate_witness:
  "\<exists>n c. mg_write (test_connection\<lparr> throttle := 2 \<rparr>) ''abcdef'' = (n, c) \<and> n \<le> 2 * (1 + wall_clock c)"
proof -
  obtain n c where e: "mg_write (test_connection\<lparr> throttle := 2 \<rparr>) ''abcdef'' = (n, c)" by fastforce
  have "throttle_ok (test_connection\<lparr> throttle := 2 \<rparr>)" by (simp add: throttle_ok_def test_connection_def)
  then show ?thesis using mg_write_rate [OF e] e by (auto simp: test_connection_def)
qed

text \<open>
  C8: a read returns the next bytes of the peer in their order: they are the front of what was to
  be delivered, at most as many as asked for, and the count returned is their number unless the
  read failed with nothing. It loses none, unless the server is being stopped: then bytes that \<open>recv\<close>
  had already taken from the socket may be missing behind those returned, still within the length
  asked for.
\<close>

theorem pull_all_in_order:
  assumes "pull_all conn len = (n, d, conn')"
  shows "(\<exists>lost. recv_data (recv_script conn) = d @ lost @ recv_data (recv_script conn') \<and>
      (lost = [] \<or> stop_flag conn' \<and> length d + length lost \<le> len)) \<and> length d \<le> len \<and>
    (n = int (length d) \<or> n = -1 \<and> d = []) \<and> io_only conn conn'"
  using pull_all_data [OF assms] by blast

text \<open>It does happen: the two bytes were received, and the call fails with nothing.\<close>

lemma stopping_server_loses_bytes:
  "\<exists>c. pull_all (test_connection\<lparr> recv_script := [Recv_Late ''ab''] \<rparr>) 9 = (-1, [], c) \<and> recv_data (recv_script c) = []"
  unfolding pull_all_def by (subst pull_loop.simps) (simp add: pull_step_def test_connection_def)

lemma pull_all_in_order_witness:
  "\<exists>n d c lost. pull_all (test_connection\<lparr> recv_script := [Recv ''ab'', Recv ''cd''] \<rparr>) 3 = (n, d, c) \<and>
     ''abcd'' = d @ lost @ recv_data (recv_script c)"
proof -
  obtain n d c where e: "pull_all (test_connection\<lparr> recv_script := [Recv ''ab'', Recv ''cd''] \<rparr>) 3 = (n, d, c)"
    by (metis prod_cases3)
  then show ?thesis using pull_all_in_order [OF e] by auto
qed

end
