(* ===== verification/Option_List.thy ===== *)
theory Option_List
  imports C_Strings
begin

text \<open>
  Comma-separated lists of values: \<open>next_option\<close> and \<open>header_has_option\<close> of
  \<open>src/civetweb.c\<close>. Many configuration options and header values are read through them. A
  \<open>struct vec\<close> is the string it delimits; the remaining list is the string behind the
  comma.
\<close>

section \<open>Operations\<close>

definition is_lws :: "char \<Rightarrow> bool" where
  "is_lws c \<longleftrightarrow> c = SP \<or> c = TAB"

definition strip_end :: "string \<Rightarrow> string" where
  "strip_end v = rev (dropWhile is_lws (rev v))"

text \<open>The text in front of the first comma and the list behind it.\<close>

definition cut_comma :: "string \<Rightarrow> string \<times> string" where
  "cut_comma ptr = (case memchr (CHR '','') ptr of
       Some i \<Rightarrow> (take i ptr, drop (i + 1) ptr)
     | None \<Rightarrow> (ptr, []))"

lemma cut_comma_rest: "s \<noteq> [] \<Longrightarrow> length (snd (cut_comma (dropWhile is_lws s))) < length s"
  using length_dropWhile_le [of is_lws s]
  by (auto simp: cut_comma_def split: option.splits dest: memchr_less)

text \<open>
  The value with its surrounding white space removed, and the rest of the list; empty
  entries are skipped (\<open>goto reparse\<close>). \<open>None\<close>: end of the list.
\<close>

function next_value :: "string \<Rightarrow> (string \<times> string) option" where
  "next_value list =
     (if list = [] then None
      else
        let (ptr, rest) = cut_comma (dropWhile is_lws list);
            val = strip_end ptr
        in if val = [] then next_value rest else Some (val, rest))"
  by pat_completeness auto
termination
  by (relation "measure length") (auto, metis cut_comma_rest snd_conv)

declare next_value.simps [simp del]

text \<open>With an \<open>eq_val\<close> vector the value \<open>x=y\<close> is split at its first \<open>=\<close>.\<close>

definition split_eq :: "string \<Rightarrow> string \<times> string option" where
  "split_eq val = (case memchr (CHR ''='') val of
       None \<Rightarrow> (val, None)
     | Some i \<Rightarrow> (take i val, Some (drop (i + 1) val)))"

definition next_option :: "string option \<Rightarrow> (string \<times> string \<times> string option) option" where
  "next_option list =
     (case list of
        None \<Rightarrow> None
      | Some l \<Rightarrow>
          (case next_value l of
             None \<Rightarrow> None
           | Some (val, rest) \<Rightarrow> (case split_eq val of (x, y) \<Rightarrow> Some (rest, x, y))))"

lemma next_value_rest: "next_value list = Some (val, rest) \<Longrightarrow> length rest < length list"
proof (induction list rule: next_value.induct)
  case (1 list)
  show ?case
  proof (cases "list = []")
    case True
    with 1(2) show ?thesis by (simp add: next_value.simps)
  next
    case False
    obtain v r where vr: "cut_comma (dropWhile is_lws list) = (v, r)" by fastforce
    have len: "length r < length list" using cut_comma_rest [OF False] vr by simp
    show ?thesis
    proof (cases "strip_end v = []")
      case True
      with 1(2) False vr have "next_value r = Some (val, rest)"
        by (subst (asm) next_value.simps) (simp add: Let_def)
      with 1(1) [OF False vr [symmetric] refl refl True] len show ?thesis by simp
    next
      case nonempty: False
      with 1(2) False vr have "rest = r"
        by (subst (asm) next_value.simps) (simp add: Let_def)
      with len show ?thesis by simp
    qed
  qed
qed

text \<open>
  The loop \<open>while ((list = next_option(list, ...)) != NULL)\<close>: all entries in order. Without an
  \<open>eq_val\<close> vector the values are not split.
\<close>

function option_values :: "string \<Rightarrow> string list" where
  "option_values list =
     (case next_value list of None \<Rightarrow> [] | Some (val, rest) \<Rightarrow> val # option_values rest)"
  by pat_completeness auto
termination
  by (relation "measure length") (auto dest: next_value_rest)

declare option_values.simps [simp del]

function options :: "string option \<Rightarrow> (string \<times> string option) list" where
  "options list =
     (case next_option list of
        None \<Rightarrow> []
      | Some (rest, x, y) \<Rightarrow> (x, y) # options (Some rest))"
  by pat_completeness auto
termination
  by (relation "measure (\<lambda>list. case list of None \<Rightarrow> 0 | Some l \<Rightarrow> length l)")
    (auto simp: next_option_def split: option.splits prod.splits dest: next_value_rest)

declare options.simps [simp del]

lemma options_Some: "options (Some l) = map split_eq (option_values l)"
proof (induction "length l" arbitrary: l rule: less_induct)
  case less
  show ?case
  proof (cases "next_value l")
    case None
    then show ?thesis by (simp add: options.simps [of "Some l"] next_option_def option_values.simps [of l])
  next
    case (Some vr)
    obtain v rest where vr: "vr = (v, rest)" by fastforce
    obtain x y where xy: "split_eq v = (x, y)" by fastforce
    have "options (Some rest) = map split_eq (option_values rest)" using less next_value_rest Some vr by blast
    then show ?thesis using Some vr xy
      by (simp add: options.simps [of "Some l"] next_option_def option_values.simps [of l])
  qed
qed

function header_has_option :: "string option \<Rightarrow> string \<Rightarrow> bool" where
  "header_has_option header opt =
     (case next_option header of
        None \<Rightarrow> False
      | Some (rest, x, y) \<Rightarrow>
          if mg_strncasecmp opt x (length x) = 0 then True
          else header_has_option (Some rest) opt)"
  by pat_completeness auto
termination
  by (relation "measure (\<lambda>(header, opt). case header of None \<Rightarrow> 0 | Some h \<Rightarrow> length h)")
    (auto simp: next_option_def split: option.splits prod.splits dest: next_value_rest)

declare header_has_option.simps [simp del]

section \<open>The entries are the trimmed, non-empty fields\<close>

function split_commas :: "string \<Rightarrow> string list" where
  "split_commas s = (case memchr (CHR '','') s of
       None \<Rightarrow> [s]
     | Some i \<Rightarrow> take i s # split_commas (drop (i + 1) s))"
  by pat_completeness auto
termination
  by (relation "measure length") (auto dest: memchr_less)

declare split_commas.simps [simp del]

definition trim_lws :: "string \<Rightarrow> string" where
  "trim_lws s = strip_end (dropWhile is_lws s)"

lemma not_lws_comma: "\<not> is_lws (CHR '','')"
  by (simp add: is_lws_def)

lemma memchr_dropWhile_lws:
  "memchr (CHR '','') (dropWhile is_lws s) =
     map_option (\<lambda>i. i - length (takeWhile is_lws s)) (memchr (CHR '','') s)"
  "memchr (CHR '','') s = Some i \<Longrightarrow> length (takeWhile is_lws s) \<le> i \<and>
     take (i - length (takeWhile is_lws s)) (dropWhile is_lws s) = dropWhile is_lws (take i s) \<and>
     drop (Suc (i - length (takeWhile is_lws s))) (dropWhile is_lws s) = drop (Suc i) s"
proof (induction s arbitrary: i)
  case (Cons c s)
  { case 1 show ?case using Cons.IH(1) not_lws_comma
      by (cases "is_lws c") (auto simp: option.map_comp comp_def) }
  { case 2
    show ?case
    proof (cases "is_lws c")
      case True
      with 2 not_lws_comma obtain j where "memchr (CHR '','') s = Some j" "i = Suc j"
        by (auto split: if_splits)
      with Cons.IH(2) True show ?thesis by simp
    next
      case False
      then show ?thesis by (cases i) simp_all
    qed }
qed simp_all

lemma next_value_eq:
  "next_value s =
     (if s = [] then None
      else case memchr (CHR '','') s of
        None \<Rightarrow> if trim_lws s = [] then None else Some (trim_lws s, [])
      | Some i \<Rightarrow> if trim_lws (take i s) = [] then next_value (drop (Suc i) s)
                  else Some (trim_lws (take i s), drop (Suc i) s))"
proof (cases "memchr (CHR '','') s")
  case None
  then show ?thesis
    by (subst next_value.simps) (simp add: memchr_dropWhile_lws(1) trim_lws_def Let_def cut_comma_def next_value.simps [of "[]"])
next
  case (Some i)
  then show ?thesis
    using memchr_dropWhile_lws(2) [OF Some]
    by (subst next_value.simps) (simp add: memchr_dropWhile_lws(1) trim_lws_def Let_def cut_comma_def)
qed

lemma option_values_eq: "option_values s = filter (\<lambda>v. v \<noteq> []) (map trim_lws (split_commas s))"
proof (induction "length s" arbitrary: s rule: less_induct)
  case less
  show ?case
  proof (cases "s = []")
    case True
    then show ?thesis
      by (simp add: option_values.simps next_value_eq split_commas.simps trim_lws_def strip_end_def)
  next
    case False
    show ?thesis
    proof (cases "memchr (CHR '','') s")
      case None
      with False show ?thesis
        by (simp add: option_values.simps [of s] option_values.simps [of "[]"] next_value_eq [of s]
            next_value_eq [of "[]"] split_commas.simps)
    next
      case (Some i)
      have IH: "option_values (drop (Suc i) s) =
          filter (\<lambda>v. v \<noteq> []) (map trim_lws (split_commas (drop (Suc i) s)))"
        using memchr_less [OF Some] by (intro less) simp
      have "option_values s = (if trim_lws (take i s) = [] then option_values (drop (Suc i) s)
          else trim_lws (take i s) # option_values (drop (Suc i) s))"
        using False Some
        by (simp add: option_values.simps [of s] option_values.simps [of "drop (Suc i) s"] next_value_eq [of s])
      then show ?thesis
        using Some IH by (simp add: split_commas.simps [of s])
    qed
  qed
qed

section \<open>Searching an option in a header\<close>

lemma header_has_option_iff:
  "header_has_option (Some h) opt \<longleftrightarrow>
     (\<exists>x \<in> set (map fst (options (Some h))). mg_strncasecmp opt x (length x) = 0)"
proof (induction "length h" arbitrary: h rule: less_induct)
  case less
  show ?case
  proof (cases "next_value h")
    case None
    then show ?thesis
      by (simp add: header_has_option.simps next_option_def options_Some option_values.simps)
  next
    case (Some vr)
    obtain v r where vr: "vr = (v, r)" by fastforce
    obtain x y where xy: "split_eq v = (x, y)" by fastforce
    from next_value_rest Some vr have "length r < length h" by simp
    from less [OF this] Some vr xy show ?thesis
      by (simp add: header_has_option.simps [of "Some h"] next_option_def options_Some
          option_values.simps [of h])
  qed
qed

lemma wf_strip_end: "wf_cstr s \<Longrightarrow> wf_cstr (strip_end s)"
  by (auto simp: strip_end_def wf_cstr_def dest: set_dropWhileD)

lemma wf_trim_lws: "wf_cstr s \<Longrightarrow> wf_cstr (trim_lws s)"
  unfolding trim_lws_def by (rule wf_strip_end) (auto simp: wf_cstr_def dest: set_dropWhileD)

lemma wf_split_commas: "wf_cstr s \<Longrightarrow> v \<in> set (split_commas s) \<Longrightarrow> wf_cstr v"
proof (induction s rule: split_commas.induct)
  case (1 s)
  show ?case
  proof (cases "memchr (CHR '','') s")
    case None
    with 1 show ?thesis by (simp add: split_commas.simps [of s])
  next
    case (Some i)
    with 1(3) have "v = take i s \<or> v \<in> set (split_commas (drop (i + 1) s))"
      by (simp add: split_commas.simps [of s])
    then show ?thesis using 1(1) [OF Some] 1(2) by blast
  qed
qed

lemma wf_split_eq: "wf_cstr v \<Longrightarrow> wf_cstr (fst (split_eq v))"
  by (auto simp: split_eq_def split: option.splits)

lemma wf_options:
  assumes "wf_cstr h" "x \<in> fst ` set (options (Some h))"
  shows "wf_cstr x"
proof -
  from assms(2) obtain v where v: "v \<in> set (option_values h)" and x: "x = fst (split_eq v)"
    by (auto simp: options_Some)
  from v obtain u where "u \<in> set (split_commas h)" "v = trim_lws u"
    by (auto simp: option_values_eq)
  then show ?thesis using assms(1) x by (simp add: wf_split_commas wf_trim_lws wf_split_eq)
qed

text \<open>
  The test only compares as many characters as the entry has: an entry matches when it is a
  prefix of the option name, not only when it is the whole name.
\<close>

lemma header_has_option_prefix:
  assumes "wf_cstr h" "wf_cstr opt"
  shows "header_has_option (Some h) opt \<longleftrightarrow>
    (\<exists>x \<in> fst ` set (options (Some h)). map tolower x = map tolower (take (length x) opt))"
proof -
  have "mg_strncasecmp opt x (length x) = 0 \<longleftrightarrow> map tolower x = map tolower (take (length x) opt)"
    if "x \<in> fst ` set (options (Some h))" for x
    using mg_strncasecmp_eq_0 [OF assms(2) wf_options [OF assms(1) that]] by auto
  then show ?thesis unfolding header_has_option_iff set_map by blast
qed

section \<open>Properties\<close>

text \<open>
  Iterating \<open>next_option\<close> over a list gives the fields between the commas in order, trimmed of
  white space and without the empty ones, each split at its first equals sign.
\<close>

lemma split_eq_first: "split_eq v =
    (takeWhile (\<lambda>c. c \<noteq> CHR ''='') v, if CHR ''='' \<in> set v then Some (tl (dropWhile (\<lambda>c. c \<noteq> CHR ''='') v)) else None)"
  by (induction v) (auto simp: split_eq_def split: option.splits if_splits)

lemma options_are_trimmed_fields:
  "options (Some l) =
     map (\<lambda>v. (takeWhile (\<lambda>c. c \<noteq> CHR ''='') v, if CHR ''='' \<in> set v then Some (tl (dropWhile (\<lambda>c. c \<noteq> CHR ''='') v)) else None))
       (filter (\<lambda>v. v \<noteq> []) (map trim_lws (split_commas l)))"
  by (simp add: options_Some option_values_eq split_eq_first)

text \<open>
  A header has an option exactly if some entry of its list is, in any case, a prefix of the
  option: the comparison is limited to the length of the entry, so a shorter entry counts.
\<close>

lemma header_has_option_by_prefix:
  assumes "wf_cstr h" "wf_cstr opt"
  shows "header_has_option (Some h) opt \<longleftrightarrow>
    (\<exists>x \<in> fst ` set (options (Some h)). map tolower x = map tolower (take (length x) opt))"
  by (rule header_has_option_prefix [OF assms])

lemma header_has_option_by_prefix_witness:
  "header_has_option (Some ''k'') ''keep-alive'' \<longleftrightarrow>
    (\<exists>x \<in> fst ` set (options (Some ''k'')). map tolower x = map tolower (take (length x) ''keep-alive''))"
  by (rule header_has_option_by_prefix) (simp_all add: wf_cstr_def)

end
