(* ===== verification/Headers.thy ===== *)
theory Headers
  imports Connection Option_List
begin

text \<open>
  Access to the parsed headers of a connection and the decisions taken from them
  (\<open>src/civetweb.c\<close>, \<open>skip_quoted\<close> to \<open>get_http_version\<close> and \<open>should_keep_alive\<close> to
  \<open>suggest_connection_header\<close>). A C buffer that is cut into words is the list of its
  characters up to the terminator; a pointer into it is the remaining suffix.
\<close>

section \<open>Words with quoted delimiters\<close>

text \<open>
  The word so far ends at \<open>p\<close>; while its last character is the quote character, it is
  overwritten by the delimiter and the text up to the next delimiter.
\<close>

function skip_word :: "string \<Rightarrow> char \<Rightarrow> string \<Rightarrow> string \<Rightarrow> string \<times> string" where
  "skip_word delimiters quotechar w rest =
     (if w \<noteq> [] \<and> last w = quotechar
      then (if rest \<noteq> []
            then let end_off = strcspn (tl rest) delimiters
                 in skip_word delimiters quotechar (butlast w @ take (Suc end_off) rest)
                      (drop (Suc end_off) rest)
            else (butlast w, []))
      else (w, rest))"
  by pat_completeness auto
termination
  by (relation "measure (\<lambda>(d, q, w, rest). length rest)") (auto simp: neq_Nil_conv)

declare skip_word.simps [simp del]

text \<open>The result: the word and the buffer behind the delimiter and the white space.\<close>

definition skip_quoted :: "string \<Rightarrow> string \<Rightarrow> string \<Rightarrow> char \<Rightarrow> string \<times> string" where
  "skip_quoted buf delimiters whitespace quotechar =
     (let n = strcspn buf delimiters
      in case skip_word delimiters quotechar (take n buf) (drop n buf) of
           (w, rest) \<Rightarrow>
             (w, if rest = [] then [] else drop (strspn (tl rest) whitespace + 1) rest))"

section \<open>Headers\<close>

definition get_header :: "mg_header list \<Rightarrow> string \<Rightarrow> string option" where
  "get_header hdr name = map_option hdr_value (find (\<lambda>h. mg_strcasecmp name (hdr_name h) = 0) hdr)"

definition get_req_headers :: "mg_request_info \<Rightarrow> string \<Rightarrow> nat \<Rightarrow> string list" where
  "get_req_headers ri name output_max_size =
     take output_max_size
       (map hdr_value (filter (\<lambda>h. mg_strcasecmp name (hdr_name h) = 0) (http_headers ri)))"

definition mg_get_header :: "mg_connection \<Rightarrow> string \<Rightarrow> string option" where
  "mg_get_header conn name =
     (case connection_type conn of
        CONNECTION_TYPE_REQUEST \<Rightarrow> get_header (http_headers (request_info conn)) name
      | CONNECTION_TYPE_RESPONSE \<Rightarrow> get_header (rsp_headers (response_info conn)) name
      | CONNECTION_TYPE_INVALID \<Rightarrow> None)"

definition get_http_version :: "mg_connection \<Rightarrow> string option" where
  "get_http_version conn =
     (case connection_type conn of
        CONNECTION_TYPE_REQUEST \<Rightarrow> http_version (request_info conn)
      | CONNECTION_TYPE_RESPONSE \<Rightarrow> rsp_http_version (response_info conn)
      | CONNECTION_TYPE_INVALID \<Rightarrow> None)"

section \<open>Decisions\<close>

definition should_keep_alive :: "mg_connection option \<Rightarrow> bool" where
  "should_keep_alive c =
     (case c of
        None \<Rightarrow> False
      | Some conn \<Rightarrow>
          if must_close conn then False
          else if \<not> conf_is conn ENABLE_KEEP_ALIVE ''yes'' then False
          else case mg_get_header conn ''Connection'' of
                 Some header \<Rightarrow> header_has_option (Some header) ''keep-alive''
               | None \<Rightarrow> get_http_version conn = Some ''1.1'')"

definition should_decode_url :: "mg_connection option \<Rightarrow> bool" where
  "should_decode_url c =
     (case c of None \<Rightarrow> False
      | Some conn \<Rightarrow> dom_ctx conn \<noteq> None \<and> conf_is conn DECODE_URL ''yes'')"

definition should_decode_query_string :: "mg_connection option \<Rightarrow> bool" where
  "should_decode_query_string c =
     (case c of None \<Rightarrow> False
      | Some conn \<Rightarrow> dom_ctx conn \<noteq> None \<and> conf_is conn DECODE_QUERY_STRING ''yes'')"

definition suggest_connection_header :: "mg_connection \<Rightarrow> string" where
  "suggest_connection_header conn = (if should_keep_alive (Some conn) then ''keep-alive'' else ''close'')"

section \<open>Quoting is undone\<close>

text \<open>The text with every delimiter quoted, as a client writes it into a quoted word.\<close>

definition quote_delims :: "string \<Rightarrow> char \<Rightarrow> string \<Rightarrow> string" where
  "quote_delims delimiters q w = concat (map (\<lambda>c. if c \<in> set delimiters then [q, c] else [c]) w)"

lemma quote_delims_simps [simp]:
  "quote_delims ds q [] = []"
  "quote_delims ds q (c # w) = (if c \<in> set ds then q # c # quote_delims ds q w else c # quote_delims ds q w)"
  by (auto simp: quote_delims_def)

text \<open>The first delimiter behind a quoted text, with the text before it.\<close>

lemma strcspn_quoted:
  assumes "q \<notin> set w" "q \<notin> set ds" "d \<in> set ds"
    and t: "t = quote_delims ds q w @ d # r"
  shows "(\<forall>c \<in> set w. c \<notin> set ds) \<and> take (strcspn t ds) t = w \<and> drop (strcspn t ds) t = d # r \<or>
         (\<exists>u e v. w = u @ e # v \<and> e \<in> set ds \<and> take (strcspn t ds) t = u @ [q] \<and>
            drop (strcspn t ds) t = e # quote_delims ds q v @ d # r)"
  using assms(1) unfolding t
proof (induction w)
  case Nil
  then show ?case using assms by (simp add: strcspn_def)
next
  case (Cons c w)
  show ?case
  proof (cases "c \<in> set ds")
    case True
    then have "strcspn (quote_delims ds q (c # w) @ d # r) ds = 1" using assms by (simp add: strcspn_def)
    then show ?thesis using True by (intro disjI2 exI [of _ "[]"] exI [of _ c] exI [of _ w]) simp
  next
    case False
    then have "strcspn (quote_delims ds q (c # w) @ d # r) ds = Suc (strcspn (quote_delims ds q w @ d # r) ds)"
      by (simp add: strcspn_def)
    then show ?thesis using Cons False by (auto intro: exI [of _ "c # _"])
  qed
qed

lemma skip_word_quoted:
  assumes "q \<notin> set ds" "d \<in> set ds"
  shows "q \<notin> set w \<Longrightarrow> p = [] \<or> last p \<noteq> q \<Longrightarrow> t = quote_delims ds q w @ d # r \<Longrightarrow>
    skip_word ds q (p @ take (strcspn t ds) t) (drop (strcspn t ds) t) = (p @ w, d # r)"
proof (induction "length w" arbitrary: w p t rule: less_induct)
  case less
  from strcspn_quoted [OF less.prems(1) assms less.prems(3)]
  consider "take (strcspn t ds) t = w" "drop (strcspn t ds) t = d # r"
    | u e v where "w = u @ e # v" "e \<in> set ds" "take (strcspn t ds) t = u @ [q]"
      "drop (strcspn t ds) t = e # quote_delims ds q v @ d # r" by blast
  then show ?case
  proof cases
    case 1
    have "\<not> (p @ w \<noteq> [] \<and> last (p @ w) = q)"
      using less.prems by (cases "w = []") (auto dest: last_in_set)
    then show ?thesis unfolding 1 by (subst skip_word.simps) (auto simp del: last_append)
  next
    case (2 u e v)
    let ?t = "quote_delims ds q v @ d # r"
    have "skip_word ds q (p @ u @ [q]) (e # ?t) =
          skip_word ds q ((p @ u @ [e]) @ take (strcspn ?t ds) ?t) (drop (strcspn ?t ds) ?t)"
      by (subst skip_word.simps) (simp add: Let_def butlast_append)
    also have "\<dots> = ((p @ u @ [e]) @ v, d # r)"
      by (rule less.hyps) (use 2 less.prems assms in auto)
    finally show ?thesis using 2 by simp
  qed
qed

lemma skip_quoted_quote:
  assumes "q \<notin> set ds" "d \<in> set ds" "q \<notin> set w"
  shows "skip_quoted (quote_delims ds q w @ d # r) ds ws q = (w, drop (strspn r ws) r)"
  using skip_word_quoted [OF assms(1,2,3), of "[]"] by (simp add: skip_quoted_def Let_def)

text \<open>Each word consumes at least one character of a buffer that is not empty.\<close>

lemma skip_word_rest: "length (snd (skip_word ds q w rest)) \<le> length rest"
proof (induction ds q w rest rule: skip_word.induct)
  case (1 ds q w rest)
  then show ?case by (subst skip_word.simps) (auto simp: Let_def)
qed

lemma skip_quoted_rest:
  assumes "buf \<noteq> []" shows "length (snd (skip_quoted buf ds ws q)) < length buf"
proof -
  let ?n = "strcspn buf ds"
  obtain w rest where e: "skip_word ds q (take ?n buf) (drop ?n buf) = (w, rest)" by fastforce
  have "length rest \<le> length buf - ?n" using skip_word_rest [of ds q "take ?n buf" "drop ?n buf"] e by simp
  then show ?thesis using assms e by (cases rest) (auto simp: skip_quoted_def Let_def)
qed

section \<open>Lookup\<close>

lemma get_header_None_iff:
  "get_header hdr name = None \<longleftrightarrow> (\<forall>h \<in> set hdr. mg_strcasecmp name (hdr_name h) \<noteq> 0)"
  by (auto simp: get_header_def find_None_iff)

lemma get_header_first:
  assumes "\<forall>h \<in> set pre. mg_strcasecmp name (hdr_name h) \<noteq> 0" "mg_strcasecmp name (hdr_name h) = 0"
  shows "get_header (pre @ h # post) name = Some (hdr_value h)"
  using assms by (induction pre) (auto simp: get_header_def)

text \<open>The spelling of the name does not matter.\<close>

lemma get_header_case:
  assumes "mg_strcasecmp name name' = 0"
  shows "get_header hdr name = get_header hdr name'"
proof -
  have "(\<lambda>h :: mg_header. mg_strcasecmp name (hdr_name h) = 0) = (\<lambda>h. mg_strcasecmp name' (hdr_name h) = 0)"
    using casecmp.cmp_zero_trans casecmp.cmp_zero_sym assms by metis
  then show ?thesis unfolding get_header_def by (simp only:)
qed

lemma get_header_in: "get_header hdr name = Some v \<Longrightarrow> \<exists>h \<in> set hdr. hdr_value h = v \<and> mg_strcasecmp name (hdr_name h) = 0"
  by (auto simp: get_header_def find_Some_iff dest: nth_mem)

lemma get_header_hd_req: "get_header (http_headers ri) name = (case get_req_headers ri name 1 of [] \<Rightarrow> None | v # _ \<Rightarrow> Some v)"
proof -
  have "map_option f (find P xs) = (case take 1 (map f (filter P xs)) of [] \<Rightarrow> None | v # _ \<Rightarrow> Some v)" for f :: "mg_header \<Rightarrow> string" and P xs
    by (induction xs) auto
  then show ?thesis by (simp add: get_header_def get_req_headers_def)
qed

section \<open>Keep-alive\<close>

text \<open>The decision as a table: never if the server wants to close or does not allow it; then
  the request's header if there is one; otherwise the default of the protocol version.\<close>

lemma should_keep_alive_iff:
  "should_keep_alive (Some conn) \<longleftrightarrow>
     \<not> must_close conn \<and> conf_is conn ENABLE_KEEP_ALIVE ''yes'' \<and>
     (case mg_get_header conn ''Connection'' of
        None \<Rightarrow> get_http_version conn = Some ''1.1''
      | Some h \<Rightarrow> header_has_option (Some h) ''keep-alive'')"
  by (auto simp: should_keep_alive_def split: option.splits)

lemma should_keep_alive_io:
  assumes "io_only c c'" shows "suggest_connection_header c' = suggest_connection_header c"
  unfolding suggest_connection_header_def should_keep_alive_def mg_get_header_def
      get_http_version_def conf_is_def conf_def io_only_fields [OF assms] option.case ..

section \<open>Properties\<close>

text \<open>
  A text whose delimiters were quoted comes back unchanged as one word, and the buffer
  is left behind the closing delimiter and the white space.
\<close>

lemma skip_quoted_unquotes:
  assumes "q \<notin> set ds" "d \<in> set ds" "q \<notin> set w"
  shows "skip_quoted (quote_delims ds q w @ d # r) ds ws q = (w, drop (strspn r ws) r)"
  by (rule skip_quoted_quote [OF assms])

lemma skip_quoted_unquotes_witness:
  "skip_quoted (quote_delims [DQUOTE] BACKSLASH (''a'' @ DQUOTE # ''b'') @ DQUOTE # '' x'') [DQUOTE] '' '' BACKSLASH =
     (''a'' @ DQUOTE # ''b'', drop (strspn '' x'' '' '') '' x'')"
  by (rule skip_quoted_unquotes) simp_all

end
