(* ===== verification/Http_Parser.thy ===== *)
theory Http_Parser
  imports Headers
begin

text \<open>
  Parsing of an HTTP/1 message head (\<open>src/civetweb.c\<close>, \<open>get_http_header_len\<close>,
  \<open>skip_to_end_of_word_and_terminate\<close>, \<open>parse_http_headers\<close>, the method table,
  \<open>parse_http_request\<close>, \<open>parse_http_response\<close>). The parser cuts a buffer into C strings in
  place; in the model it returns the strings and the remaining suffix. Results written
  before a later error are kept, as in the code.
\<close>

section \<open>Length of the head\<close>

fun http_header_len_from :: "nat \<Rightarrow> string \<Rightarrow> int" where
  "http_header_len_from i [] = 0"
| "http_header_len_from i (c # s) =
     (if code c < 128 \<and> c \<noteq> CR \<and> c \<noteq> LF \<and> \<not> isprint c then -1
      else if c = LF \<and> take 1 s = [LF] then int i + 2
      else if c = CR \<and> take 3 s = [LF, CR, LF] then int i + 4
      else http_header_len_from (i + 1) s)"

definition get_http_header_len :: "string \<Rightarrow> int" where
  "get_http_header_len buf = http_header_len_from 0 buf"

section \<open>Words\<close>

text \<open>
  The result: success, the C string at the old pointer, and the new pointer. If the word is
  not terminated, the string at the old pointer is still the whole rest.
\<close>

definition word_char :: "char \<Rightarrow> bool" where
  "word_char c \<longleftrightarrow> code c > 127 \<or> isgraph c"

definition skip_to_end_of_word_and_terminate :: "string \<Rightarrow> bool \<Rightarrow> bool \<times> string \<times> string" where
  "skip_to_end_of_word_and_terminate ppw eol =
     (let word = takeWhile word_char ppw; end_word = dropWhile word_char ppw
      in if eol \<and> hd0 end_word \<noteq> CR \<and> hd0 end_word \<noteq> LF then (False, ppw, end_word)
         else if \<not> eol \<and> hd0 end_word \<noteq> SP then (False, ppw, end_word)
         else let rest = dropWhile isspace (tl end_word)
              in if \<not> eol \<and> \<not> isgraph (hd0 rest) then (False, word, rest)
                 else (True, word, rest))"

section \<open>Header lines\<close>

definition MG_MAX_HEADERS :: nat where "MG_MAX_HEADERS = 64"

definition name_char :: "char \<Rightarrow> bool" where
  "name_char c \<longleftrightarrow> c \<noteq> CHR '':'' \<and> 33 \<le> code c \<and> code c \<le> 126"

definition value_char :: "char \<Rightarrow> bool" where
  "value_char c \<longleftrightarrow> c \<noteq> NUL \<and> c \<noteq> CR \<and> c \<noteq> LF"

text \<open>\<open>n\<close> is the number of array elements left.\<close>

fun parse_header_lines :: "nat \<Rightarrow> string \<Rightarrow> (mg_header list \<times> string) option" where
  "parse_header_lines 0 buf = Some ([], buf)"
| "parse_header_lines (Suc n) buf =
     (let name = takeWhile name_char buf in
      if name = [] then Some ([], buf)
      else
        let dp = dropWhile (\<lambda>c. c = SP) (dropWhile name_char buf) in
        if hd0 dp \<noteq> CHR '':'' then None
        else
          let start = dropWhile (\<lambda>c. c = SP \<or> c = TAB) (tl dp);
              hdr = \<lparr> hdr_name = name, hdr_value = takeWhile value_char start \<rparr>;
              eol = dropWhile value_char start in
          if hd0 eol = CR \<and> hd0 (tl eol) \<noteq> LF then None
          else
            let dp2 = (if hd0 eol = CR then tl eol else eol) in
            if hd0 dp2 = NUL then Some ([hdr], dp2)
            else if hd0 (tl dp2) = CR \<or> hd0 (tl dp2) = LF then Some ([hdr], tl dp2)
            else case parse_header_lines n (tl dp2) of
                   None \<Rightarrow> None
                 | Some (hdrs, rest) \<Rightarrow> Some (hdr # hdrs, rest))"

definition parse_http_headers :: "string \<Rightarrow> (mg_header list \<times> string) option" where
  "parse_http_headers buf = parse_header_lines MG_MAX_HEADERS buf"

section \<open>Methods\<close>

record mg_http_method_info =
  method_name :: string
  request_has_body :: bool
  response_has_body :: bool
  is_safe :: bool
  is_idempotent :: bool
  is_cacheable :: bool

definition http_methods :: "mg_http_method_info list" where
  "http_methods = map (\<lambda>(n, a, b, c, d, e). \<lparr> method_name = n, request_has_body = a, response_has_body = b,
       is_safe = c, is_idempotent = d, is_cacheable = e \<rparr>) [
     (''GET'', False, True, True, True, True),
     (''POST'', True, True, False, False, False),
     (''PUT'', True, False, False, True, False),
     (''DELETE'', False, False, False, True, False),
     (''HEAD'', False, False, True, True, True),
     (''OPTIONS'', False, False, True, True, False),
     (''CONNECT'', True, True, False, False, False),
     (''PATCH'', True, False, False, False, False),
     (''PROPFIND'', False, True, True, True, False),
     (''MKCOL'', False, False, False, True, False),
     (''LOCK'', True, True, False, False, False),
     (''UNLOCK'', True, False, False, False, False),
     (''PROPPATCH'', True, True, False, False, False),
     (''COPY'', True, False, False, False, False),
     (''MOVE'', True, True, False, False, False),
     (''REPORT'', True, True, True, True, True)]"

definition get_http_method_info :: "string \<Rightarrow> mg_http_method_info option" where
  "get_http_method_info meth = find (\<lambda>m. method_name m = meth) http_methods"

definition is_valid_http_method :: "string \<Rightarrow> bool" where
  "is_valid_http_method meth \<longleftrightarrow> get_http_method_info meth \<noteq> None"

section \<open>Requests\<close>

text \<open>
  The lines of a request whose head is complete; \<open>buf\<close> is the head without its last
  character, which the code has overwritten by the terminator. The result is success.
\<close>

definition parse_request_lines :: "string \<Rightarrow> mg_request_info \<Rightarrow> bool \<times> mg_request_info" where
  "parse_request_lines buf ri =
     (case skip_to_end_of_word_and_terminate buf False of (ok1, w1, buf1) \<Rightarrow>
      let ri1 = ri\<lparr> request_method := Some w1 \<rparr> in
      if \<not> ok1 then (False, ri1)
      else case skip_to_end_of_word_and_terminate buf1 False of (ok2, w2, buf2) \<Rightarrow>
        let ri2 = ri1\<lparr> request_uri := Some w2 \<rparr> in
        if \<not> ok2 then (False, ri2)
        else case skip_to_end_of_word_and_terminate buf2 True of (ok3, w3, buf3) \<Rightarrow>
          let ri3 = ri2\<lparr> http_version := Some w3 \<rparr> in
          if \<not> ok3 then (False, ri3)
          else if take 5 w3 \<noteq> ''HTTP/'' then (False, ri3)
          else
            let ri4 = ri3\<lparr> http_version := Some (drop 5 w3) \<rparr> in
            if \<not> is_valid_http_method w1 then (False, ri4)
            else case parse_http_headers buf3 of
                   None \<Rightarrow> (False, ri4)
                 | Some (hdrs, _) \<Rightarrow> (True, ri4\<lparr> http_headers := hdrs \<rparr>))"

definition reset_request :: "mg_request_info \<Rightarrow> mg_request_info" where
  "reset_request ri =
     ri\<lparr> remote_user := None, request_method := None, request_uri := None, http_version := None,
        http_headers := [] \<rparr>"

definition parse_http_request :: "string \<Rightarrow> mg_request_info \<Rightarrow> int \<times> mg_request_info" where
  "parse_http_request buf0 ri0 =
     (let ri = reset_request ri0;
          buf = dropWhile isspace buf0;
          init_skip = length buf0 - length buf in
      if buf = [] then (0, ri)
      else if iscntrl (hd buf) then (-1, ri)
      else
        let request_length = get_http_header_len buf in
        if request_length \<le> 0 then (request_length, ri)
        else
          let head = take (nat request_length - 1) buf in
          if hd0 head = NUL \<or> hd0 head = CR \<or> hd0 head = LF then (-1, ri)
          else case parse_request_lines head ri of
                 (ok, ri') \<Rightarrow> (if ok then request_length + int init_skip else -1, ri'))"

section \<open>Responses\<close>

definition parse_response_lines :: "string \<Rightarrow> mg_response_info \<Rightarrow> bool \<times> mg_response_info" where
  "parse_response_lines buf ri =
     (if take 5 buf \<noteq> ''HTTP/'' then (False, ri)
      else if \<not> isgraph (hd0 (drop 5 buf)) then (False, ri)
      else case skip_to_end_of_word_and_terminate (drop 5 buf) False of (ok1, w1, buf1) \<Rightarrow>
        let ri1 = ri\<lparr> rsp_http_version := Some w1 \<rparr> in
        if \<not> ok1 then (False, ri1)
        else case skip_to_end_of_word_and_terminate buf1 False of (ok2, tmp, buf2) \<Rightarrow>
          if \<not> ok2 then (False, ri1)
          else case strtol 10 tmp of (l, tmp2) \<Rightarrow>
            if l < 100 \<or> l \<ge> 1000 \<or> length tmp - length tmp2 \<noteq> 3 \<or> tmp2 \<noteq> [] then (False, ri1)
            else
              let eol = dropWhile isprint buf2;
                  ri2 = ri1\<lparr> rsp_status_code := l, status_text := Some buf2 \<rparr> in
              if hd0 eol \<noteq> CR \<and> hd0 eol \<noteq> LF then (False, ri2)
              else
                let ri3 = ri2\<lparr> status_text := Some (takeWhile isprint buf2) \<rparr> in
                case parse_http_headers (dropWhile isspace (tl eol)) of
                  None \<Rightarrow> (False, ri3)
                | Some (hdrs, _) \<Rightarrow> (True, ri3\<lparr> rsp_headers := hdrs \<rparr>))"

definition reset_response :: "mg_response_info \<Rightarrow> mg_response_info" where
  "reset_response ri = ri\<lparr> rsp_http_version := None, status_text := None, rsp_headers := [], rsp_status_code := 0 \<rparr>"

definition parse_http_response :: "string \<Rightarrow> mg_response_info \<Rightarrow> int \<times> mg_response_info" where
  "parse_http_response buf0 ri0 =
     (let ri = reset_response ri0;
          buf = dropWhile isspace buf0;
          init_skip = length buf0 - length buf in
      if buf = [] then (0, ri)
      else if iscntrl (hd buf) then (-1, ri)
      else
        let response_length = get_http_header_len buf in
        if response_length \<le> 0 then (response_length, ri)
        else
          let head = take (nat response_length - 1) buf in
          if hd0 head = NUL \<or> hd0 head = CR \<or> hd0 head = LF then (-1, ri)
          else case parse_response_lines head ri of
                 (ok, ri') \<Rightarrow> (if ok then response_length + int init_skip else -1, ri'))"
section \<open>The head is found\<close>

definition head_char :: "char \<Rightarrow> bool" where
  "head_char c \<longleftrightarrow> code c \<ge> 128 \<or> isprint c \<or> c = CR \<or> c = LF"

lemma head_char_NUL: "\<not> head_char NUL"
  by (simp add: head_char_def ctype_simps)

lemma http_header_len_from_ok:
  "http_header_len_from i s = n \<Longrightarrow> 0 < n \<Longrightarrow>
     \<exists>k. n = int (i + k) \<and> 2 \<le> k \<and> k \<le> length s \<and> (\<forall>c \<in> set (take k s). head_char c) \<and>
         (\<forall>x. http_header_len_from i (take k s @ x) = n) \<and> (k = 2 \<longrightarrow> take 2 s = [LF, LF])"
proof (induction i s arbitrary: n rule: http_header_len_from.induct)
  case (1 i)
  then show ?case by simp
next
  case (2 i c s)
  have c: "head_char c" using 2(2,3) by (auto simp: head_char_def split: if_splits)
  have c': "\<not> (code c < 128 \<and> c \<noteq> CR \<and> c \<noteq> LF \<and> \<not> isprint c)" using 2(2,3) by (auto split: if_splits)
  consider "c = LF" "take 1 s = [LF]" | "c = CR" "take 3 s = [LF, CR, LF]"
    | "\<not> (c = LF \<and> take 1 s = [LF])" "\<not> (c = CR \<and> take 3 s = [LF, CR, LF])" by blast
  then show ?case
  proof cases
    case 1
    then have n: "n = int i + 2" using 2(2) by simp
    have len: "1 \<le> length s" using arg_cong [OF 1(2), of length] by simp
    have t: "take 2 (c # s) = [LF, LF]" using 1 by (simp add: take_Suc_conv_app_nth numeral_2_eq_2)
    show ?thesis by (rule exI [of _ 2]) (use n len t in \<open>auto simp: head_char_def\<close>)
  next
    case 2
    then have n: "n = int i + 4" using \<open>http_header_len_from i (c # s) = n\<close> by simp
    have len: "3 \<le> length s" using arg_cong [OF 2(2), of length] by simp
    have t: "take 4 (c # s) = [CR, LF, CR, LF]" using 2 by (simp add: take_Cons' )
    show ?thesis by (rule exI [of _ 4]) (use n len t in \<open>auto simp: head_char_def\<close>)
  next
    case 3
    then have rec: "http_header_len_from (i + 1) s = n"
      using 2(2) c' by (simp only: http_header_len_from.simps if_False if_not_P)
    obtain k where k: "n = int (i + 1 + k)" "2 \<le> k" "k \<le> length s" "\<forall>c \<in> set (take k s). head_char c"
      "\<And>x. http_header_len_from (i + 1) (take k s @ x) = n" "k = 2 \<longrightarrow> take 2 s = [LF, LF]"
      using "2.IH" [OF c' 3 rec 2(3)] by auto
    have "take 1 (take k s @ x) = take 1 s" for x using k(2,3) by (simp add: take_append)
    moreover have "c \<noteq> CR \<or> take 3 (take k s @ x) \<noteq> [LF, CR, LF]" for x
    proof (cases "k = 2")
      case True
      then show ?thesis using k(3,6) by (simp add: numeral_3_eq_3 take_append)
    next
      case False
      then have "take 3 (take k s @ x) = take 3 s" using k(2,3) by (simp add: take_append)
      then show ?thesis using 3 by auto
    qed
    ultimately have "http_header_len_from i (take (Suc k) (c # s) @ x) = n" for x
      using 3 c' k(5) by auto
    then show ?thesis using k c by (intro exI [of _ "Suc k"]) auto
  qed
qed

lemma get_http_header_len_ok:
  assumes "get_http_header_len buf = n" "0 < n"
  shows "2 \<le> n" "n \<le> int (length buf)" "\<forall>c \<in> set (take (nat n) buf). head_char c"
    "get_http_header_len (take (nat n) buf @ x) = n"
  using http_header_len_from_ok [of 0 buf n] assms by (auto simp: get_http_header_len_def)

section \<open>What an accepted head contains\<close>

lemma set_dropWhile_subset: "set (dropWhile P s) \<subseteq> set s"
  by (auto dest: set_dropWhileD)

lemma set_tl_subset: "set (tl s) \<subseteq> set s"
  by (cases s) auto

lemma skip_word_ok:
  assumes "skip_to_end_of_word_and_terminate ppw eol = (True, w, r)"
  shows "\<forall>c \<in> set w. word_char c" "set r \<subseteq> set ppw" "\<not> eol \<Longrightarrow> isgraph (hd0 r)" "length w < length ppw"
    "length r < length ppw"
proof -
  have e: "w = takeWhile word_char ppw" "r = dropWhile isspace (tl (dropWhile word_char ppw))"
    "hd0 (dropWhile word_char ppw) \<noteq> NUL" "\<not> eol \<longrightarrow> isgraph (hd0 r)"
    using assms by (auto simp: skip_to_end_of_word_and_terminate_def Let_def split: if_splits)
  show "\<forall>c \<in> set w. word_char c" using e(1) by (auto dest: set_takeWhileD)
  show "set r \<subseteq> set ppw"
    unfolding e(2) using set_dropWhile_subset set_tl_subset by (metis (no_types, lifting) order_trans)
  show "\<not> eol \<Longrightarrow> isgraph (hd0 r)" using e(4) by blast
  have ne: "dropWhile word_char ppw \<noteq> []" using e(3) by (metis hd0_simps(1))
  have l: "length (takeWhile word_char ppw) + length (dropWhile word_char ppw) = length ppw"
    by (metis length_append takeWhile_dropWhile_id)
  show "length w < length ppw" using l ne e(1) by (metis add_less_cancel_left add.right_neutral length_greater_0_conv)
  have "length r \<le> length (tl (dropWhile word_char ppw))" unfolding e(2) by (rule length_dropWhile_le)
  then show "length r < length ppw" using l ne by (cases "dropWhile word_char ppw") auto
qed

text \<open>A header as the parser delivers it: a name of graphic characters without colon, and a
  value without line ends, so that a header cannot be split or smuggled into another one.\<close>

definition header_ok :: "mg_header \<Rightarrow> bool" where
  "header_ok h \<longleftrightarrow> hdr_name h \<noteq> [] \<and> (\<forall>c \<in> set (hdr_name h). name_char c) \<and>
     (\<forall>c \<in> set (hdr_value h). value_char c)"

lemma parse_header_lines_ok:
  "parse_header_lines n buf = Some (hdrs, rest) \<Longrightarrow>
     length hdrs \<le> n \<and> (\<forall>h \<in> set hdrs. header_ok h) \<and> length rest \<le> length buf"
proof (induction n buf arbitrary: hdrs rest rule: parse_header_lines.induct)
  case (1 buf)
  then show ?case by simp
next
  case (2 n buf)
  define name where "name = takeWhile name_char buf"
  define dp where "dp = dropWhile (\<lambda>c. c = SP) (dropWhile name_char buf)"
  define start where "start = dropWhile (\<lambda>c. c = SP \<or> c = TAB) (tl dp)"
  define h where "h = \<lparr> hdr_name = name, hdr_value = takeWhile value_char start \<rparr>"
  define eol where "eol = dropWhile value_char start"
  define dp2 where "dp2 = (if hd0 eol = CR then tl eol else eol)"
  have unf: "parse_header_lines (Suc n) buf =
      (if name = [] then Some ([], buf) else if hd0 dp \<noteq> CHR '':'' then None
       else if hd0 eol = CR \<and> hd0 (tl eol) \<noteq> LF then None
       else if hd0 dp2 = NUL then Some ([h], dp2)
       else if hd0 (tl dp2) = CR \<or> hd0 (tl dp2) = LF then Some ([h], tl dp2)
       else case parse_header_lines n (tl dp2) of None \<Rightarrow> None | Some (hdrs, rest) \<Rightarrow> Some (h # hdrs, rest))"
    unfolding parse_header_lines.simps Let_def h_def dp2_def eol_def start_def dp_def name_def ..
  have ok: "header_ok h" if "name \<noteq> []"
    using that by (auto simp: header_ok_def h_def name_def dest: set_takeWhileD)
  have len: "length dp2 \<le> length buf" "length (tl dp2) \<le> length buf"
    unfolding dp2_def eol_def start_def dp_def
    by (auto intro!: order_trans [OF length_dropWhile_le] order_trans [OF diff_le_self])
  consider "name = []" "hdrs = []" "rest = buf"
    | "name \<noteq> []" "hdrs = [h]" "rest = dp2 \<or> rest = tl dp2"
    | hs where "name \<noteq> []" "hdrs = h # hs" "parse_header_lines n (tl dp2) = Some (hs, rest)"
      "\<not> hd0 dp \<noteq> CHR '':''" "\<not> (hd0 eol = CR \<and> hd0 (tl eol) \<noteq> LF)" "hd0 dp2 \<noteq> NUL"
      "\<not> (hd0 (tl dp2) = CR \<or> hd0 (tl dp2) = LF)"
    using 2(2) unfolding unf by (auto split: if_split_asm option.splits)
  then show ?case
  proof cases
    case 1
    then show ?thesis by simp
  next
    case 2
    then show ?thesis using ok len by auto
  next
    case (3 hs)
    from "2.IH" [OF name_def 3(1) dp_def 3(4) start_def h_def eol_def 3(5) dp2_def 3(6,7,3)]
    show ?thesis using 3 ok len by auto
  qed
qed

section \<open>What an accepted request contains\<close>

text \<open>The request line and the headers of a request the parser accepted.\<close>

definition request_ok :: "mg_request_info \<Rightarrow> bool" where
  "request_ok ri \<longleftrightarrow>
     (\<exists>m u v. request_method ri = Some m \<and> is_valid_http_method m \<and>
        request_uri ri = Some u \<and> u \<noteq> [] \<and> (\<forall>c \<in> set u. word_char c) \<and>
        http_version ri = Some v \<and> (\<forall>c \<in> set v. word_char c)) \<and>
     length (http_headers ri) \<le> MG_MAX_HEADERS \<and> (\<forall>h \<in> set (http_headers ri). header_ok h)"

lemma skip_word_nonempty:
  assumes "skip_to_end_of_word_and_terminate ppw eol = (True, w, r)" "isgraph (hd0 ppw)"
  shows "w \<noteq> []"
proof -
  have "w = takeWhile word_char ppw"
    using assms(1) by (auto simp: skip_to_end_of_word_and_terminate_def Let_def split: if_splits)
  moreover have "ppw \<noteq> []" using assms(2) by (auto simp: isgraph_def)
  ultimately show ?thesis using assms(2) by (cases ppw) (auto simp: word_char_def)
qed

lemma parse_request_lines_ok:
  assumes "parse_request_lines buf ri = (True, ri')"
  shows "request_ok ri'"
proof -
  obtain ok1 w1 b1 where s1: "skip_to_end_of_word_and_terminate buf False = (ok1, w1, b1)" by (metis prod_cases3)
  obtain ok2 w2 b2 where s2: "skip_to_end_of_word_and_terminate b1 False = (ok2, w2, b2)" by (metis prod_cases3)
  obtain ok3 w3 b3 where s3: "skip_to_end_of_word_and_terminate b2 True = (ok3, w3, b3)" by (metis prod_cases3)
  have ok: "ok1" "ok2" "ok3" "is_valid_http_method w1"
    using assms s1 s2 s3 by (auto simp: parse_request_lines_def Let_def split: if_splits)
  obtain hdrs rest where h: "parse_http_headers b3 = Some (hdrs, rest)"
    and ri': "ri' = ri\<lparr> request_method := Some w1, request_uri := Some w2,
                http_version := Some (drop 5 w3), http_headers := hdrs \<rparr>"
    using assms s1 s2 s3 ok by (auto simp: parse_request_lines_def Let_def split: if_splits option.splits)
  have s: "skip_to_end_of_word_and_terminate buf False = (True, w1, b1)"
    "skip_to_end_of_word_and_terminate b1 False = (True, w2, b2)"
    "skip_to_end_of_word_and_terminate b2 True = (True, w3, b3)" using s1 s2 s3 ok by auto
  have "w2 \<noteq> []" using skip_word_nonempty [OF s(2)] skip_word_ok(3) [OF s(1)] by simp
  moreover have "\<forall>c \<in> set (drop 5 w3). word_char c"
    using skip_word_ok(1) [OF s(3)] by (auto dest: in_set_dropD)
  ultimately show ?thesis
    using parse_header_lines_ok [OF h [unfolded parse_http_headers_def]] skip_word_ok(1) [OF s(2)] ok ri'
    by (simp add: request_ok_def)
qed

text \<open>The lines of the head: a successful parse is one of the lines of a complete head.\<close>

lemma parse_http_request_cases:
  assumes "parse_http_request buf0 ri0 = (n, ri)" "0 < n"
  obtains buf len where "buf = dropWhile isspace buf0" "buf \<noteq> []" "\<not> iscntrl (hd buf)"
    "len = get_http_header_len buf" "0 < len" "n = len + int (length buf0 - length buf)"
    "parse_request_lines (take (nat len - 1) buf) (reset_request ri0) = (True, ri)"
    "\<not> (hd0 (take (nat len - 1) buf) = NUL \<or> hd0 (take (nat len - 1) buf) = CR \<or> hd0 (take (nat len - 1) buf) = LF)"
proof
  let ?buf = "dropWhile isspace buf0"
  let ?len = "get_http_header_len ?buf"
  let ?head = "take (nat ?len - 1) ?buf"
  obtain ok r where p: "parse_request_lines ?head (reset_request ri0) = (ok, r)" by fastforce
  show ne: "?buf \<noteq> []" "\<not> iscntrl (hd ?buf)" "0 < ?len"
    and nh: "\<not> (hd0 ?head = NUL \<or> hd0 ?head = CR \<or> hd0 ?head = LF)"
    using assms by (auto simp: parse_http_request_def Let_def split: if_splits)
  have "parse_http_request buf0 ri0 = (if ok then ?len + int (length buf0 - length ?buf) else -1, r)"
    using ne nh p unfolding parse_http_request_def Let_def by (simp del: One_nat_def)
  then have "(if ok then ?len + int (length buf0 - length ?buf) else -1, r) = (n, ri)"
    using assms by simp
  then show "n = ?len + int (length buf0 - length ?buf)"
    "parse_request_lines ?head (reset_request ri0) = (True, ri)"
    using assms(2) p by (auto split: if_splits)
qed (rule refl)+

lemma parse_http_request_accepted:
  assumes "parse_http_request buf ri0 = (n, ri)" "0 < n"
  shows "n \<le> int (length buf)" "request_ok ri"
proof -
  from assms obtain b len where b: "b = dropWhile isspace buf" "len = get_http_header_len b" "0 < len"
    "n = len + int (length buf - length b)" "parse_request_lines (take (nat len - 1) b) (reset_request ri0) = (True, ri)"
    by (rule parse_http_request_cases)
  show "request_ok ri" by (rule parse_request_lines_ok [OF b(5)])
  have "length b \<le> length buf" using b(1) length_dropWhile_le by simp
  then show "n \<le> int (length buf)" using get_http_header_len_ok(2) [OF b(2) [symmetric] b(3)] b(4) by simp
qed

text \<open>
  The result depends on the bytes of the head alone: what follows it in the buffer, such as
  the body or the next pipelined request, is not looked at.
\<close>

lemma dropWhile_take_prefix:
  assumes "dropWhile P s = b" "k \<le> length b" "0 < k"
  shows "dropWhile P (take (length s - length b + k) s @ x) = take k b @ x"
proof -
  let ?p = "takeWhile P s"
  have s: "s = ?p @ b" using assms(1) takeWhile_dropWhile_id by metis
  then have lp: "length s - length b = length ?p" by (metis add_diff_cancel_right' length_append)
  have "take (length ?p + k) s = ?p @ take k b"
    by (subst s) (simp add: take_add)
  moreover have "\<not> P (hd (take k b))" "take k b \<noteq> []"
    using assms hd_dropWhile [of P s] by (cases b; cases k; force)+
  moreover have "dropWhile P (?p @ r) = dropWhile P r" for r
    by (rule dropWhile_append2) (auto dest: set_takeWhileD)
  ultimately show ?thesis unfolding lp by (cases "take k b") auto
qed

lemma parse_http_request_prefix:
  assumes "parse_http_request buf ri0 = (n, ri)" "0 < n"
  shows "parse_http_request (take (nat n) buf @ x) ri0 = (n, ri)"
proof -
  from assms obtain b len where b: "b = dropWhile isspace buf" "b \<noteq> []" "\<not> iscntrl (hd b)"
    "len = get_http_header_len b" "0 < len"
    "n = len + int (length buf - length b)" "parse_request_lines (take (nat len - 1) b) (reset_request ri0) = (True, ri)"
    "\<not> (hd0 (take (nat len - 1) b) = NUL \<or> hd0 (take (nat len - 1) b) = CR \<or> hd0 (take (nat len - 1) b) = LF)"
    by (rule parse_http_request_cases)
  note len = get_http_header_len_ok [OF b(4) [symmetric] b(5)]
  let ?k = "nat len"
  have nn: "nat n = length buf - length b + ?k" using b(5,6) by simp
  have d: "dropWhile isspace (take (nat n) buf @ x) = take ?k b @ x"
    unfolding nn using dropWhile_take_prefix [OF b(1) [symmetric]] len b(5) by simp
  have lb: "length b \<le> length buf" using b(1) length_dropWhile_le by simp
  have skip: "length (take (nat n) buf @ x) - length (take ?k b @ x) = length buf - length b"
    using nn len(2) b(5) lb by auto
  have hd: "hd (take ?k b @ x) = hd b" "take ?k b @ x \<noteq> []" using b(2,5) by (cases b; cases ?k; auto)+
  have head: "take (?k - 1) (take ?k b @ x) = take (?k - 1) b" using len(2) b(5) by (simp add: take_append)
  show ?thesis
    unfolding parse_http_request_def Let_def d skip hd(1) len(4) head
    using b hd(2) by simp
qed

section \<open>A request that was written is read back\<close>

definition render_lines :: "string list \<Rightarrow> string" where
  "render_lines ls = concat (map (\<lambda>l. l @ [CR, LF]) ls)"

definition header_line :: "mg_header \<Rightarrow> string" where
  "header_line h = hdr_name h @ '': '' @ hdr_value h"

definition request_line :: "string \<Rightarrow> string \<Rightarrow> string \<Rightarrow> string" where
  "request_line m u v = m @ SP # u @ '' HTTP/'' @ v"

definition render_request :: "string \<Rightarrow> string \<Rightarrow> string \<Rightarrow> mg_header list \<Rightarrow> string" where
  "render_request m u v hs = render_lines (request_line m u v # map header_line hs) @ [CR, LF]"

definition line_char :: "char \<Rightarrow> bool" where
  "line_char c \<longleftrightarrow> code c \<ge> 128 \<or> isprint c"

lemma line_char_simps: "line_char c \<Longrightarrow> c \<noteq> CR \<and> c \<noteq> LF \<and> c \<noteq> NUL"
  by (auto simp: line_char_def ctype_simps)

lemma render_lines_simps [simp]:
  "render_lines [] = []" "render_lines (l # ls) = l @ CR # LF # render_lines ls"
  by (auto simp: render_lines_def)

lemma header_len_skip_line:
  "\<forall>c \<in> set l. line_char c \<Longrightarrow> http_header_len_from i (l @ s) = http_header_len_from (i + length l) s"
  by (induction l arbitrary: i) (auto simp: line_char_def ctype_simps)

lemma header_len_next_line:
  "c \<noteq> CR \<Longrightarrow> c \<noteq> LF \<Longrightarrow> http_header_len_from i (CR # LF # c # s) = http_header_len_from (i + 2) (c # s)"
  by (simp del: http_header_len_from.simps(2) add: http_header_len_from.simps(2) [of _ CR]
      http_header_len_from.simps(2) [of _ LF])

lemma header_len_lines:
  "ls \<noteq> [] \<Longrightarrow> \<forall>l \<in> set ls. l \<noteq> [] \<and> (\<forall>c \<in> set l. line_char c) \<Longrightarrow>
     http_header_len_from i (render_lines ls @ CR # LF # body) = int (i + length (render_lines ls) + 2)"
proof (induction ls arbitrary: i)
  case (Cons l ls)
  show ?case
  proof (cases ls)
    case Nil
    then show ?thesis using Cons.prems by (simp add: header_len_skip_line)
  next
    case (Cons k ks)
    obtain c r where k: "k = c # r" "c \<noteq> CR" "c \<noteq> LF"
      using Cons.prems Cons line_char_simps by (cases k) auto
    have "http_header_len_from i (render_lines (l # ls) @ CR # LF # body) =
          http_header_len_from (i + length l + 2) (render_lines ls @ CR # LF # body)"
      using Cons.prems k Cons by (simp add: header_len_skip_line header_len_next_line del: http_header_len_from.simps)
    also have "\<dots> = int (i + length l + 2 + length (render_lines ls) + 2)"
      by (rule Cons.IH) (use Cons Cons.prems in auto)
    finally show ?thesis by simp
  qed
qed simp

lemma skip_word_render:
  assumes "\<forall>c \<in> set w. word_char c" "isgraph (hd0 r)"
  shows "skip_to_end_of_word_and_terminate (w @ SP # r) False = (True, w, r)"
proof -
  have "dropWhile isspace r = r" using assms(2) by (cases r) (auto simp: ctype_simps)
  then show ?thesis using assms
    by (simp add: skip_to_end_of_word_and_terminate_def Let_def takeWhile_append dropWhile_append
        word_char_def ctype_simps)
qed

lemma skip_word_render_eol:
  assumes "\<forall>c \<in> set w. word_char c" "r = [] \<or> \<not> isspace (hd r)"
  shows "skip_to_end_of_word_and_terminate (w @ CR # LF # r) True = (True, w, r)"
proof -
  have "dropWhile isspace r = r" using assms(2) by (cases r) auto
  then show ?thesis using assms
    by (simp add: skip_to_end_of_word_and_terminate_def Let_def takeWhile_append dropWhile_append
        word_char_def ctype_simps)
qed

text \<open>A header that can be written: no white space before the value, printable characters.\<close>

definition header_wf :: "mg_header \<Rightarrow> bool" where
  "header_wf h \<longleftrightarrow> hdr_name h \<noteq> [] \<and> (\<forall>c \<in> set (hdr_name h). name_char c) \<and>
     (\<forall>c \<in> set (hdr_value h). line_char c) \<and> hd0 (hdr_value h) \<noteq> SP"

lemma value_charI: "line_char c \<Longrightarrow> value_char c"
  using line_char_simps by (auto simp: value_char_def)

lemma parse_header_lines_render:
  "hs \<noteq> [] \<Longrightarrow> length hs \<le> n \<Longrightarrow> \<forall>h \<in> set hs. header_wf h \<Longrightarrow>
     parse_header_lines n (render_lines (map header_line hs) @ [CR]) = Some (hs, [CR])"
proof (induction hs arbitrary: n)
  case (Cons h hs)
  obtain k where n: "n = Suc k" "length hs \<le> k" using Cons.prems(2) by (cases n) auto
  have wf: "hdr_name h \<noteq> []" "\<forall>c \<in> set (hdr_name h). name_char c" "\<forall>c \<in> set (hdr_value h). line_char c"
    "hd0 (hdr_value h) \<noteq> SP" using Cons.prems(3) by (auto simp: header_wf_def)
  define rest where "rest = render_lines (map header_line hs) @ [CR]"
  define v where "v = hdr_value h @ CR # LF # rest"
  have buf: "render_lines (map header_line (h # hs)) @ [CR] = hdr_name h @ CHR '':'' # SP # v"
    by (simp add: header_line_def rest_def v_def)
  have t1: "takeWhile name_char (hdr_name h @ CHR '':'' # SP # v) = hdr_name h"
    "dropWhile name_char (hdr_name h @ CHR '':'' # SP # v) = CHR '':'' # SP # v"
    using wf by (auto simp: takeWhile_append dropWhile_append name_char_def)
  have "hd0 v \<noteq> SP \<and> hd0 v \<noteq> TAB" using wf line_char_simps
    by (cases "hdr_value h") (auto simp: v_def line_char_def ctype_simps)
  then have t5: "dropWhile (\<lambda>c. c = SP \<or> c = TAB) (SP # v) = v" by (cases v) auto
  have eta: "\<lparr> hdr_name = hdr_name h, hdr_value = hdr_value h \<rparr> = h" by simp
  have t4: "dropWhile (\<lambda>c. c = SP) (CHR '':'' # SP # v) = CHR '':'' # SP # v" by simp
  have t3: "takeWhile value_char v = hdr_value h" "dropWhile value_char v = CR # LF # rest"
    using wf value_charI by (auto simp: v_def takeWhile_append dropWhile_append value_char_def)
  have step: "parse_header_lines n (hdr_name h @ CHR '':'' # SP # v) =
      (if hd0 rest = CR \<or> hd0 rest = LF then Some ([h], rest)
       else case parse_header_lines k rest of None \<Rightarrow> None | Some (hdrs, r) \<Rightarrow> Some (h # hdrs, r))"
    unfolding n parse_header_lines.simps Let_def t1 t4 list.sel t5 t3 eta using wf(1) by simp
  show ?case
  proof (cases hs)
    case Nil
    then show ?thesis unfolding buf step by (simp add: rest_def)
  next
    case (Cons g gs)
    have g: "hdr_name g \<noteq> []" "name_char (hd (hdr_name g))"
      using Cons.prems(3) Cons by (auto simp: header_wf_def)
    have "hd0 rest = hd (hdr_name g)"
      using g(1) Cons by (cases "hdr_name g") (simp_all add: rest_def header_line_def)
    then have "hd0 rest \<noteq> CR \<and> hd0 rest \<noteq> LF" using g(2) by (auto simp: name_char_def)
    moreover have "parse_header_lines k rest = Some (hs, [CR])"
      unfolding rest_def by (rule Cons.IH) (use Cons Cons.prems(3) n(2) in auto)
    ultimately show ?thesis unfolding buf step by simp
  qed
qed simp

text \<open>A request that can be written, for a method of the table.\<close>

definition request_wf :: "string \<Rightarrow> string \<Rightarrow> string \<Rightarrow> mg_header list \<Rightarrow> bool" where
  "request_wf m u v hs \<longleftrightarrow> is_valid_http_method m \<and> isgraph (hd0 u) \<and>
     (\<forall>c \<in> set u. word_char c \<and> line_char c) \<and> (\<forall>c \<in> set v. word_char c \<and> line_char c) \<and>
     length hs \<le> MG_MAX_HEADERS \<and> (\<forall>h \<in> set hs. header_wf h)"

lemma name_line_char: "name_char c \<Longrightarrow> line_char c"
  by (auto simp: name_char_def line_char_def isprint_def)

lemma line_char_literal: "line_char SP" "line_char (CHR '':'')" "line_char (CHR ''H'')" "line_char (CHR ''T'')"
  "line_char (CHR ''P'')" "line_char (CHR ''/'')"
  by (simp_all add: line_char_def isprint_def)

lemma method_chars:
  assumes "is_valid_http_method m"
  shows "m \<noteq> []" "\<forall>c \<in> set m. word_char c \<and> line_char c" "isgraph (hd0 m)"
proof -
  have "m \<in> set (map method_name http_methods)"
    using assms by (auto simp: is_valid_http_method_def get_http_method_info_def find_None_iff)
  moreover have "list_all (\<lambda>m. m \<noteq> [] \<and> list_all (\<lambda>c. word_char c \<and> line_char c) m \<and> isgraph (hd0 m))
      (map method_name http_methods)"
    by (simp add: http_methods_def word_char_def line_char_def ctype_simps)
  ultimately show "m \<noteq> []" "\<forall>c \<in> set m. word_char c \<and> line_char c" "isgraph (hd0 m)"
    by (auto simp: list_all_iff)
qed

lemma parse_http_headers_Nil: "parse_http_headers [] = Some ([], [])"
proof -
  have "parse_header_lines n [] = Some ([], [])" for n by (cases n) (auto simp: Let_def)
  then show ?thesis by (simp add: parse_http_headers_def)
qed

lemma parse_request_lines_render:
  assumes wf: "request_wf m u v hs"
  shows "parse_request_lines (render_lines (request_line m u v # map header_line hs) @ [CR]) ri =
    (True, ri\<lparr> request_method := Some m, request_uri := Some u, http_version := Some v, http_headers := hs \<rparr>)"
proof -
  let ?hl = "render_lines (map header_line hs) @ [CR]"
  have buf: "render_lines (request_line m u v # map header_line hs) @ [CR] =
      m @ SP # u @ SP # (''HTTP/'' @ v) @ CR # LF # ?hl"
    by (simp add: request_line_def)
  have m: "is_valid_http_method m" using wf by (simp add: request_wf_def)
  have uv: "\<forall>c \<in> set u. word_char c" "\<forall>c \<in> set (''HTTP/'' @ v). word_char c" "isgraph (hd0 u)"
    using wf by (auto simp: request_wf_def word_char_def ctype_simps)
  then obtain a u' where u: "u = a # u'" "isgraph a" by (cases u) (auto simp: isgraph_def)
  have s1: "skip_to_end_of_word_and_terminate (m @ SP # u @ SP # (''HTTP/'' @ v) @ CR # LF # ?hl) False =
      (True, m, u @ SP # (''HTTP/'' @ v) @ CR # LF # ?hl)"
    by (rule skip_word_render) (use method_chars [OF m] u in auto)
  have s2: "skip_to_end_of_word_and_terminate (u @ SP # (''HTTP/'' @ v) @ CR # LF # ?hl) False =
      (True, u, (''HTTP/'' @ v) @ CR # LF # ?hl)"
    by (rule skip_word_render) (use uv in \<open>auto simp: isgraph_def\<close>)
  have t5: "take 5 (''HTTP/'' @ v) = ''HTTP/''" "drop 5 (''HTTP/'' @ v) = v"
    by (simp_all add: eval_nat_numeral)
  show ?thesis
  proof (cases hs)
    case Nil
    have s3: "skip_to_end_of_word_and_terminate ((''HTTP/'' @ v) @ CR # LF # [CR]) True = (True, ''HTTP/'' @ v, [])"
    proof -
      have "takeWhile word_char ((''HTTP/'' @ v) @ CR # LF # [CR]) = ''HTTP/'' @ v"
        "dropWhile word_char ((''HTTP/'' @ v) @ CR # LF # [CR]) = CR # LF # [CR]"
        using uv(2) by (auto simp: takeWhile_append dropWhile_append word_char_def ctype_simps)
      then show ?thesis
        unfolding skip_to_end_of_word_and_terminate_def Let_def by (simp add: isspace_def)
    qed
    have hl: "?hl = [CR]" using Nil by simp
    show ?thesis unfolding buf [unfolded hl] parse_request_lines_def s1 [unfolded hl] s2 [unfolded hl]
        prod.case Let_def s3 t5 parse_http_headers_Nil option.case using Nil m by simp
  next
    case (Cons g gs)
    then have "hd0 ?hl = hd (hdr_name g)" "name_char (hd (hdr_name g))" using wf
      by (cases "hdr_name g"; auto simp: request_wf_def header_line_def header_wf_def)+
    then have "\<not> isspace (hd0 ?hl)" by (auto simp: name_char_def isspace_def)
    then have "?hl = [] \<or> \<not> isspace (hd ?hl)" by (cases ?hl) auto
    from skip_word_render_eol [OF uv(2) this]
    have s3: "skip_to_end_of_word_and_terminate ((''HTTP/'' @ v) @ CR # LF # ?hl) True = (True, ''HTTP/'' @ v, ?hl)" .
    have h: "parse_http_headers ?hl = Some (hs, [CR])"
      unfolding parse_http_headers_def
      by (rule parse_header_lines_render) (use Cons wf in \<open>auto simp: request_wf_def\<close>)
    show ?thesis unfolding buf parse_request_lines_def s1 s2 prod.case Let_def s3 h t5
      using m by simp
  qed
qed

lemma parse_http_request_render:
  assumes wf: "request_wf m u v hs"
  shows "parse_http_request (render_request m u v hs @ body) ri =
    (int (length (render_request m u v hs)),
     ri\<lparr> remote_user := None, request_method := Some m, request_uri := Some u, http_version := Some v, http_headers := hs \<rparr>)"
proof -
  let ?ls = "request_line m u v # map header_line hs"
  let ?buf = "render_request m u v hs @ body"
  note m = method_chars [OF wf [unfolded request_wf_def, THEN conjunct1]]
  obtain a m' where a: "m = a # m'" "isgraph a" using m by (cases m) auto
  have hd: "hd ?buf = a" "?buf \<noteq> []" "dropWhile isspace ?buf = ?buf" "\<not> iscntrl a"
    using a by (auto simp: render_request_def request_line_def ctype_simps)
  have lines: "\<forall>l \<in> set ?ls. l \<noteq> [] \<and> (\<forall>c \<in> set l. line_char c)"
    using wf m line_char_literal
    by (auto simp: request_wf_def request_line_def header_line_def header_wf_def name_line_char)
  have len: "get_http_header_len ?buf = int (length (render_request m u v hs))"
    using header_len_lines [OF _ lines, of 0 body]
    by (simp add: get_http_header_len_def render_request_def del: render_lines_simps)
  have head: "take (length (render_request m u v hs) - 1) ?buf = render_lines ?ls @ [CR]"
    by (simp add: render_request_def del: render_lines_simps)
  have h0: "hd0 (render_lines ?ls @ [CR]) = a" using a by (simp add: request_line_def)
  have pos: "\<not> int (length (render_request m u v hs)) \<le> 0" by (simp add: render_request_def)
  have ne: "\<not> (a = NUL \<or> a = CR \<or> a = LF)" using a by (auto simp: isgraph_def)
  show ?thesis
    unfolding parse_http_request_def Let_def hd(3) len nat_int head h0
    using hd pos ne by (simp add: parse_request_lines_render [OF wf] reset_request_def del: render_lines_simps)
qed

section \<open>Properties\<close>

text \<open>
  C1: a request with a method of the table, a target, a version and at most 64 headers that
  is written to the wire is read back as exactly these parts, whatever follows it in the
  buffer, and the length returned is the length of what was written.
\<close>

theorem parse_http_request_roundtrip:
  assumes "request_wf m u v hs"
  shows "parse_http_request (render_request m u v hs @ body) ri =
    (int (length (render_request m u v hs)),
     ri\<lparr> remote_user := None, request_method := Some m, request_uri := Some u, http_version := Some v,
        http_headers := hs \<rparr>)"
  by (rule parse_http_request_render [OF assms])

lemma request_wf_example:
  "request_wf ''GET'' ''/a'' ''1.1'' [\<lparr> hdr_name = ''Host'', hdr_value = ''x'' \<rparr>]"
  by (simp add: request_wf_def is_valid_http_method_def get_http_method_info_def http_methods_def
      header_wf_def word_char_def line_char_def name_char_def ctype_simps MG_MAX_HEADERS_def)

lemma parse_http_request_roundtrip_witness:
  "fst (parse_http_request (render_request ''GET'' ''/a'' ''1.1'' [\<lparr> hdr_name = ''Host'', hdr_value = ''x'' \<rparr>] @ ''body'')
     (request_info test_connection)) = 28"
  unfolding parse_http_request_roundtrip [OF request_wf_example]
  by (simp add: render_request_def request_line_def header_line_def)

text \<open>
  C2: what the request parser accepts is safe to use: the length lies inside the buffer, the
  method is one of the table, target and version hold no white space and no control character,
  there are at most 64 headers, their names have no colon and no control character and their
  values no line end.
\<close>

theorem parse_http_request_safe:
  assumes "parse_http_request buf ri0 = (n, ri)" "0 < n"
  shows "n \<le> int (length buf) \<and> request_ok ri"
  using parse_http_request_accepted [OF assms] by blast

lemma parse_http_request_safe_witness:
  "\<exists>n ri. parse_http_request (render_request ''GET'' ''/a'' ''1.1'' [\<lparr> hdr_name = ''Host'', hdr_value = ''x'' \<rparr>] @ [])
     (request_info test_connection) = (n, ri) \<and> request_ok ri"
proof -
  obtain n ri where e: "parse_http_request (render_request ''GET'' ''/a'' ''1.1'' [\<lparr> hdr_name = ''Host'', hdr_value = ''x'' \<rparr>] @ [])
     (request_info test_connection) = (n, ri)" by fastforce
  then have "0 < n" unfolding parse_http_request_render [OF request_wf_example]
    by (auto simp: render_request_def)
  then show ?thesis using parse_http_request_safe [OF e] e by blast
qed

text \<open>
  C3: the result of an accepted request depends on the bytes of its head alone. A body or the
  next pipelined request behind it in the buffer changes nothing.
\<close>

theorem parse_http_request_pipelining:
  assumes "parse_http_request buf ri0 = (n, ri)" "0 < n"
  shows "parse_http_request (take (nat n) buf @ x) ri0 = (n, ri)"
  by (rule parse_http_request_prefix [OF assms])

lemma parse_http_request_pipelining_witness:
  "\<exists>n ri buf. 0 < n \<and> parse_http_request buf (request_info test_connection) = (n, ri) \<and>
     parse_http_request (take (nat n) buf @ ''GET / '') (request_info test_connection) = (n, ri)"
proof -
  obtain n ri where e: "parse_http_request (render_request ''GET'' ''/a'' ''1.1'' [\<lparr> hdr_name = ''Host'', hdr_value = ''x'' \<rparr>] @ [])
     (request_info test_connection) = (n, ri)" by fastforce
  then have n: "0 < n" unfolding parse_http_request_render [OF request_wf_example]
    by (auto simp: render_request_def)
  then show ?thesis using parse_http_request_pipelining [OF e n] e by blast
qed

end
