(* ===== verification/Dates.thy ===== *)
theory Dates
  imports C_Numbers
begin

text \<open>
  Dates in HTTP headers (\<open>src/civetweb.c\<close>): the code's own \<open>timegm\<close> (built with
  \<open>NEED_TIMEGM\<close>), \<open>gmt_time_string\<close>, \<open>get_month_index\<close> and \<open>parse_date_string\<close>, with the C
  library functions they call: \<open>gmtime\<close>, \<open>strftime\<close> for the one format used, and \<open>sscanf\<close> for
  the conversions used.
\<close>

section \<open>Calendar\<close>

record tm =
  tm_sec :: int
  tm_min :: int
  tm_hour :: int
  tm_mday :: int
  tm_mon :: int
  tm_year :: int
  tm_wday :: int

definition is_leap :: "int \<Rightarrow> bool" where
  "is_leap y \<longleftrightarrow> (y mod 4 = 0 \<and> y mod 100 \<noteq> 0) \<or> y mod 400 = 0"

definition count_leap :: "int \<Rightarrow> int" where
  "count_leap y = (y - 1969) div 4 - (y - 1901) div 100 + (y - 1601) div 400"

definition ydays :: "int list" where
  "ydays = [0, 31, 59, 90, 120, 151, 181, 212, 243, 273, 304, 334, 365]"

definition timegm :: "tm \<Rightarrow> int" where
  "timegm t =
     (let year = tm_year t + 1900; mon = tm_mon t; mday = tm_mday t - 1;
          hour = tm_hour t; min = tm_min t; sec = tm_sec t
      in if year < 1970 \<or> mon < 0 \<or> mon > 11 \<or> mday < 0 \<or>
            mday \<ge> ydays ! nat (mon + 1) - ydays ! nat mon + (if mon = 1 \<and> is_leap year then 1 else 0) \<or>
            hour < 0 \<or> hour > 23 \<or> min < 0 \<or> min > 59 \<or> sec < 0 \<or> sec > 60
         then -1
         else let days = (year - 1970) * 365 + mday +
                         (ydays ! nat mon + (if mon > 1 \<and> is_leap year then 1 else 0)) + count_leap year
              in ((days * 24 + hour) * 60 + min) * 60 + sec)"

text \<open>The library's \<open>gmtime\<close> for times from 1970 on: count off the years, then the months.\<close>

definition year_length :: "int \<Rightarrow> int" where
  "year_length y = (if is_leap y then 366 else 365)"

definition month_length :: "int \<Rightarrow> nat \<Rightarrow> int" where
  "month_length y m = ydays ! (m + 1) - ydays ! m + (if m = 1 \<and> is_leap y then 1 else 0)"

function year_and_day :: "int \<Rightarrow> int \<Rightarrow> int \<times> int" where
  "year_and_day y d = (if d < year_length y then (y, d) else year_and_day (y + 1) (d - year_length y))"
  by pat_completeness auto
termination
  by (relation "measure (\<lambda>(y, d). nat d)") (auto simp: year_length_def split: if_splits)

declare year_and_day.simps [simp del]

fun month_and_day :: "int \<Rightarrow> nat list \<Rightarrow> int \<Rightarrow> nat \<times> int" where
  "month_and_day y [] d = (0, d)"
| "month_and_day y (m # ms) d = (if d < month_length y m then (m, d) else month_and_day y ms (d - month_length y m))"

definition gmtime :: "int \<Rightarrow> tm" where
  "gmtime t =
     (let days = t div 86400; s = t mod 86400;
          (y, yd) = year_and_day 1970 days;
          (m, d) = month_and_day y [0..<12] yd
      in \<lparr> tm_sec = s mod 60, tm_min = s div 60 mod 60, tm_hour = s div 3600, tm_mday = d + 1,
           tm_mon = int m, tm_year = y - 1900, tm_wday = (days + 4) mod 7 \<rparr>)"

section \<open>Printing and reading\<close>

definition month_names :: "string list" where
  "month_names = [''Jan'', ''Feb'', ''Mar'', ''Apr'', ''May'', ''Jun'',
                  ''Jul'', ''Aug'', ''Sep'', ''Oct'', ''Nov'', ''Dec'']"

definition day_names :: "string list" where
  "day_names = [''Sun'', ''Mon'', ''Tue'', ''Wed'', ''Thu'', ''Fri'', ''Sat'']"

text \<open>\<open>%02d\<close>.\<close>

definition show2 :: "int \<Rightarrow> string" where
  "show2 i = (if i < 10 then CHR ''0'' # show_int i else show_int i)"

text \<open>\<open>gmt_time_string\<close> with the format \<open>%a, %d %b %Y %H:%M:%S GMT\<close>; \<open>None\<close> is a NULL pointer.\<close>

definition gmt_time_string :: "int option \<Rightarrow> string" where
  "gmt_time_string t =
     (case t of
        Some v \<Rightarrow>
          let m = gmtime v
          in day_names ! nat (tm_wday m) @ '', '' @ show2 (tm_mday m) @ '' '' @ month_names ! nat (tm_mon m) @
             '' '' @ show_int (tm_year m + 1900) @ '' '' @ show2 (tm_hour m) @ '':'' @ show2 (tm_min m) @ '':'' @
             show2 (tm_sec m) @ '' GMT''
      | None \<Rightarrow> ''Thu, 01 Jan 1970 00:00:00 GMT'')"

fun index_of :: "string \<Rightarrow> string list \<Rightarrow> nat \<Rightarrow> int" where
  "index_of s [] i = -1"
| "index_of s (n # ns) i = (if s = n then int i else index_of s ns (i + 1))"

definition get_month_index :: "string \<Rightarrow> int" where
  "get_month_index s = index_of s month_names 0"

text \<open>
  The conversions of \<open>sscanf\<close> in use: a number, a word of at most three characters, the same
  without storing it, a character to be matched, and white space to be skipped. The
  result is the list of stored values; it is shorter if a conversion or a match failed.
\<close>

datatype scan_item = Scan_int | Scan_str3 | Scan_skip3 | Scan_char char | Scan_space
datatype scan_value = Int_value int | Str_value string

definition word3 :: "string \<Rightarrow> string" where
  "word3 s = takeWhile (\<lambda>c. \<not> isspace c) (take 3 s)"

fun sscanf :: "string \<Rightarrow> scan_item list \<Rightarrow> scan_value list" where
  "sscanf s [] = []"
| "sscanf s (Scan_int # f) =
     (case scan_number 10 s of
        None \<Rightarrow> []
      | Some (neg, v, rest) \<Rightarrow> Int_value (to_signed 32 (if neg then - int v else int v)) # sscanf rest f)"
| "sscanf s (Scan_str3 # f) =
     (let s1 = dropWhile isspace s; w = word3 s1
      in if w = [] then [] else Str_value w # sscanf (drop (length w) s1) f)"
| "sscanf s (Scan_skip3 # f) =
     (let s1 = dropWhile isspace s; w = word3 s1
      in if w = [] then [] else sscanf (drop (length w) s1) f)"
| "sscanf s (Scan_char c # f) = (if s \<noteq> [] \<and> hd s = c then sscanf (tl s) f else [])"
| "sscanf s (Scan_space # f) = sscanf (dropWhile isspace s) f"

definition clock_items :: "scan_item list" where
  "clock_items = [Scan_int, Scan_space, Scan_int, Scan_char (CHR '':''), Scan_int, Scan_char (CHR '':''), Scan_int]"

definition date_formats :: "scan_item list list" where
  "date_formats =
     [[Scan_int, Scan_char (CHR ''/''), Scan_str3, Scan_char (CHR ''/'')] @ clock_items,
      [Scan_int, Scan_space, Scan_str3, Scan_space] @ clock_items,
      [Scan_skip3, Scan_char (CHR '',''), Scan_space, Scan_int, Scan_space, Scan_str3, Scan_space] @ clock_items,
      [Scan_int, Scan_char (CHR ''-''), Scan_str3, Scan_char (CHR ''-'')] @ clock_items]"

text \<open>The first format that gives all six values.\<close>

fun first_scan :: "string \<Rightarrow> scan_item list list \<Rightarrow> scan_value list" where
  "first_scan s [] = []"
| "first_scan s (f # fs) = (let r = sscanf s f in if length r = 6 then r else first_scan s fs)"

definition parse_date_string :: "string \<Rightarrow> int" where
  "parse_date_string datetime =
     (case first_scan datetime date_formats of
        [Int_value day, Str_value month_str, Int_value year, Int_value hour, Int_value minute, Int_value second] \<Rightarrow>
          let month = get_month_index month_str
          in if month \<ge> 0 \<and> year \<ge> 1970
             then timegm \<lparr> tm_sec = second, tm_min = minute, tm_hour = hour, tm_mday = day, tm_mon = month,
                           tm_year = year - 1900, tm_wday = 0 \<rparr>
             else 0
      | _ \<Rightarrow> 0)"

section \<open>\<open>timegm\<close> inverts \<open>gmtime\<close>\<close>

definition days_before :: "int \<Rightarrow> int" where
  "days_before y = (y - 1970) * 365 + count_leap y"

lemma div_step:
  assumes "0 < (n::int)"
  shows "(x + 1) div n = x div n + (if (x + 1) mod n = 0 then 1 else 0)"
proof -
  have e: "x + 1 = n * (x div n) + (x mod n + 1)" by simp
  have r: "0 \<le> x mod n" "x mod n < n" using assms by auto
  show ?thesis
  proof (cases "x mod n + 1 = n")
    case True
    then have "x + 1 = n * (x div n + 1) + 0" using e by (simp add: algebra_simps)
    from int_div_pos_eq [OF this] int_mod_pos_eq [OF this] show ?thesis using assms by simp
  next
    case False
    from int_div_pos_eq [OF e] int_mod_pos_eq [OF e] False r show ?thesis by simp
  qed
qed

lemma days_before_Suc: "days_before (y + 1) = days_before y + year_length y"
proof -
  have m: "(y + 1 - 1969) mod 4 = y mod 4" "(y + 1 - 1901) mod 100 = y mod 100" "(y + 1 - 1601) mod 400 = y mod 400"
    using mod_mult_self1 [of y "-492" 4] mod_mult_self1 [of y "-19" 100] mod_mult_self1 [of y "-4" 400]
    by simp_all
  have e: "y - 1969 + 1 = y + 1 - 1969" "y - 1901 + 1 = y + 1 - 1901" "y - 1601 + 1 = y + 1 - 1601" by simp_all
  have a: "(y + 1 - 1969) div 4 = (y - 1969) div 4 + (if y mod 4 = 0 then 1 else 0)"
    by (rule div_step [of 4 "y - 1969", unfolded e m, OF zero_less_numeral])
  have b: "(y + 1 - 1901) div 100 = (y - 1901) div 100 + (if y mod 100 = 0 then 1 else 0)"
    by (rule div_step [of 100 "y - 1901", unfolded e m, OF zero_less_numeral])
  have c: "(y + 1 - 1601) div 400 = (y - 1601) div 400 + (if y mod 400 = 0 then 1 else 0)"
    by (rule div_step [of 400 "y - 1601", unfolded e m, OF zero_less_numeral])
  have d: "y mod 400 = 0 \<Longrightarrow> y mod 100 = 0" "y mod 100 = 0 \<Longrightarrow> y mod 4 = 0"
    using dvd_trans [of 100 400 y] dvd_trans [of 4 100 y] by (auto simp: mod_eq_0_iff_dvd)
  have "days_before (y + 1) = days_before y + 365 +
      ((if y mod 4 = 0 then 1 else 0) - (if y mod 100 = 0 then 1 else 0) + (if y mod 400 = 0 then 1 else 0))"
    unfolding days_before_def count_leap_def a b c by (simp only: algebra_simps)
  also have "\<dots> = days_before y + year_length y"
    unfolding year_length_def is_leap_def using d by (cases "y mod 400 = 0"; cases "y mod 100 = 0"; simp)
  finally show ?thesis .
qed

lemma day_seconds:
  assumes "0 \<le> s" "s < 86400"
  shows "(s div 3600 * 60 + s div 60 mod 60) * 60 + s mod 60 = (s::int)" "0 \<le> s div 3600" "s div 3600 \<le> 23"
    "0 \<le> s div 60 mod 60" "s div 60 mod 60 \<le> 59" "0 \<le> s mod 60" "s mod 60 \<le> 59"
proof -
  have "s div 3600 = s div 60 div 60" using zdiv_zmult2_eq [of 60 s 60] by simp
  then have "s div 3600 * 60 + s div 60 mod 60 = s div 60" by simp
  then show "(s div 3600 * 60 + s div 60 mod 60) * 60 + s mod 60 = s" by simp
  have "s div 3600 \<le> 86399 div 3600" by (rule zdiv_mono1) (use assms in auto)
  then show "s div 3600 \<le> 23" by simp
  show "0 \<le> s div 3600" using assms by simp
  show "0 \<le> s div 60 mod 60" "s div 60 mod 60 \<le> 59" "0 \<le> s mod 60" "s mod 60 \<le> 59"
    using pos_mod_bound [of 60 "s div 60"] pos_mod_bound [of 60 s] by simp_all
qed

lemma year_and_day_facts:
  "0 \<le> d \<Longrightarrow> year_and_day y d = (y', d') \<Longrightarrow>
     days_before y' + d' = days_before y + d \<and> 0 \<le> d' \<and> d' < year_length y' \<and> y \<le> y' \<and> y' \<le> y + d"
proof (induction y d arbitrary: y' d' rule: year_and_day.induct)
  case (1 y d)
  show ?case
  proof (cases "d < year_length y")
    case True
    then show ?thesis using 1(2,3) by (subst (asm) year_and_day.simps) auto
  next
    case False
    have l: "1 \<le> year_length y" by (simp add: year_length_def)
    have "year_and_day (y + 1) (d - year_length y) = (y', d')"
      using 1(3) False by (subst (asm) year_and_day.simps) auto
    then show ?thesis using 1(1) [OF False _ ] False l by (auto simp: days_before_Suc)
  qed
qed

definition days_before_month :: "int \<Rightarrow> nat \<Rightarrow> int" where
  "days_before_month y m = ydays ! m + (if m > 1 \<and> is_leap y then 1 else 0)"

lemma days_before_month_Suc: "days_before_month y (Suc m) = days_before_month y m + month_length y m"
  by (auto simp: days_before_month_def month_length_def)

lemma days_before_month_12: "days_before_month y 12 = year_length y"
  by (simp add: days_before_month_def ydays_def year_length_def)

lemma month_and_day_facts:
  "k \<le> 12 \<Longrightarrow> 0 \<le> d \<Longrightarrow> days_before_month y (12 - k) + d < year_length y \<Longrightarrow>
     month_and_day y [12 - k..<12] d = (m, d') \<Longrightarrow>
     days_before_month y m + d' = days_before_month y (12 - k) + d \<and> 0 \<le> d' \<and> d' < month_length y m \<and> m < 12"
proof (induction k arbitrary: d)
  case 0
  then show ?case using days_before_month_12 [of y] by simp
next
  case (Suc k)
  define j where "j = 12 - Suc k"
  have j: "12 - k = Suc j" "j < 12" using Suc.prems(1) by (auto simp: j_def)
  have l: "[j..<12] = j # [Suc j..<12]" using j(2) by (simp add: upt_conv_Cons)
  show ?case
  proof (cases "d < month_length y j")
    case True
    then show ?thesis using Suc.prems j(2) l unfolding j_def [symmetric] by auto
  next
    case False
    then have "month_and_day y [12 - k..<12] (d - month_length y j) = (m, d')"
      using Suc.prems(4) l j unfolding j_def [symmetric] by simp
    then show ?thesis using Suc.IH [of "d - month_length y j"] Suc.prems False
        days_before_month_Suc [of y j] unfolding j_def [symmetric] j by simp
  qed
qed

lemma gmtime_facts:
  assumes "0 \<le> t"
  obtains y m d where "gmtime t = \<lparr> tm_sec = t mod 86400 mod 60, tm_min = t mod 86400 div 60 mod 60,
      tm_hour = t mod 86400 div 3600, tm_mday = d + 1, tm_mon = int m, tm_year = y - 1900,
      tm_wday = (t div 86400 + 4) mod 7 \<rparr>"
    "days_before y + days_before_month y m + d = t div 86400" "0 \<le> d" "d < month_length y m" "m < 12"
    "1970 \<le> y" "y \<le> 1970 + t div 86400"
proof -
  obtain y yd where y: "year_and_day 1970 (t div 86400) = (y, yd)" by fastforce
  obtain m d where m: "month_and_day y [0..<12] yd = (m, d)" by fastforce
  have d0: "days_before 1970 = 0" by (simp add: days_before_def count_leap_def)
  have t: "0 \<le> t div 86400" using assms by simp
  note yf = year_and_day_facts [OF t y]
  have "days_before_month y (12 - 12) + yd < year_length y"
    using yf by (simp add: days_before_month_def ydays_def)
  note mf = month_and_day_facts [of 12, OF _ _ this, of m d]
  show ?thesis
    by (rule that [of d m y]) (use y m yf mf d0 in \<open>auto simp: gmtime_def Let_def days_before_month_def ydays_def\<close>)
qed

lemma timegm_valid:
  assumes "0 \<le> d" "d < month_length y m" "m < 12" "1970 \<le> y"
    and "0 \<le> h" "h \<le> 23" "0 \<le> mi" "mi \<le> 59" "0 \<le> s" "s \<le> 60"
  shows "timegm \<lparr> tm_sec = s, tm_min = mi, tm_hour = h, tm_mday = d + 1, tm_mon = int m, tm_year = y - 1900, tm_wday = w \<rparr> =
    (days_before y + days_before_month y m + d) * 86400 + ((h * 60 + mi) * 60 + s)"
proof -
  have n: "nat (int m + 1) = m + 1" "int m = 1 \<longleftrightarrow> m = 1" "int m > 1 \<longleftrightarrow> m > 1" "y - 1900 + 1900 = y" "d + 1 - 1 = d"
    by linarith+
  have "\<not> d \<ge> ydays ! (m + 1) - ydays ! m + (if m = 1 \<and> is_leap y then 1 else 0)"
    using assms(2) unfolding month_length_def by linarith
  moreover have "\<not> y < 1970" "\<not> int m < 0" "\<not> int m > 11" "\<not> d < 0" "\<not> h < 0" "\<not> h > 23" "\<not> mi < 0" "\<not> mi > 59"
    "\<not> s < 0" "\<not> s > 60" using assms by linarith+
  ultimately have cond: "\<not> (y < 1970 \<or> int m < 0 \<or> int m > 11 \<or> d < 0 \<or>
      d \<ge> ydays ! (m + 1) - ydays ! m + (if m = 1 \<and> is_leap y then 1 else 0) \<or>
      h < 0 \<or> h > 23 \<or> mi < 0 \<or> mi > 59 \<or> s < 0 \<or> s > 60)" by blast
  have sum: "((((a + d + b + c) * 24 + h) * 60 + mi) * 60 + s) = (a + c + b + d) * 86400 + ((h * 60 + mi) * 60 + s)"
    for a b c :: int by simp
  show ?thesis
    unfolding timegm_def Let_def tm.simps n nat_int if_not_P [OF cond] days_before_def days_before_month_def
    by (rule sum)
qed

lemma timegm_gmtime:
  assumes "0 \<le> t" shows "timegm ((gmtime t)\<lparr> tm_wday := w \<rparr>) = t"
proof -
  obtain y m d where g: "gmtime t = \<lparr> tm_sec = t mod 86400 mod 60, tm_min = t mod 86400 div 60 mod 60,
      tm_hour = t mod 86400 div 3600, tm_mday = d + 1, tm_mon = int m, tm_year = y - 1900,
      tm_wday = (t div 86400 + 4) mod 7 \<rparr>"
    and f: "days_before y + days_before_month y m + d = t div 86400" "0 \<le> d" "d < month_length y m" "m < 12"
    "1970 \<le> y" by (rule gmtime_facts [OF assms])
  define s where "s = t mod 86400"
  have s: "0 \<le> s" "s < 86400" by (auto simp: s_def)
  note ds = day_seconds [OF s]
  have t: "t = t div 86400 * 86400 + s" by (simp add: s_def)
  have s60: "s mod 60 \<le> 60" using ds(7) by linarith
  have "timegm ((gmtime t)\<lparr> tm_wday := w \<rparr>) = t div 86400 * 86400 + s"
    unfolding g tm.simps s_def [symmetric] timegm_valid [OF f(2-5) ds(2-6) s60] ds(1) f(1) ..
  then show ?thesis using t by simp
qed

section \<open>Reading back the printed date\<close>

lemma digits_value_zero: "digits_value 10 0 (CHR ''0'' # s) = digits_value 10 0 s"
  by (simp add: digit_of_def ctype_simps)

lemma scan_show_int:
  assumes "0 \<le> v" "nondigit_start 10 r" "tolower (hd0 r) \<noteq> CHR ''x''"
  shows "scan_number 10 (show_int v @ r) = Some (False, nat v, r)"
  using scan_number_show [of 10 r "nat v"] assms by (simp add: show_int_def show_nat_def)

lemma scan_show2:
  assumes "0 \<le> v" "nondigit_start 10 r" "tolower (hd0 r) \<noteq> CHR ''x''"
  shows "scan_number 10 (show2 v @ r) = Some (False, nat v, r)"
proof (cases "v < 10")
  case True
  have "scan_number 10 (show_int v @ r) = Some (False, nat v, r)" by (rule scan_show_int [OF assms])
  moreover have "show_int v = [hex_digit (nat v)]"
    using True assms(1) show_base.simps [of 10 "nat v"] by (simp add: show_int_def show_nat_def nat_less_iff)
  moreover have "nat v < 10" using True assms(1) by simp
  moreover have "scan_number 10 (CHR ''0'' # t) = (case digits_value 10 0 (CHR ''0'' # t) of (v, rest) \<Rightarrow> Some (False, v, rest))" for t
    by (simp add: scan_number_def Let_def digit_of_def ctype_simps)
  moreover have "digits_value 10 0 (hex_digit (nat v) # r) = (nat v, r)"
    using digit_of_hex_digit [of "nat v" 10] digits_value_nondigit [OF assms(2)] \<open>nat v < 10\<close> by simp
  moreover have "digit_of 10 (CHR ''0'') = Some 0" by (simp add: digit_of_def ctype_simps)
  ultimately show ?thesis using True by (simp add: show2_def)
next
  case False
  then show ?thesis using scan_show_int [OF assms] by (simp add: show2_def)
qed

text \<open>Each item of the format reads back what was printed for it.\<close>

lemma digit_first:
  assumes "0 \<le> v"
  shows "\<not> isspace (hd (show_int v))" "\<not> isspace (hd (show2 v))" "show_int v \<noteq> []" "show2 v \<noteq> []"
proof -
  obtain c r where c: "show_base 10 (nat v) = c # r" using show_base_nonempty by (meson neq_Nil_conv)
  then obtain d where "d < 10" "c = hex_digit d"
    using show_base_digits [of 10 c "nat v"] by auto
  then have "\<exists>d < 16. c = hex_digit d" by (intro exI [of _ d]) simp
  then show "\<not> isspace (hd (show_int v))" "show_int v \<noteq> []"
    using assms c hex_digit_class(1) by (auto simp: show_int_def show_nat_def)
  then show "\<not> isspace (hd (show2 v))" "show2 v \<noteq> []"
    by (auto simp: show2_def isspace_def)
qed

lemma skip_digit: "0 \<le> v \<Longrightarrow> dropWhile isspace (show_int v @ r) = show_int v @ r"
  "0 \<le> v \<Longrightarrow> dropWhile isspace (show2 v @ r) = show2 v @ r"
  using digit_first [of v] by (cases "show_int v"; cases "show2 v"; simp)+

definition int_range :: "int \<Rightarrow> bool" where "int_range v \<longleftrightarrow> 0 \<le> v \<and> v < 2 ^ 31"

lemma sscanf_int:
  assumes "int_range v" "nondigit_start 10 r" "tolower (hd0 r) \<noteq> CHR ''x''"
  shows "sscanf (show_int v @ r) (Scan_int # f) = Int_value v # sscanf r f"
    "sscanf (show2 v @ r) (Scan_int # f) = Int_value v # sscanf r f"
  using assms scan_show_int [of v r] scan_show2 [of v r] to_signed_id [of 32 v] by (simp_all add: int_range_def)

lemma nondigit_sep: "nondigit_start 10 (c # r)" "tolower (hd0 (c # r)) \<noteq> CHR ''x''" if "c = SP \<or> c = CHR '':''"
  using that by (auto simp: nondigit_start_def digit_of_def tolower_def ctype_simps)

definition word_of_3 :: "string \<Rightarrow> bool" where
  "word_of_3 w \<longleftrightarrow> length w = 3 \<and> list_all isalpha w"

lemma word_of_3_names: "D \<in> set day_names \<Longrightarrow> word_of_3 D" "M \<in> set month_names \<Longrightarrow> word_of_3 M"
  by (auto simp: day_names_def month_names_def word_of_3_def ctype_simps)

lemma alpha_facts:
  assumes "isalpha c" shows "\<not> isspace c" "c \<noteq> CHR ''-''" "c \<noteq> CHR ''+''" "digit_of 10 c = None"
  using assms by (auto simp: ctype_simps digit_of_def)

lemma word_of_3_E:
  assumes "word_of_3 w"
  obtains a b c where "w = [a, b, c]" "isalpha a" "isalpha b" "isalpha c"
  using assms by (auto simp: word_of_3_def length_Suc_conv numeral_3_eq_3)

lemma word3_word: "word_of_3 w \<Longrightarrow> dropWhile isspace (w @ r) = w @ r \<and> word3 (w @ r) = w \<and> w \<noteq> [] \<and> length w = 3"
  by (elim word_of_3_E) (simp add: word3_def alpha_facts)

lemma sscanf_day_name:
  assumes "word_of_3 D"
  shows "sscanf (D @ CHR '','' # SP # r) (Scan_skip3 # Scan_char (CHR '','') # Scan_space # f) = sscanf (dropWhile isspace r) f"
    "sscanf (D @ r) (Scan_int # f) = []"
proof -
  show "sscanf (D @ CHR '','' # SP # r) (Scan_skip3 # Scan_char (CHR '','') # Scan_space # f) = sscanf (dropWhile isspace r) f"
    using word3_word [OF assms] by (simp add: Let_def isspace_def)
  from assms show "sscanf (D @ r) (Scan_int # f) = []"
    by (elim word_of_3_E) (simp add: scan_number_def Let_def alpha_facts)
qed

lemma sscanf_month_name:
  assumes "word_of_3 M"
  shows "sscanf (M @ SP # r) (Scan_str3 # Scan_space # f) = Str_value M # sscanf (dropWhile isspace r) f"
    "dropWhile isspace (M @ r) = M @ r"
  using word3_word [OF assms] by (simp_all add: Let_def isspace_def)

lemma month_index_name: "m < 12 \<Longrightarrow> get_month_index (month_names ! m) = int m"
proof -
  have "\<forall>m \<in> set [0..<12]. get_month_index (month_names ! m) = int m"
    by (simp add: get_month_index_def month_names_def upt_rec)
  then show "m < 12 \<Longrightarrow> get_month_index (month_names ! m) = int m" by simp
qed

lemma sscanf_http_date:
  assumes D: "word_of_3 D" and M: "word_of_3 M"
    and r: "int_range d" "int_range y" "int_range h" "int_range mi" "int_range s"
  shows "first_scan (D @ '', '' @ show2 d @ '' '' @ M @ '' '' @ show_int y @ '' '' @ show2 h @ '':'' @ show2 mi @ '':'' @ show2 s @ '' GMT'')
      date_formats = [Int_value d, Str_value M, Int_value y, Int_value h, Int_value mi, Int_value s]"
proof -
  have pos: "0 \<le> d" "0 \<le> y" "0 \<le> h" "0 \<le> mi" "0 \<le> s" using r by (auto simp: int_range_def)
  note items = sscanf_int [OF r(1) nondigit_sep] sscanf_int [OF r(2) nondigit_sep] sscanf_int [OF r(3) nondigit_sep]
    sscanf_int [OF r(4) nondigit_sep] sscanf_int [OF r(5) nondigit_sep]
  note skips = skip_digit [OF pos(1)] skip_digit [OF pos(2)] skip_digit [OF pos(3)]
  let ?t = "show2 d @ SP # M @ SP # show_int y @ SP # show2 h @ CHR '':'' # show2 mi @ CHR '':'' # show2 s @ SP # ''GMT''"
  have bad: "sscanf (D @ CHR '','' # SP # ?t) (Scan_int # f) = []" for f by (rule sscanf_day_name(2) [OF D])
  have sp: "sscanf (SP # u) (Scan_space # f) = sscanf (dropWhile isspace u) f" for u f
    by (simp add: isspace_def)
  have good: "sscanf (D @ CHR '','' # SP # ?t) (date_formats ! 2) =
      [Int_value d, Str_value M, Int_value y, Int_value h, Int_value mi, Int_value s]"
    by (simp add: date_formats_def clock_items_def sscanf_day_name(1) [OF D] sscanf_month_name [OF M] items skips sp
        del: sscanf.simps(2-4,6))
  have "first_scan (D @ CHR '','' # SP # ?t) date_formats = sscanf (D @ CHR '','' # SP # ?t) (date_formats ! 2)"
    using good by (simp add: date_formats_def bad Let_def del: sscanf.simps(2))
  then show ?thesis using good by simp
qed

section \<open>Properties\<close>

text \<open>
  C18: the date a response carries is read back to the same time: for every time from 1970 on
  (up to the year 300000) \<open>parse_date_string\<close> inverts \<open>gmt_time_string\<close>, so the value of a
  Last-Modified header compares equal when it comes back in If-Modified-Since.
\<close>

theorem parse_date_roundtrip:
  assumes "0 \<le> t" "t < 10 ^ 13"
  shows "parse_date_string (gmt_time_string (Some t)) = t"
proof -
  obtain y m d where g: "gmtime t = \<lparr> tm_sec = t mod 86400 mod 60, tm_min = t mod 86400 div 60 mod 60,
      tm_hour = t mod 86400 div 3600, tm_mday = d + 1, tm_mon = int m, tm_year = y - 1900,
      tm_wday = (t div 86400 + 4) mod 7 \<rparr>"
    and f: "0 \<le> d" "d < month_length y m" "m < 12" "1970 \<le> y" "y \<le> 1970 + t div 86400"
    by (rule gmtime_facts [OF assms(1)])
  define s where "s = t mod 86400"
  have "0 \<le> s" "s < 86400" by (auto simp: s_def)
  note ds = day_seconds [OF this]
  have "t div 86400 \<le> 10 ^ 13 div 86400" by (rule zdiv_mono1) (use assms in auto)
  then have y: "int_range y" using f by (simp add: int_range_def)
  have "month_length y m \<le> 366"
  proof -
    have "\<forall>m \<in> set [0..<12]. ydays ! (m + 1) - ydays ! m \<le> 31" by (simp add: ydays_def upt_rec)
    then have "ydays ! (m + 1) - ydays ! m \<le> 31" using f(3) by (metis atLeastLessThan_iff atLeast_upt le0 set_upt)
    then show ?thesis by (auto simp: month_length_def)
  qed
  then have d: "int_range (d + 1)" using f by (simp add: int_range_def)
  have hms: "int_range (s div 3600)" "int_range (s div 60 mod 60)" "int_range (s mod 60)"
    using ds(2-7) by (simp_all add: int_range_def)
  have "nat ((t div 86400 + 4) mod 7) < length day_names" by (simp add: day_names_def nat_less_iff)
  then have D: "word_of_3 (day_names ! nat ((t div 86400 + 4) mod 7))" by (simp add: word_of_3_names)
  have M: "word_of_3 (month_names ! m)" using f(3) nth_mem [of m month_names]
    by (intro word_of_3_names(2)) (simp add: month_names_def)
  have scan: "first_scan (gmt_time_string (Some t)) date_formats =
      [Int_value (d + 1), Str_value (month_names ! m), Int_value y, Int_value (s div 3600),
       Int_value (s div 60 mod 60), Int_value (s mod 60)]"
    unfolding gmt_time_string_def option.case Let_def g tm.simps s_def [symmetric] nat_int
    using sscanf_http_date [OF D M d y hms] by simp
  have tg: "timegm ((gmtime t)\<lparr> tm_wday := 0 \<rparr>) = t" by (rule timegm_gmtime [OF assms(1)])
  have fields: "(gmtime t)\<lparr> tm_wday := 0 \<rparr> = \<lparr> tm_sec = s mod 60, tm_min = s div 60 mod 60, tm_hour = s div 3600,
      tm_mday = d + 1, tm_mon = int m, tm_year = y - 1900, tm_wday = 0 \<rparr>"
    unfolding g s_def tm.simps ..
  have cond: "0 \<le> int m \<and> 1970 \<le> y" using f(4) by simp
  show ?thesis
    unfolding parse_date_string_def scan list.case scan_value.case Let_def month_index_name [OF f(3)] if_P [OF cond]
    using tg unfolding fields .
qed

lemma parse_date_roundtrip_witness:
  "parse_date_string (gmt_time_string (Some 784111777)) = 784111777"
  by (rule parse_date_roundtrip) simp_all

end
