(* ===== verification/Response.thy ===== *)
theory Response
  imports Http_Parser Dates
begin

text \<open>
  The response head: \<open>src/response.inl\<close> (start, add, add lines, send, with response
  buffering, HTTP/1), \<open>mg_get_response_code_text\<close> and the groups of headers sent with every
  answer (\<open>send_no_cache_header\<close> to \<open>send_cors_header\<close> of \<open>src/civetweb.c\<close>). Memory is
  never exhausted in the model. A NULL argument is \<open>None\<close>; the connection is never NULL.
\<close>

section \<open>Status texts\<close>

definition response_code_texts :: "(int \<times> string) list" where
  "response_code_texts = [
     (100, ''Continue''),
     (101, ''Switching Protocols''),
     (102, ''Processing''),
     (200, ''OK''),
     (201, ''Created''),
     (202, ''Accepted''),
     (203, ''Non-Authoritative Information''),
     (204, ''No Content''),
     (205, ''Reset Content''),
     (206, ''Partial Content''),
     (207, ''Multi-Status''),
     (208, ''Already Reported''),
     (226, ''IM used''),
     (300, ''Multiple Choices''),
     (301, ''Moved Permanently''),
     (302, ''Found''),
     (303, ''See Other''),
     (304, ''Not Modified''),
     (305, ''Use Proxy''),
     (307, ''Temporary Redirect''),
     (308, ''Permanent Redirect''),
     (400, ''Bad Request''),
     (401, ''Unauthorized''),
     (402, ''Payment Required''),
     (403, ''Forbidden''),
     (404, ''Not Found''),
     (405, ''Method Not Allowed''),
     (406, ''Not Acceptable''),
     (407, ''Proxy Authentication Required''),
     (408, ''Request Time-out''),
     (409, ''Conflict''),
     (410, ''Gone''),
     (411, ''Length Required''),
     (412, ''Precondition Failed''),
     (413, ''Request Entity Too Large''),
     (414, ''Request-URI Too Large''),
     (415, ''Unsupported Media Type''),
     (416, ''Requested range not satisfiable''),
     (417, ''Expectation Failed''),
     (421, ''Misdirected Request''),
     (422, ''Unproccessable entity''),
     (423, ''Locked''),
     (424, ''Failed Dependency''),
     (426, ''Upgrade Required''),
     (428, ''Precondition Required''),
     (429, ''Too Many Requests''),
     (431, ''Request Header Fields Too Large''),
     (451, ''Unavailable For Legal Reasons''),
     (500, ''Internal Server Error''),
     (501, ''Not Implemented''),
     (502, ''Bad Gateway''),
     (503, ''Service Unavailable''),
     (504, ''Gateway Time-out''),
     (505, ''HTTP Version not supported''),
     (506, ''Variant Also Negotiates''),
     (507, ''Insufficient Storage''),
     (508, ''Loop Detected''),
     (510, ''Not Extended''),
     (511, ''Network Authentication Required''),
     (418, ''I am a teapot''),
     (419, ''Authentication Timeout''),
     (420, ''Enhance Your Calm''),
     (440, ''Login Timeout''),
     (509, ''Bandwidth Limit Exceeded'')]"

definition mg_get_response_code_text :: "int \<Rightarrow> string" where
  "mg_get_response_code_text response_code =
     (case map_of response_code_texts response_code of
        Some s \<Rightarrow> s
      | None \<Rightarrow>
          if response_code \<ge> 100 \<and> response_code < 200 then ''Information''
          else if response_code \<ge> 200 \<and> response_code < 300 then ''Success''
          else if response_code \<ge> 300 \<and> response_code < 400 then ''Redirection''
          else if response_code \<ge> 400 \<and> response_code < 500 then ''Client Error''
          else if response_code \<ge> 500 \<and> response_code < 600 then ''Server Error''
          else [])"

section \<open>Building the head\<close>

definition CRLF :: string where "CRLF = [CR, LF]"

definition free_buffered_response_header_list :: "mg_connection \<Rightarrow> mg_connection" where
  "free_buffered_response_header_list conn = conn\<lparr> response_info := (response_info conn)\<lparr> rsp_headers := [] \<rparr> \<rparr>"

text \<open>The guard of all four operations: only a server's HTTP connection.\<close>

definition not_server :: "mg_connection \<Rightarrow> bool" where
  "not_server conn \<longleftrightarrow> connection_type conn \<noteq> CONNECTION_TYPE_REQUEST \<or> protocol_type conn = PROTOCOL_TYPE_WEBSOCKET"

definition mg_response_header_start :: "mg_connection \<Rightarrow> int \<Rightarrow> int \<times> mg_connection" where
  "mg_response_header_start conn status =
     (if status < 100 \<or> status > 999 then (-1, conn)
      else if not_server conn then (-2, conn)
      else if request_state conn \<noteq> 0 then (-3, conn)
      else (0, free_buffered_response_header_list (conn\<lparr> status_code := status, request_state := 1 \<rparr>)))"

definition mg_response_header_add :: "mg_connection \<Rightarrow> string option \<Rightarrow> string option \<Rightarrow> int \<Rightarrow> int \<times> mg_connection" where
  "mg_response_header_add conn header value value_len =
     (case (header, value) of
        (Some h, Some v) \<Rightarrow>
          if not_server conn then (-2, conn)
          else if request_state conn \<noteq> 1 then (-3, conn)
          else if length (rsp_headers (response_info conn)) \<ge> MG_MAX_HEADERS then (-4, conn)
          else
            let hdr = \<lparr> hdr_name = mg_strdup h,
                        hdr_value = (if value_len \<ge> 0 then cstr (take (nat value_len) v) else mg_strdup v) \<rparr>
            in (0, conn\<lparr> response_info := (response_info conn)\<lparr> rsp_headers := rsp_headers (response_info conn) @ [hdr] \<rparr> \<rparr>)
      | _ \<Rightarrow> (-1, conn))"

fun add_headers :: "mg_connection \<Rightarrow> mg_header list \<Rightarrow> int \<Rightarrow> int \<times> mg_connection" where
  "add_headers conn [] ret = (ret, conn)"
| "add_headers conn (h # hs) ret =
     (case mg_response_header_add conn (Some (hdr_name h)) (Some (hdr_value h)) (-1) of
        (lret, conn') \<Rightarrow> add_headers conn' hs (if ret > 0 \<and> lret < 0 then lret else ret))"

definition mg_response_header_add_lines :: "mg_connection \<Rightarrow> string \<Rightarrow> int \<times> mg_connection" where
  "mg_response_header_add_lines conn http1_headers =
     (case parse_http_headers (mg_strdup http1_headers) of
        None \<Rightarrow> (-1, conn)
      | Some (hdrs, _) \<Rightarrow> add_headers conn hdrs (int (length hdrs)))"

section \<open>Sending the head\<close>

definition status_line :: "mg_connection \<Rightarrow> string" where
  "status_line conn =
     (let code = (if status_code conn < 100 \<or> status_code conn > 999 then 500 else status_code conn);
          version = (case http_version (request_info conn) of None \<Rightarrow> ''1.0'' | Some v \<Rightarrow> v)
      in ''HTTP/'' @ version @ '' '' @ show_int code @ '' '' @ mg_get_response_code_text (status_code conn) @ CRLF)"

definition send_http1_response_status_line :: "mg_connection \<Rightarrow> bool \<times> mg_connection" where
  "send_http1_response_status_line conn =
     (case mg_printf conn (status_line conn) of (n, conn') \<Rightarrow> (\<not> n < 10, conn'))"

definition header_text :: "string \<Rightarrow> string \<Rightarrow> string" where
  "header_text name value = name @ '': '' @ value @ CRLF"

definition print_header :: "mg_header \<Rightarrow> mg_connection \<Rightarrow> mg_connection" where
  "print_header h conn = snd (mg_printf conn (header_text (hdr_name h) (hdr_value h)))"

definition mg_response_header_send :: "mg_connection \<Rightarrow> int \<times> mg_connection" where
  "mg_response_header_send conn0 =
     (if not_server conn0 then (-2, conn0)
      else if request_state conn0 \<noteq> 1 then (-3, conn0)
      else
        let conn = conn0\<lparr> request_state := 2 \<rparr>
        in case send_http1_response_status_line conn of
             (False, conn1) \<Rightarrow> (-4, free_buffered_response_header_list conn1)
           | (True, conn1) \<Rightarrow>
               let hdrs = rsp_headers (response_info conn1);
                   conn2 = fold print_header hdrs conn1;
                   has_date = (\<exists>h \<in> set hdrs. mg_strcasecmp ''Date'' (hdr_name h) = 0);
                   has_connection = (\<exists>h \<in> set hdrs. mg_strcasecmp ''Connection'' (hdr_name h) = 0);
                   conn3 = (if has_date then conn2
                            else snd (mg_printf conn2 (header_text ''Date'' (gmt_time_string (Some (wall_clock conn2))))));
                   conn4 = (if has_connection then conn3
                            else snd (mg_printf conn3 (header_text ''Connection'' (suggest_connection_header conn3))));
                   conn5 = snd (mg_write conn4 CRLF)
               in (0, free_buffered_response_header_list (conn5\<lparr> request_state := 3 \<rparr>)))"

section \<open>Groups of headers\<close>

definition add_header :: "string \<Rightarrow> string \<Rightarrow> mg_connection \<Rightarrow> mg_connection" where
  "add_header name value conn = snd (mg_response_header_add conn (Some name) (Some value) (-1))"

definition send_no_cache_header :: "mg_connection \<Rightarrow> mg_connection" where
  "send_no_cache_header conn0 =
     (let conn1 = add_header ''Cache-Control'' ''no-cache, no-store, must-revalidate, private, max-age=0'' conn0;
          conn2 = add_header ''Expires'' ''0'' conn1
      in if protocol_type conn2 = PROTOCOL_TYPE_HTTP1 then add_header ''Pragma'' ''no-cache'' conn2 else conn2)"

definition send_static_cache_header :: "mg_connection \<Rightarrow> mg_connection" where
  "send_static_cache_header conn =
     (case conf conn STATIC_FILE_CACHE_CONTROL of
        Some cache_control \<Rightarrow> add_header ''Cache-Control'' cache_control conn
      | None \<Rightarrow>
          let max_age = (case conf conn STATIC_FILE_MAX_AGE of None \<Rightarrow> 0 | Some s \<Rightarrow> atoi s)
          in if max_age \<le> 0 then send_no_cache_header conn
             else add_header ''Cache-Control'' (''max-age='' @ show_int max_age) conn)"

definition send_additional_header :: "mg_connection \<Rightarrow> mg_connection" where
  "send_additional_header conn =
     (let conn1 = (case conf conn STRICT_HTTPS_MAX_AGE of
                     None \<Rightarrow> conn
                   | Some s \<Rightarrow>
                       let max_age = fst (strtol 10 s)
                       in if max_age \<ge> 0
                          then add_header ''Strict-Transport-Security'' (''max-age='' @ show_int max_age) conn
                          else conn)
      in case conf conn ADDITIONAL_HEADER of
           None \<Rightarrow> conn1
         | Some header \<Rightarrow> if header \<noteq> [] then snd (mg_response_header_add_lines conn1 header) else conn1)"

definition nonempty :: "string option \<Rightarrow> bool" where
  "nonempty s \<longleftrightarrow> (case s of None \<Rightarrow> False | Some v \<Rightarrow> v \<noteq> [])"

definition add_if :: "bool \<Rightarrow> string \<Rightarrow> string option \<Rightarrow> mg_connection \<Rightarrow> mg_connection" where
  "add_if b name value conn = (if b then add_header name (the value) conn else conn)"

definition send_cors_header :: "mg_connection \<Rightarrow> mg_connection" where
  "send_cors_header conn0 =
     (let origin_hdr = mg_get_header conn0 ''Origin'';
          cors_orig_cfg = conf conn0 ACCESS_CONTROL_ALLOW_ORIGIN;
          cors_cred_cfg = conf conn0 ACCESS_CONTROL_ALLOW_CREDENTIALS;
          cors_hdr_cfg = conf conn0 ACCESS_CONTROL_ALLOW_HEADERS;
          cors_exphdr_cfg = conf conn0 ACCESS_CONTROL_EXPOSE_HEADERS;
          cors_meth_cfg = conf conn0 ACCESS_CONTROL_ALLOW_METHODS;
          cors_repl_cfg = conf conn0 REPLACE_ASTERISK_WITH_ORIGIN;
          conn1 = (if nonempty cors_orig_cfg \<and> nonempty origin_hdr \<and> nonempty cors_repl_cfg
                   then if mg_strcasecmp (the cors_repl_cfg) ''yes'' = 0 \<and> hd (the cors_orig_cfg) = CHR ''*''
                        then add_header ''Access-Control-Allow-Origin'' (the origin_hdr) conn0
                        else add_header ''Access-Control-Allow-Origin'' (the cors_orig_cfg) conn0
                   else conn0);
          conn2 = add_if (nonempty cors_cred_cfg \<and> nonempty origin_hdr) ''Access-Control-Allow-Credentials'' cors_cred_cfg conn1;
          conn3 = add_if (nonempty cors_hdr_cfg) ''Access-Control-Allow-Headers'' cors_hdr_cfg conn2;
          conn4 = add_if (nonempty cors_exphdr_cfg) ''Access-Control-Expose-Headers'' cors_exphdr_cfg conn3
      in add_if (nonempty cors_meth_cfg) ''Access-Control-Allow-Methods'' cors_meth_cfg conn4)"

section \<open>The head on the wire\<close>

text \<open>The peer takes whatever the next \<open>n\<close> calls of \<open>send\<close> offer.\<close>

definition accepts :: "mg_connection \<Rightarrow> nat \<Rightarrow> bool" where
  "accepts conn n \<longleftrightarrow> \<not> stop_flag conn \<and> throttle conn \<le> 0 \<and> n \<le> length (send_script conn) \<and>
     (\<forall>i < n. \<exists>k. send_script conn ! i = Send_Bytes k \<and> INT_MAX \<le> int k)"

lemma mg_write_accepted:
  assumes a: "accepts conn (Suc n)" and d: "data \<noteq> []" "int (length data) \<le> INT_MAX"
  obtains c where "mg_write conn data = (int (length data), c)" "accepts c n"
    "wire c = wire conn @ data" "io_only conn c" "wall_clock c = wall_clock conn"
proof -
  obtain e es where s: "send_script conn = e # es" using a by (cases "send_script conn") (auto simp: accepts_def)
  have all: "\<exists>k. (e # es) ! i = Send_Bytes k \<and> INT_MAX \<le> int k" if "i < Suc n" for i
    using a that s by (auto simp: accepts_def)
  obtain k where k: "e = Send_Bytes k" "INT_MAX \<le> int k" using all [of 0] by auto
  have min: "min k (length data) = length data" using k(2) d(2) by simp
  define c1 where "c1 = conn\<lparr> request_state := 10, send_script := es, wire := wire conn @ data \<rparr>"
  define c where "c = c1\<lparr> num_bytes_sent := num_bytes_sent conn + int (length data) \<rparr>"
  have ns: "\<not> stop_flag conn" "\<not> 0 < throttle conn" "length data > 0" using a d by (auto simp: accepts_def)
  have step: "push_step (conn\<lparr> request_state := 10 \<rparr>) data = (int (length data), c1)"
    using s k min ns by (simp add: push_step_def c1_def)
  have "push_all (conn\<lparr> request_state := 10 \<rparr>) data = (int (length data), c1)"
    unfolding push_all_def using step ns d(1)
    by (subst push_loop.simps) (simp add: push_loop.simps [of c1 "[]"])
  then have w: "mg_write conn data = (int (length data), c)"
    using ns d by (simp add: mg_write_def c_def c1_def)
  have "\<exists>k. es ! i = Send_Bytes k \<and> INT_MAX \<le> int k" if "i < n" for i
    using all [of "Suc i"] that by simp
  then have "accepts c n" using a s by (simp add: accepts_def c_def c1_def)
  moreover have "io_only conn c" by (simp add: c_def c1_def)
  ultimately show ?thesis using that w by (simp add: c_def c1_def)
qed

text \<open>A text that can be printed: not empty and not longer than an \<open>int\<close>.\<close>

definition printable_text :: "string \<Rightarrow> bool" where
  "printable_text t \<longleftrightarrow> t \<noteq> [] \<and> int (length t) \<le> INT_MAX"

lemma mg_printf_accepted:
  assumes "accepts conn (Suc n)" "printable_text txt"
  obtains c where "mg_printf conn txt = (int (length txt), c)" "accepts c n"
    "wire c = wire conn @ txt" "io_only conn c" "wall_clock c = wall_clock conn"
  using mg_write_accepted [OF assms(1)] assms(2) by (auto simp: mg_printf_def printable_text_def)

lemma print_headers_accepted:
  "accepts conn (length hs + n) \<Longrightarrow> \<forall>h \<in> set hs. printable_text (header_text (hdr_name h) (hdr_value h)) \<Longrightarrow>
     \<exists>c. fold print_header hs conn = c \<and> accepts c n \<and> io_only conn c \<and> wall_clock c = wall_clock conn \<and>
       wire c = wire conn @ concat (map (\<lambda>h. header_text (hdr_name h) (hdr_value h)) hs)"
proof (induction hs arbitrary: conn)
  case (Cons h hs)
  have "accepts conn (Suc (length hs + n))" "printable_text (header_text (hdr_name h) (hdr_value h))"
    using Cons.prems by simp_all
  then obtain c where c: "mg_printf conn (header_text (hdr_name h) (hdr_value h)) =
      (int (length (header_text (hdr_name h) (hdr_value h))), c)" "accepts c (length hs + n)"
    "wire c = wire conn @ header_text (hdr_name h) (hdr_value h)" "io_only conn c" "wall_clock c = wall_clock conn"
    by (rule mg_printf_accepted)
  have "print_header h conn = c" using c(1) by (simp add: print_header_def)
  then show ?case using Cons.IH [OF c(2)] Cons.prems(2) c by (auto intro: io_only_trans)
qed simp

text \<open>The head a response is meant to have, as a function of the connection.\<close>

definition has_header :: "string \<Rightarrow> mg_header list \<Rightarrow> bool" where
  "has_header name hs \<longleftrightarrow> (\<exists>h \<in> set hs. mg_strcasecmp name (hdr_name h) = 0)"

definition response_headers :: "mg_connection \<Rightarrow> mg_header list" where
  "response_headers conn =
     (let hs = rsp_headers (response_info conn)
      in hs @
         (if has_header ''Date'' hs then []
          else [\<lparr> hdr_name = ''Date'', hdr_value = gmt_time_string (Some (wall_clock conn)) \<rparr>]) @
         (if has_header ''Connection'' hs then []
          else [\<lparr> hdr_name = ''Connection'', hdr_value = suggest_connection_header conn \<rparr>]))"

definition response_head :: "mg_connection \<Rightarrow> string" where
  "response_head conn =
     status_line conn @ concat (map (\<lambda>h. header_text (hdr_name h) (hdr_value h)) (response_headers conn)) @ CRLF"

lemma status_line_io: "io_only c c' \<Longrightarrow> status_line c' = status_line c"
  by (simp add: status_line_def io_only_fields)

lemma status_line_state [simp]: "status_line (c\<lparr> request_state := s \<rparr>) = status_line c"
  by (simp add: status_line_def)

lemma status_line_length: "length (status_line conn) \<ge> 10"
proof -
  have "length (show_int i) \<ge> 1" for i using show_base_nonempty
    by (cases "show_int i") (auto simp: show_int_def show_nat_def split: if_splits)
  then have "length (show_int (if status_code conn < 100 \<or> status_code conn > 999 then 500 else status_code conn)) \<ge> 1" .
  then show ?thesis unfolding status_line_def Let_def CRLF_def length_append by simp
qed

lemma mg_response_header_send_ok:
  assumes a: "accepts conn (length (rsp_headers (response_info conn)) + 4)"
    and g: "\<not> not_server conn" "request_state conn = 1"
    and p: "printable_text (status_line conn)"
      "\<forall>h \<in> set (response_headers conn). printable_text (header_text (hdr_name h) (hdr_value h))"
  shows "\<exists>c. mg_response_header_send conn = (0, c) \<and> wire c = wire conn @ response_head conn \<and>
    request_state c = 3 \<and> rsp_headers (response_info c) = []"
proof -
  let ?hs = "rsp_headers (response_info conn)"
  have a0: "accepts (conn\<lparr> request_state := 2 \<rparr>) (Suc (length ?hs + 3))" using a by (simp add: accepts_def)
  obtain c1 where c1: "mg_printf (conn\<lparr> request_state := 2 \<rparr>) (status_line conn) = (int (length (status_line conn)), c1)"
    "accepts c1 (length ?hs + 3)" "wire c1 = wire conn @ status_line conn"
    "io_only (conn\<lparr> request_state := 2 \<rparr>) c1" "wall_clock c1 = wall_clock conn"
    by (rule mg_printf_accepted [OF a0 p(1)]) simp_all
  have io1: "io_only conn c1" using c1(4) by (simp add: io_only_def io_clear_def)
  have hs1: "rsp_headers (response_info c1) = ?hs" using io_only_fields(4) [OF io1] by simp
  have ph: "\<forall>h \<in> set ?hs. printable_text (header_text (hdr_name h) (hdr_value h))"
    using p(2) by (simp add: response_headers_def Let_def)
  obtain c2 where c2: "fold print_header ?hs c1 = c2" "accepts c2 3" "io_only c1 c2" "wall_clock c2 = wall_clock c1"
    "wire c2 = wire c1 @ concat (map (\<lambda>h. header_text (hdr_name h) (hdr_value h)) ?hs)"
    using print_headers_accepted [OF c1(2) ph] by blast
  define dt where "dt = header_text ''Date'' (gmt_time_string (Some (wall_clock c2)))"
  have wc: "wall_clock c2 = wall_clock conn" using c2(4) c1(5) by simp
  obtain c3 where c3: "c3 = (if has_header ''Date'' ?hs then c2 else snd (mg_printf c2 dt))" "accepts c3 2" "io_only c2 c3"
    "wire c3 = wire c2 @ (if has_header ''Date'' ?hs then [] else dt)"
  proof (cases "has_header ''Date'' ?hs")
    case True
    then show ?thesis using that [of c2] c2(2) by (simp add: accepts_def)
  next
    case False
    then have pd: "printable_text dt" using p(2) wc by (simp add: response_headers_def Let_def dt_def)
    obtain c where "mg_printf c2 dt = (int (length dt), c)" "accepts c 2" "wire c = wire c2 @ dt" "io_only c2 c"
      by (rule mg_printf_accepted [OF _ pd, of c2 2]) (use c2(2) in \<open>simp_all add: numeral_3_eq_3\<close>)
    then show ?thesis using that [of c] False by simp
  qed
  have sug: "suggest_connection_header c3 = suggest_connection_header conn"
    using should_keep_alive_io io_only_trans [OF io_only_trans [OF io1 c2(3)] c3(3)] by blast
  define ct where "ct = header_text ''Connection'' (suggest_connection_header c3)"
  obtain c4 where c4: "c4 = (if has_header ''Connection'' ?hs then c3 else snd (mg_printf c3 ct))" "accepts c4 1"
    "io_only c3 c4" "wire c4 = wire c3 @ (if has_header ''Connection'' ?hs then [] else ct)"
  proof (cases "has_header ''Connection'' ?hs")
    case True
    then show ?thesis using that [of c3] c3(2) by (simp add: accepts_def)
  next
    case False
    then have pd: "printable_text ct" using p(2) sug by (simp add: response_headers_def Let_def ct_def)
    obtain c where "mg_printf c3 ct = (int (length ct), c)" "accepts c 1" "wire c = wire c3 @ ct" "io_only c3 c"
      by (rule mg_printf_accepted [OF _ pd, of c3 1]) (use c3(2) in \<open>simp_all add: numeral_2_eq_2\<close>)
    then show ?thesis using that [of c] False by simp
  qed
  obtain c5 where c5: "mg_write c4 CRLF = (2, c5)" "wire c5 = wire c4 @ CRLF"
    by (rule mg_write_accepted [of c4 0 CRLF]) (use c4(2) in \<open>simp_all add: CRLF_def INT_MAX_def\<close>)
  have sl: "send_http1_response_status_line (conn\<lparr> request_state := 2 \<rparr>) = (True, c1)"
    using c1(1) status_line_length [of conn] by (simp add: send_http1_response_status_line_def)
  have "mg_response_header_send conn = (0, free_buffered_response_header_list (c5\<lparr> request_state := 3 \<rparr>))"
    using g unfolding mg_response_header_send_def Let_def sl prod.case bool.case hs1 c2(1)
      has_header_def [symmetric] dt_def [symmetric] c3(1) [symmetric] ct_def [symmetric] c4(1) [symmetric] c5(1)
    by simp
  moreover have "wire c5 = wire conn @ response_head conn"
    unfolding c5(2) c4(4) c3(4) c2(5) c1(3) response_head_def response_headers_def Let_def
    by (simp add: dt_def ct_def sug wc)
  ultimately show ?thesis by (simp add: free_buffered_response_header_list_def)
qed

section \<open>Order of the calls\<close>

datatype response_op =
    Op_start int
  | Op_add "string option" "string option" int
  | Op_add_lines string
  | Op_send

fun response_step :: "response_op \<Rightarrow> mg_connection \<Rightarrow> int \<times> mg_connection" where
  "response_step (Op_start status) conn = mg_response_header_start conn status"
| "response_step (Op_add h v n) conn = mg_response_header_add conn h v n"
| "response_step (Op_add_lines l) conn = mg_response_header_add_lines conn l"
| "response_step Op_send conn = mg_response_header_send conn"

inductive response_reach :: "mg_connection \<Rightarrow> mg_connection \<Rightarrow> bool" for c0 where
  reach_start: "response_reach c0 c0"
| reach_step: "response_reach c0 c \<Longrightarrow> response_step op c = (r, c') \<Longrightarrow> response_reach c0 c'"

lemma mg_write_state: "mg_write conn data = (n, c) \<Longrightarrow> request_state c = 10 \<or> request_state c = request_state conn"
proof -
  assume w: "mg_write conn data = (n, c)"
  let ?c = "conn\<lparr> request_state := 10 \<rparr>"
  obtain m d where p: "(if throttle ?c > 0 then throttled_write ?c data else push_all ?c data) = (m, d)" by fastforce
  have "request_state d = 10"
  proof (cases "throttle ?c > 0")
    case False
    then show ?thesis using p push_all_facts(8) [of ?c data m d] by simp
  next
    case True
    let ?s = "throttle_start ?c"
    let ?al = "if throttle ?s - last_throttle_bytes ?s > int (length data) then int (length data)
               else throttle ?s - last_throttle_bytes ?s"
    obtain k e where q: "push_all ?s (take (nat ?al) data) = (k, e)" by fastforce
    have e: "request_state e = 10"
      using push_all_facts(8) [OF q] by (simp add: throttle_start_facts)
    have "throttled_write ?c data = (if k = ?al then throttle_loop (e\<lparr> last_throttle_bytes := last_throttle_bytes e + k \<rparr>)
        (drop (nat k) data) k else (k, e))"
      unfolding throttled_write_def Let_def q by simp
    then show ?thesis using p True e throttle_loop_sends by (auto split: if_splits)
  qed
  then show ?thesis using w p by (auto simp: mg_write_def Let_def split: if_splits prod.splits)
qed

lemma mg_printf_state: "mg_printf conn txt = (n, c) \<Longrightarrow> request_state c = 10 \<or> request_state c = request_state conn"
  using mg_write_state by (auto simp: mg_printf_def split: if_splits)

lemma add_headers_frame:
  "add_headers conn hs ret = (r, c) \<Longrightarrow>
     request_state c = request_state conn \<and> wire c = wire conn \<and>
     (length (rsp_headers (response_info conn)) \<le> MG_MAX_HEADERS \<longrightarrow> length (rsp_headers (response_info c)) \<le> MG_MAX_HEADERS)"
proof (induction hs arbitrary: conn ret)
  case (Cons h hs)
  obtain l c1 where a: "mg_response_header_add conn (Some (hdr_name h)) (Some (hdr_value h)) (-1) = (l, c1)" by fastforce
  then have "request_state c1 = request_state conn \<and> wire c1 = wire conn \<and>
      (length (rsp_headers (response_info conn)) \<le> MG_MAX_HEADERS \<longrightarrow> length (rsp_headers (response_info c1)) \<le> MG_MAX_HEADERS)"
    by (auto simp: mg_response_header_add_def Let_def split: if_splits)
  then show ?case using Cons.prems a Cons.IH by fastforce
qed simp

text \<open>Out of order, a call is refused with -3 and changes nothing.\<close>

definition expected_state :: "response_op \<Rightarrow> nat" where
  "expected_state op = (case op of Op_start _ \<Rightarrow> 0 | _ \<Rightarrow> 1)"

definition good_arguments :: "response_op \<Rightarrow> bool" where
  "good_arguments op = (case op of Op_start s \<Rightarrow> 100 \<le> s \<and> s \<le> 999 | Op_add h v _ \<Rightarrow> h \<noteq> None \<and> v \<noteq> None
     | Op_add_lines l \<Rightarrow> (case parse_http_headers (mg_strdup l) of None \<Rightarrow> True | Some (hs, _) \<Rightarrow> hs \<noteq> [])
     | Op_send \<Rightarrow> True)"

lemma add_headers_refused:
  "request_state conn \<noteq> 1 \<Longrightarrow> ret < 0 \<or> hs \<noteq> [] \<and> ret > 0 \<Longrightarrow> fst (add_headers conn hs ret) < 0"
proof (induction hs arbitrary: conn ret)
  case (Cons h hs)
  obtain l c where a: "mg_response_header_add conn (Some (hdr_name h)) (Some (hdr_value h)) (-1) = (l, c)" by fastforce
  then have "l < 0" "c = conn" using Cons.prems(1) by (auto simp: mg_response_header_add_def split: if_splits)
  then show ?case using a Cons.IH [of conn] Cons.prems by auto
qed simp

lemma response_step_refused:
  assumes "request_state conn \<noteq> expected_state op"
  shows "snd (response_step op conn) = conn"
proof (cases op)
  case (Op_add_lines l)
  have "snd (add_headers conn hs ret) = conn" for hs ret
    using assms Op_add_lines by (induction hs arbitrary: ret) (auto simp: mg_response_header_add_def expected_state_def)
  then show ?thesis using Op_add_lines by (auto simp: mg_response_header_add_lines_def split: option.splits)
qed (use assms in \<open>auto simp: expected_state_def mg_response_header_start_def mg_response_header_add_def
      mg_response_header_send_def split: option.splits\<close>)

text \<open>What every reachable connection satisfies: nothing is sent before the send, and the
  buffer of headers is never overrun.\<close>

definition response_inv :: "mg_connection \<Rightarrow> mg_connection \<Rightarrow> bool" where
  "response_inv c0 c \<longleftrightarrow> request_state c \<in> {0, 1, 2, 3, 10} \<and>
     length (rsp_headers (response_info c)) \<le> MG_MAX_HEADERS \<and>
     (request_state c \<in> {0, 1} \<longrightarrow> wire c = wire c0)"

lemma print_headers_state:
  "request_state conn \<in> {2, 10} \<Longrightarrow> request_state (fold print_header hs conn) \<in> {2, 10}"
proof (induction hs arbitrary: conn)
  case (Cons h hs)
  have "request_state (print_header h conn) \<in> {2, 10}"
    using mg_printf_state [of conn "header_text (hdr_name h) (hdr_value h)"] Cons.prems
    by (cases "mg_printf conn (header_text (hdr_name h) (hdr_value h))") (auto simp: print_header_def)
  then show ?case using Cons.IH by simp
qed simp

lemma response_inv_send:
  assumes "request_state conn = 1" "\<not> not_server conn"
  shows "request_state (snd (mg_response_header_send conn)) \<in> {2, 3, 10} \<and>
    rsp_headers (response_info (snd (mg_response_header_send conn))) = []"
proof -
  obtain ok c1 where s: "send_http1_response_status_line (conn\<lparr> request_state := 2 \<rparr>) = (ok, c1)" by fastforce
  then have "request_state c1 = 10 \<or> request_state c1 = 2"
    using mg_printf_state by (fastforce simp: send_http1_response_status_line_def split: prod.splits)
  then show ?thesis using assms s
    by (cases ok) (auto simp: mg_response_header_send_def Let_def free_buffered_response_header_list_def)
qed

lemma response_reach_inv:
  assumes "response_reach c0 c" "request_state c0 = 0" "length (rsp_headers (response_info c0)) \<le> MG_MAX_HEADERS"
  shows "response_inv c0 c"
  using assms
proof (induction rule: response_reach.induct)
  case reach_start
  then show ?case by (simp add: response_inv_def)
next
  case (reach_step c op r c')
  then have inv: "response_inv c0 c" by simp
  show ?case
  proof (cases "request_state c = expected_state op")
    case False
    then have "c' = c" using response_step_refused [OF False] reach_step.hyps(2) by simp
    then show ?thesis using inv by simp
  next
    case True
    then have st: "request_state c \<in> {0, 1}" by (auto simp: expected_state_def split: response_op.splits)
    show ?thesis
    proof (cases op)
      case (Op_start s)
      then show ?thesis using inv True reach_step.hyps(2)
        by (auto simp: response_inv_def mg_response_header_start_def free_buffered_response_header_list_def
            expected_state_def split: if_splits)
    next
      case (Op_add h v n)
      then show ?thesis using inv True reach_step.hyps(2)
        by (auto simp: response_inv_def mg_response_header_add_def Let_def expected_state_def split: if_splits option.splits)
    next
      case (Op_add_lines l)
      then have e: "mg_response_header_add_lines c l = (r, c')" using reach_step.hyps(2) by simp
      show ?thesis
      proof (cases "parse_http_headers (mg_strdup l)")
        case None
        then show ?thesis using e inv by (simp add: mg_response_header_add_lines_def)
      next
        case (Some p)
        then obtain hs rest where "add_headers c hs (int (length hs)) = (r, c')"
          using e by (cases p) (auto simp: mg_response_header_add_lines_def)
        from add_headers_frame [OF this] show ?thesis using inv by (auto simp: response_inv_def)
      qed
    next
      case Op_send
      then have e: "mg_response_header_send c = (r, c')" using reach_step.hyps(2) by simp
      show ?thesis
      proof (cases "not_server c")
        case True
        then show ?thesis using e inv by (simp add: mg_response_header_send_def)
      next
        case False
        have "request_state c = 1" using True Op_send \<open>request_state c = expected_state op\<close> by (simp add: expected_state_def)
        from response_inv_send [OF this False] show ?thesis using e by (auto simp: response_inv_def)
      qed
    qed
  qed
qed

section \<open>The client's parser reads the head\<close>

lemma show_code_length:
  assumes "100 \<le> n" "n < 1000" shows "length (show_base 10 n) = 3"
proof -
  have r: "\<not> n < 10" "\<not> n div 10 < 10" "n div 10 div 10 < 10"
    using assms div_le_mono [of 100 n 10] less_mult_imp_div_less [of n 10 100] by (simp_all add: div_mult2_eq [symmetric])
  have "show_base 10 n = show_base 10 (n div 10) @ [hex_digit (n mod 10)]"
    by (subst show_base.simps) (use r in simp)
  moreover have "show_base 10 (n div 10) = show_base 10 (n div 10 div 10) @ [hex_digit (n div 10 mod 10)]"
    by (subst show_base.simps) (use r in simp)
  moreover have "show_base 10 (n div 10 div 10) = [hex_digit (n div 10 div 10)]"
    by (subst show_base.simps) (use r in simp)
  ultimately show ?thesis by simp
qed

lemma show_int_chars:
  assumes "0 \<le> v" shows "\<forall>c \<in> set (show_int v). word_char c \<and> line_char c \<and> isgraph c"
proof
  fix c assume "c \<in> set (show_int v)"
  then obtain d where "d < 10" "c = hex_digit d"
    using show_base_digits [of 10 c "nat v"] assms by (auto simp: show_int_def show_nat_def)
  then have "isxdigit c" using hex_digit_class(4) [of d] by simp
  then show "word_char c \<and> line_char c \<and> isgraph c"
    by (auto simp: word_char_def line_char_def ctype_simps)
qed

definition response_line :: "string \<Rightarrow> int \<Rightarrow> string \<Rightarrow> string" where
  "response_line v status txt = ''HTTP/'' @ v @ SP # show_int status @ SP # txt"

definition render_response :: "string \<Rightarrow> int \<Rightarrow> string \<Rightarrow> mg_header list \<Rightarrow> string" where
  "render_response v status txt hs = render_lines (response_line v status txt # map header_line hs) @ CRLF"

definition response_wf :: "string \<Rightarrow> int \<Rightarrow> string \<Rightarrow> mg_header list \<Rightarrow> bool" where
  "response_wf v status txt hs \<longleftrightarrow> isgraph (hd0 v) \<and> (\<forall>c \<in> set v. word_char c \<and> line_char c) \<and>
     100 \<le> status \<and> status \<le> 999 \<and> isgraph (hd0 txt) \<and> (\<forall>c \<in> set txt. isprint c) \<and>
     hs \<noteq> [] \<and> length hs \<le> MG_MAX_HEADERS \<and> (\<forall>h \<in> set hs. header_wf h)"

lemma header_block_start:
  assumes "hs \<noteq> []" "\<forall>h \<in> set hs. header_wf h"
  shows "dropWhile isspace (render_lines (map header_line hs) @ [CR]) = render_lines (map header_line hs) @ [CR]"
    "hd0 (render_lines (map header_line hs) @ [CR]) \<noteq> CR"
proof -
  obtain g gs where hs: "hs = g # gs" using assms(1) by (cases hs) auto
  then obtain c n where n: "hdr_name g = c # n" "name_char c" using assms(2)
    by (cases "hdr_name g") (auto simp: header_wf_def)
  then have "\<not> isspace c" "c \<noteq> CR" by (auto simp: name_char_def isspace_def)
  then show "dropWhile isspace (render_lines (map header_line hs) @ [CR]) = render_lines (map header_line hs) @ [CR]"
    "hd0 (render_lines (map header_line hs) @ [CR]) \<noteq> CR"
    using hs n by (simp_all add: header_line_def)
qed

lemma parse_response_lines_render:
  assumes wf: "response_wf v status txt hs"
  shows "parse_response_lines (render_lines (response_line v status txt # map header_line hs) @ [CR]) ri =
    (True, ri\<lparr> rsp_http_version := Some v, rsp_status_code := status, status_text := Some txt, rsp_headers := hs \<rparr>)"
proof -
  let ?hl = "render_lines (map header_line hs) @ [CR]"
  let ?t = "txt @ CR # LF # ?hl"
  have wfs: "hs \<noteq> []" "\<forall>h \<in> set hs. header_wf h" "length hs \<le> MG_MAX_HEADERS" "100 \<le> status" "status \<le> 999"
    "isgraph (hd0 txt)" "\<forall>c \<in> set txt. isprint c" "isgraph (hd0 v)" "\<forall>c \<in> set v. word_char c"
    using wf by (auto simp: response_wf_def)
  have buf: "render_lines (response_line v status txt # map header_line hs) @ [CR] =
      ''HTTP/'' @ v @ SP # show_int status @ SP # ?t" by (simp add: response_line_def)
  have t5: "take 5 (''HTTP/'' @ r) = ''HTTP/''" "drop 5 (''HTTP/'' @ r) = r" for r
    by (simp_all add: eval_nat_numeral)
  have ci: "show_int status \<noteq> []" "\<forall>c \<in> set (show_int status). word_char c \<and> isgraph c"
    using digit_first [of status] show_int_chars [of status] wfs by auto
  have hdg: "isgraph (hd0 w) \<Longrightarrow> hd0 (w @ r) = hd0 w" for w r by (cases w) (auto simp: isgraph_def)
  have "isgraph (hd0 (show_int status))" using ci by (cases "show_int status") auto
  then have h0: "hd0 (v @ r) = hd0 v" "hd0 (txt @ r) = hd0 txt" "isgraph (hd0 (show_int status @ r))" for r
    using hdg wfs by auto
  have g1: "isgraph (hd0 (v @ SP # show_int status @ SP # ?t))" unfolding h0 using wfs by simp
  have s1: "skip_to_end_of_word_and_terminate (v @ SP # show_int status @ SP # ?t) False = (True, v, show_int status @ SP # ?t)"
    by (rule skip_word_render) (use wfs h0(3) in auto)
  have s2: "skip_to_end_of_word_and_terminate (show_int status @ SP # ?t) False = (True, show_int status, ?t)"
    by (rule skip_word_render) (use ci wfs h0(2) in auto)
  have "nat status < 1000" "100 \<le> nat status" using wfs by auto
  then have len: "length (show_int status) = 3" using show_code_length [of "nat status"] wfs by (simp add: show_int_def show_nat_def)
  have st: "strtol 10 (show_int status) = (status, [])"
    using strtol_show [of 10 "[]" "nat status"] wfs by (simp add: nondigit_start_def show_int_def show_nat_def)
  have tx: "takeWhile isprint ?t = txt" "dropWhile isprint ?t = CR # LF # ?hl"
    using wfs by (auto simp: takeWhile_append dropWhile_append isprint_def)
  have sp: "dropWhile isspace (LF # ?hl) = ?hl" using header_block_start(1) [OF wfs(1,2)] by (simp add: isspace_def)
  have hd: "parse_http_headers ?hl = Some (hs, [CR])"
    unfolding parse_http_headers_def by (rule parse_header_lines_render [OF wfs(1,3,2)])
  have codes: "\<not> (status < 100 \<or> status \<ge> 1000 \<or> length (show_int status) - length [] \<noteq> 3 \<or> [] \<noteq> [])"
    using wfs len by simp
  show ?thesis
    unfolding buf parse_response_lines_def t5 s1 s2 prod.case Let_def st tx list.sel hd0_simps sp hd
    using g1 codes by simp
qed

lemma parse_http_response_render:
  assumes wf: "response_wf v status txt hs"
  shows "parse_http_response (render_response v status txt hs @ body) ri =
    (int (length (render_response v status txt hs)),
     ri\<lparr> rsp_http_version := Some v, rsp_status_code := status, status_text := Some txt, rsp_headers := hs \<rparr>)"
proof -
  let ?ls = "response_line v status txt # map header_line hs"
  let ?buf = "render_response v status txt hs @ body"
  have hd: "hd ?buf = CHR ''H''" "?buf \<noteq> []" "dropWhile isspace ?buf = ?buf" "\<not> iscntrl (CHR ''H'')"
    by (auto simp: render_response_def response_line_def ctype_simps)
  have pr: "isprint c \<Longrightarrow> line_char c" for c by (simp add: line_char_def)
  have "\<forall>c \<in> set (show_int status). line_char c" using show_int_chars [of status] wf by (auto simp: response_wf_def)
  then have lines: "\<forall>l \<in> set ?ls. l \<noteq> [] \<and> (\<forall>c \<in> set l. line_char c)"
    using wf line_char_literal pr
    by (auto simp: response_wf_def response_line_def header_line_def header_wf_def name_line_char)
  have len: "get_http_header_len ?buf = int (length (render_response v status txt hs))"
    using header_len_lines [OF _ lines, of 0 body]
    by (simp add: get_http_header_len_def render_response_def CRLF_def del: render_lines_simps)
  have head: "take (length (render_response v status txt hs) - 1) ?buf = render_lines ?ls @ [CR]"
    by (simp add: render_response_def CRLF_def del: render_lines_simps)
  have h0: "hd0 (render_lines ?ls @ [CR]) = CHR ''H''" by (simp add: response_line_def)
  have pos: "\<not> int (length (render_response v status txt hs)) \<le> 0" by (simp add: render_response_def CRLF_def)
  show ?thesis
    unfolding parse_http_response_def Let_def hd(3) len nat_int head h0
    using hd pos by (simp add: parse_response_lines_render [OF wf] reset_response_def del: render_lines_simps)
qed

text \<open>The status texts of the codes below 600 are not empty and start with a graphic character.\<close>

lemma response_code_text_ok:
  assumes "100 \<le> status" "status < 600"
  shows "isgraph (hd0 (mg_get_response_code_text status)) \<and> (\<forall>c \<in> set (mg_get_response_code_text status). isprint c)"
proof -
  let ?ok = "\<lambda>s. isgraph (hd0 s) \<and> (\<forall>c \<in> set s. isprint c)"
  have tab: "list_all (\<lambda>p. ?ok (snd p)) response_code_texts"
    by (simp add: response_code_texts_def ctype_simps)
  show ?thesis
  proof (cases "map_of response_code_texts status")
    case (Some s)
    then have "?ok s" using tab map_of_SomeD [OF Some] by (auto simp: list_all_iff)
    then show ?thesis using Some by (simp add: mg_get_response_code_text_def)
  next
    case None
    have "?ok ''Information''" "?ok ''Success''" "?ok ''Redirection''" "?ok ''Client Error''" "?ok ''Server Error''"
      by (simp_all add: ctype_simps)
    then show ?thesis using None assms by (auto simp: mg_get_response_code_text_def)
  qed
qed

text \<open>The head of a response is the rendering of its parts.\<close>

lemma response_head_render:
  assumes "100 \<le> status_code conn" "status_code conn \<le> 999"
  shows "response_head conn =
    render_response (case http_version (request_info conn) of None \<Rightarrow> ''1.0'' | Some v \<Rightarrow> v) (status_code conn)
      (mg_get_response_code_text (status_code conn)) (response_headers conn)"
proof -
  have h: "concat (map (\<lambda>h. header_text (hdr_name h) (hdr_value h)) hs) = render_lines (map header_line hs)" for hs
    by (induction hs) (simp_all add: header_text_def header_line_def CRLF_def)
  have "\<not> (status_code conn < 100 \<or> status_code conn > 999)" using assms by simp
  then show ?thesis
    unfolding response_head_def render_response_def status_line_def Let_def response_line_def h
    by (simp add: CRLF_def)
qed

section \<open>Properties\<close>

text \<open>
  C14: a response reaches the wire exactly once and complete. If the peer takes the bytes, the
  send writes the status line, the headers in the order they were added, a Date and a
  Connection header if there is none, and the empty line, and nothing else.
\<close>

theorem response_send_head:
  assumes "accepts conn (length (rsp_headers (response_info conn)) + 4)"
    and "\<not> not_server conn" "request_state conn = 1"
    and "printable_text (status_line conn)"
    and "\<forall>h \<in> set (response_headers conn). printable_text (header_text (hdr_name h) (hdr_value h))"
  shows "\<exists>c. mg_response_header_send conn = (0, c) \<and> wire c = wire conn @ response_head conn \<and>
    request_state c = 3 \<and> rsp_headers (response_info c) = []"
  by (rule mg_response_header_send_ok [OF assms])

definition answer_connection :: mg_connection where
  "answer_connection = test_connection\<lparr> request_state := 1,
     response_info := (response_info test_connection)\<lparr> rsp_headers :=
       [\<lparr> hdr_name = ''Date'', hdr_value = ''x'' \<rparr>, \<lparr> hdr_name = ''Connection'', hdr_value = ''close'' \<rparr>] \<rparr>,
     send_script := replicate 6 (Send_Bytes 2147483647) \<rparr>"

lemma answer_connection_simps:
  "request_state answer_connection = 1" "status_code answer_connection = 200"
  "\<not> not_server answer_connection" "wire answer_connection = []" "http_version (request_info answer_connection) = None"
  "accepts answer_connection (length (rsp_headers (response_info answer_connection)) + 4)"
  by (auto simp: answer_connection_def test_connection_def not_server_def accepts_def INT_MAX_def)

lemma answer_connection_headers:
  "response_headers answer_connection =
     [\<lparr> hdr_name = ''Date'', hdr_value = ''x'' \<rparr>, \<lparr> hdr_name = ''Connection'', hdr_value = ''close'' \<rparr>]"
proof -
  have "mg_strcasecmp s s = 0" for s by (rule casecmp.cmp_refl)
  then have "has_header ''Date'' (rsp_headers (response_info answer_connection))"
    "has_header ''Connection'' (rsp_headers (response_info answer_connection))"
    by (auto simp: has_header_def answer_connection_def)
  then show ?thesis by (simp add: response_headers_def Let_def) (simp add: answer_connection_def)
qed

lemma answer_status_line: "status_line answer_connection = ''HTTP/1.0 200 OK'' @ CRLF"
  by (simp add: status_line_def answer_connection_simps mg_get_response_code_text_def response_code_texts_def
      show_int_def show_nat_def show_base.simps [of 10] hex_digit_def)

lemma response_send_head_witness:
  "\<exists>c. mg_response_header_send answer_connection = (0, c) \<and>
     wire c = ''HTTP/1.0 200 OK'' @ CRLF @ ''Date: x'' @ CRLF @ ''Connection: close'' @ CRLF @ CRLF"
proof -
  have "printable_text (status_line answer_connection)"
    by (simp add: answer_status_line printable_text_def CRLF_def INT_MAX_def)
  moreover have "\<forall>h \<in> set (response_headers answer_connection). printable_text (header_text (hdr_name h) (hdr_value h))"
    by (simp add: answer_connection_headers header_text_def printable_text_def CRLF_def INT_MAX_def)
  ultimately obtain c where "mg_response_header_send answer_connection = (0, c)"
    "wire c = wire answer_connection @ response_head answer_connection"
    using response_send_head [OF answer_connection_simps(6,3,1)] by blast
  then show ?thesis
    by (simp add: response_head_def answer_connection_headers answer_status_line answer_connection_simps header_text_def)
qed

text \<open>
  C15: what the server sends, the client's parser reads: version, code, text and all headers
  come back from \<open>parse_http_response\<close>, with the length of the head, whatever body follows.
\<close>

theorem response_head_parses:
  assumes "100 \<le> status_code conn" "status_code conn < 600"
    and "v = (case http_version (request_info conn) of None \<Rightarrow> ''1.0'' | Some v \<Rightarrow> v)"
    and "isgraph (hd0 v)" "\<forall>c \<in> set v. word_char c \<and> line_char c"
    and "response_headers conn \<noteq> []" "length (response_headers conn) \<le> MG_MAX_HEADERS"
    and "\<forall>h \<in> set (response_headers conn). header_wf h"
  shows "parse_http_response (response_head conn @ body) ri =
    (int (length (response_head conn)),
     ri\<lparr> rsp_http_version := Some v, rsp_status_code := status_code conn,
        status_text := Some (mg_get_response_code_text (status_code conn)), rsp_headers := response_headers conn \<rparr>)"
proof -
  have "response_wf v (status_code conn) (mg_get_response_code_text (status_code conn)) (response_headers conn)"
    using assms response_code_text_ok [OF assms(1,2)] by (simp add: response_wf_def)
  from parse_http_response_render [OF this] show ?thesis
    using response_head_render [of conn] assms(1-3) by simp
qed

lemma response_head_parses_witness:
  "fst (parse_http_response (response_head answer_connection @ ''body'') (response_info test_connection)) = 47"
proof -
  have l: "length (response_head answer_connection) = 47"
    by (simp add: response_head_def answer_connection_headers answer_status_line header_text_def CRLF_def)
  show ?thesis
    by (subst response_head_parses [where v = "''1.0''"])
       (simp_all add: answer_connection_simps answer_connection_headers l MG_MAX_HEADERS_def header_wf_def
         word_char_def line_char_def name_char_def ctype_simps)
qed

text \<open>
  C16: the calls that build a response are refused out of order. Start is accepted in state 0
  only, the other calls in state 1 only; otherwise the connection does not change at all, and the
  call returns a negative code if its arguments are good: a status of three digits, a name and a
  value, or lines with at least one header. (Text without any header line adds nothing and returns 0.)
\<close>

theorem response_calls_refused:
  assumes "request_state conn \<noteq> expected_state op"
  shows "snd (response_step op conn) = conn \<and> (good_arguments op \<longrightarrow> fst (response_step op conn) < 0)"
proof -
  have "good_arguments op \<longrightarrow> fst (response_step op conn) < 0"
  proof (cases op)
    case (Op_add_lines l)
    then show ?thesis using assms add_headers_refused [of conn]
      by (auto simp: good_arguments_def expected_state_def mg_response_header_add_lines_def split: option.splits)
  qed (use assms in \<open>auto simp: good_arguments_def expected_state_def mg_response_header_start_def
        mg_response_header_add_def mg_response_header_send_def\<close>)
  then show ?thesis using response_step_refused [OF assms] by simp
qed

lemma response_calls_refused_witness:
  "snd (response_step Op_send test_connection) = test_connection \<and> fst (response_step Op_send test_connection) < 0"
  using response_calls_refused [of test_connection Op_send]
  by (simp add: expected_state_def good_arguments_def test_connection_def)

text \<open>
  C17: in every state the calls can reach from a fresh connection the state is one of the
  five values, the header array of 64 elements is not overrun, and as long as the head is
  not sent nothing is on the wire.
\<close>

theorem response_states:
  assumes "response_reach c0 c" "request_state c0 = 0" "rsp_headers (response_info c0) = []"
  shows "request_state c \<in> {0, 1, 2, 3, 10} \<and> length (rsp_headers (response_info c)) \<le> MG_MAX_HEADERS \<and>
    (request_state c \<in> {0, 1} \<longrightarrow> wire c = wire c0)"
  using response_reach_inv [OF assms(1,2)] assms(3) by (simp add: response_inv_def)

lemma response_states_witness:
  "\<exists>c. response_reach test_connection c \<and> request_state c = 1 \<and> wire c = []"
proof -
  obtain r c where s: "response_step (Op_start 200) test_connection = (r, c)" by fastforce
  then have reach: "response_reach test_connection c" by (rule reach_step [OF reach_start])
  have "request_state c = 1" using s
    by (auto simp: mg_response_header_start_def not_server_def free_buffered_response_header_list_def test_connection_def)
  then show ?thesis using response_states [OF reach] reach by (auto simp: test_connection_def)
qed

text \<open>
  A response without a reason phrase loses its first header: the parser skips the line
  end as white space and takes the header line for the status text.
\<close>

lemma empty_reason_loses_header:
  assumes "header_wf h" "\<forall>c \<in> set (hdr_value h). isprint c"
  shows "parse_http_response (render_lines [''HTTP/1.1 200 '', header_line h] @ CRLF) ri =
    (int (length (render_lines [''HTTP/1.1 200 '', header_line h]) + 2),
     ri\<lparr> rsp_http_version := Some ''1.1'', rsp_status_code := 200, status_text := Some (header_line h), rsp_headers := [] \<rparr>)"
proof -
  let ?ls = "[''HTTP/1.1 200 '', header_line h]"
  let ?buf = "render_lines ?ls @ CRLF"
  let ?t = "header_line h @ CR # LF # [CR]"
  obtain n ns where n: "hdr_name h = n # ns" "name_char n" using assms(1) by (cases "hdr_name h") (auto simp: header_wf_def)
  then have g: "isgraph n" "\<not> isspace n" by (auto simp: name_char_def ctype_simps)
  have pr: "\<forall>c \<in> set (header_line h). isprint c"
  proof -
    have "name_char c \<Longrightarrow> isprint c" for c by (auto simp: name_char_def isprint_def)
    then have "\<forall>c \<in> set (hdr_name h). isprint c" using assms(1) by (auto simp: header_wf_def)
    moreover have "isprint (CHR '':'')" "isprint SP" by (simp_all add: isprint_def)
    ultimately show ?thesis unfolding header_line_def using assms(2) by auto
  qed
  have hd: "hd ?buf = CHR ''H''" "?buf \<noteq> []" "dropWhile isspace ?buf = ?buf" "\<not> iscntrl (CHR ''H'')"
    by (auto simp: ctype_simps)
  have lines: "\<forall>l \<in> set ?ls. l \<noteq> [] \<and> (\<forall>c \<in> set l. line_char c)"
  proof -
    have "header_line h \<noteq> []" using n by (simp add: header_line_def)
    moreover have "\<forall>c \<in> set (header_line h). line_char c" using pr by (simp add: line_char_def)
    moreover have "\<forall>c \<in> set ''HTTP/1.1 200 ''. line_char c" by (simp add: line_char_def isprint_def)
    ultimately show ?thesis by simp
  qed
  have len: "get_http_header_len ?buf = int (length (render_lines ?ls) + 2)"
    using header_len_lines [OF _ lines, of 0 "[]"]
    by (simp add: get_http_header_len_def CRLF_def del: render_lines_simps)
  have head: "take (length (render_lines ?ls) + 2 - 1) ?buf = ''HTTP/'' @ ''1.1'' @ SP # ''200'' @ SP # CR # LF # ?t"
    by (simp add: CRLF_def)
  have s1: "skip_to_end_of_word_and_terminate (''1.1'' @ SP # ''200'' @ SP # CR # LF # ?t) False = (True, ''1.1'', ''200'' @ SP # CR # LF # ?t)"
    by (rule skip_word_render) (simp_all add: word_char_def ctype_simps)
  have s2: "skip_to_end_of_word_and_terminate (''200'' @ SP # CR # LF # ?t) False = (True, ''200'', ?t)"
    using n g by (simp add: skip_to_end_of_word_and_terminate_def Let_def word_char_def header_line_def)
      (simp add: ctype_simps)
  have st: "strtol 10 ''200'' = (200, [])"
    by (simp add: strtol_def scan_number_def Let_def digit_of_def ctype_simps clamp_def)
  have tx: "takeWhile isprint ?t = header_line h" "dropWhile isprint ?t = CR # LF # [CR]"
    using pr by (simp_all add: takeWhile_append dropWhile_append isprint_def)
  have sp: "dropWhile isspace (LF # [CR]) = []" by (simp add: isspace_def)
  have t5: "take 5 (''HTTP/'' @ r) = ''HTTP/''" "drop 5 (''HTTP/'' @ r) = r" for r
    by (simp_all add: eval_nat_numeral)
  have pl: "parse_response_lines (''HTTP/'' @ ''1.1'' @ SP # ''200'' @ SP # CR # LF # ?t) r =
    (True, r\<lparr> rsp_http_version := Some ''1.1'', rsp_status_code := 200, status_text := Some (header_line h), rsp_headers := [] \<rparr>)" for r
    unfolding parse_response_lines_def t5 s1 s2 prod.case Let_def st tx list.sel sp parse_http_headers_Nil hd0_simps
    by (simp add: isgraph_def)
  define k where "k = length (render_lines ?ls) + 2"
  define B where "B = ?buf"
  note facts = hd len head [folded k_def] k_def [symmetric]
  have "parse_http_response B ri = (int k, snd (parse_response_lines (take (k - 1) B) (reset_response ri)))"
  proof -
    have f: "hd B = CHR ''H''" "B \<noteq> []" "dropWhile isspace B = B" "get_http_header_len B = int k"
      "hd0 (take (k - 1) B) = CHR ''H''" "k > 0"
      using facts by (simp_all add: B_def k_def del: render_lines_simps)
    obtain r' where r: "parse_response_lines (take (k - 1) B) (reset_response ri) = (True, r')"
      unfolding B_def head [folded k_def] pl by blast
    show ?thesis
      unfolding parse_http_response_def Let_def f(3,4) nat_int
      using f hd(4) r by (simp del: One_nat_def)
  qed
  then show ?thesis
    unfolding B_def head [folded k_def] pl by (simp add: k_def reset_response_def)
qed

lemma empty_reason_loses_header_witness:
  "\<exists>n. parse_http_response (render_lines [''HTTP/1.1 200 '', header_line \<lparr> hdr_name = ''Content-Length'', hdr_value = ''5'' \<rparr>] @ CRLF)
     (response_info test_connection) =
   (n, (response_info test_connection)\<lparr> rsp_http_version := Some ''1.1'', rsp_status_code := 200,
      status_text := Some ''Content-Length: 5'', rsp_headers := [] \<rparr>)"
  by (subst empty_reason_loses_header)
     (simp_all add: header_wf_def name_char_def line_char_def ctype_simps header_line_def)

end
