(* ===== verification/Http_Body.thy ===== *)
theory Http_Body
  imports Response
begin

text \<open>
  Reading and writing message bodies (\<open>src/civetweb.c\<close>, \<open>mg_read_inner\<close>, \<open>mg_read\<close> with
  the chunked transfer coding, \<open>discard_unread_request_data\<close> and \<open>mg_send_chunk\<close>). A read returns
  the C result, the bytes stored in the caller's buffer and the connection. All loops
  terminate because every round takes at least one byte from the buffer or from the peer.
\<close>

section \<open>Plain reads\<close>

definition INT64_MAX :: int where "INT64_MAX = 9223372036854775807"

definition mg_read_inner :: "mg_connection \<Rightarrow> nat \<Rightarrow> int \<times> string \<times> mg_connection" where
  "mg_read_inner conn len =
     (let len64 = (if int len > INT_MAX then INT_MAX else int len);
          clen = (if content_len conn < 0 then INT64_MAX else content_len conn)
      in if consumed_content conn < clen
         then let left_to_read = clen - consumed_content conn;
                  len64 = (if left_to_read < len64 then left_to_read else len64);
                  buffered_len = int (length (conn_buf conn)) - int (request_len conn) - consumed_content conn;
                  bl = (if buffered_len > 0 then (if len64 < buffered_len then len64 else buffered_len) else 0);
                  body = take (nat bl) (drop (request_len conn + nat (consumed_content conn)) (conn_buf conn));
                  conn1 = conn\<lparr> consumed_content := consumed_content conn + bl \<rparr>
              in case pull_all conn1 (nat (len64 - bl)) of
                   (n, d, conn2) \<Rightarrow>
                     if n \<ge> 0
                     then (bl + n, body @ d, conn2\<lparr> consumed_content := consumed_content conn2 + n \<rparr>)
                     else (if bl > 0 then bl else n, body, conn2)
         else (0, [], conn))"

text \<open>The bytes that can still be read: in the buffer and from the peer, with the events.\<close>

fun script_size :: "recv_event list \<Rightarrow> nat" where
  "script_size [] = 0"
| "script_size (Recv s # es) = Suc (length s + script_size es)"
| "script_size (Recv_Late s # es) = Suc (length s + script_size es)"
| "script_size (_ # es) = Suc (script_size es)"

definition avail :: "mg_connection \<Rightarrow> nat" where
  "avail conn = nat (int (length (conn_buf conn)) - int (request_len conn) - consumed_content conn) +
     script_size (recv_script conn)"

lemma pull_step_size: "pull_step conn len = (n, d, c) \<Longrightarrow> script_size (recv_script c) + length d \<le> script_size (recv_script conn)"
  by (cases "(recv_script conn, len)" rule: pull_inner.cases) (auto simp: pull_step_def min_def split: if_splits)

lemma pull_loop_size:
  "pull_loop conn len data = (n, d, c) \<Longrightarrow>
     length data \<le> length d \<and> script_size (recv_script c) + (length d - length data) \<le> script_size (recv_script conn)"
proof (induction conn len data arbitrary: n d c rule: pull_loop.induct)
  case (1 conn len data)
  obtain n1 d1 c1 where step: "pull_step conn len = (n1, d1, c1)" by (metis prod_cases3)
  note p = pull_step_size [OF step] and st = step [symmetric]
  have ge: "-2 \<le> n1" using pull_step_ge [OF st] .
  let ?timeout = "elapsed conn \<le> request_timeout conn * 1000000"
  consider "len = 0 \<or> stop_flag conn"
    | "0 < len" "\<not> stop_flag conn" "n1 = -2 \<or> n1 = -1 \<and> \<not> ?timeout \<or> n1 = 0"
    | "0 < len" "\<not> stop_flag conn" "n1 = -1" ?timeout
    | "0 < len" "\<not> stop_flag conn" "0 < n1" using ge by linarith
  then show ?case
  proof cases
    case 1
    then show ?thesis using "1.prems" by (subst (asm) pull_loop.simps) auto
  next
    case 2
    then have "d = data" "c = c1"
      using "1.prems" step by (subst (asm) pull_loop.simps; auto split: if_splits)+
    then show ?thesis using p by simp
  next
    case 3
    then have run: "pull_loop c1 len data = (n, d, c)"
      using "1.prems" step by (subst (asm) pull_loop.simps) simp
    show ?thesis using "1.IH"(1) [OF _ st refl _ _ _ run] 3 p by auto
  next
    case 4
    then have run: "pull_loop c1 (len - nat n1) (data @ d1) = (n, d, c)"
      using "1.prems" step by (subst (asm) pull_loop.simps) simp
    show ?thesis using "1.IH"(2) [OF _ st refl _ _ _ run] 4 p by auto
  qed
qed

lemma avail_update [simp]:
  "avail (conn\<lparr> content_len := n \<rparr>) = avail conn" "avail (conn\<lparr> is_chunked := k \<rparr>) = avail conn"
  by (simp_all add: avail_def)

lemma mg_read_inner_avail:
  assumes "mg_read_inner conn len = (n, d, c)"
  shows "avail c \<le> avail conn" "1 \<le> n \<Longrightarrow> avail c < avail conn"
proof -
  have "avail c \<le> avail conn \<and> (1 \<le> n \<longrightarrow> avail c < avail conn)"
  proof (cases "consumed_content conn < (if content_len conn < 0 then INT64_MAX else content_len conn)")
    case False
    then show ?thesis using assms by (auto simp: mg_read_inner_def Let_def)
  next
    case True
    define clen where "clen = (if content_len conn < 0 then INT64_MAX else content_len conn)"
    define l1 where "l1 = (if int len > INT_MAX then INT_MAX else int len)"
    define l2 where "l2 = (if clen - consumed_content conn < l1 then clen - consumed_content conn else l1)"
    define bu where "bu = int (length (conn_buf conn)) - int (request_len conn) - consumed_content conn"
    define bl where "bl = (if bu > 0 then (if l2 < bu then l2 else bu) else 0)"
    define c1 where "c1 = conn\<lparr> consumed_content := consumed_content conn + bl \<rparr>"
    obtain k e c2 where p: "pull_all c1 (nat (l2 - bl)) = (k, e, c2)" by (metis prod_cases3)
    note f = pull_all_data [OF p] and s = pull_loop_size [OF p [unfolded pull_all_def]]
    have l1: "0 \<le> l1" by (simp add: l1_def INT_MAX_def)
    have l2: "0 \<le> l2" using l1 True by (simp add: l2_def clen_def)
    have bl: "0 \<le> bl" "bu > 0 \<longrightarrow> bl \<le> bu" "bu \<le> 0 \<longrightarrow> bl = 0" using l2 by (auto simp: bl_def)
    have c2: "conn_buf c2 = conn_buf conn" "request_len c2 = request_len conn"
      "consumed_content c2 = consumed_content conn + bl"
      using io_only_fields [OF f(4)] by (simp_all add: c1_def)
    have sz: "script_size (recv_script c2) + length e \<le> script_size (recv_script conn)"
      using s by (simp add: c1_def)
    have r: "(n, d, c) = (if k \<ge> 0
        then (bl + k, take (nat bl) (drop (request_len conn + nat (consumed_content conn)) (conn_buf conn)) @ e,
              c2\<lparr> consumed_content := consumed_content c2 + k \<rparr>)
        else (if bl > 0 then bl else k, take (nat bl) (drop (request_len conn + nat (consumed_content conn)) (conn_buf conn)), c2))"
      using assms True p unfolding mg_read_inner_def Let_def l1_def [symmetric] clen_def [symmetric]
        l2_def [symmetric] bu_def [symmetric] bl_def [symmetric] c1_def [symmetric] by (simp del: take_append)
    have av: "avail conn = nat bu + script_size (recv_script conn)" by (simp add: avail_def bu_def)
    show ?thesis
    proof (cases "k \<ge> 0")
      case True
      then have k: "k = int (length e)" using f(3) by auto
      have "avail c = nat (bu - bl - k) + script_size (recv_script c2)" "n = bl + k"
        using r True c2 by (auto simp: avail_def bu_def algebra_simps)
      then show ?thesis using av sz bl k by auto
    next
      case False
      have "avail c = nat (bu - bl) + script_size (recv_script c2)" "n = (if bl > 0 then bl else k)"
        using r False c2 by (auto simp: avail_def bu_def algebra_simps)
      then show ?thesis using av sz bl False by (auto split: if_splits)
    qed
  qed
  then show "avail c \<le> avail conn" "1 \<le> n \<Longrightarrow> avail c < avail conn" by auto
qed

section \<open>The chunked coding\<close>

text \<open>The next character: \<open>content_len\<close> grows by one, then one byte is read.\<close>

definition read_char :: "mg_connection \<Rightarrow> char option \<times> mg_connection" where
  "read_char conn =
     (case mg_read_inner (conn\<lparr> content_len := content_len conn + 1 \<rparr>) 1 of
        (n, d, conn') \<Rightarrow> (if n = 1 then Some (hd0 d) else None, conn'))"

lemma read_char_avail:
  "read_char conn = (r, c) \<Longrightarrow> avail c \<le> avail conn \<and> (r \<noteq> None \<longrightarrow> avail c < avail conn)"
  using mg_read_inner_avail [of "conn\<lparr> content_len := content_len conn + 1 \<rparr>" 1]
  by (auto simp: read_char_def split: prod.splits if_splits)

text \<open>The \<open>do\<close> loop over a chunk extension; the result is the character left in \<open>lenbuf[i]\<close>.\<close>

function skip_extension :: "mg_connection \<Rightarrow> char \<Rightarrow> char \<times> mg_connection" where
  "skip_extension conn ch =
     (case read_char conn of
        (None, conn') \<Rightarrow> (ch, conn')
      | (Some c, conn') \<Rightarrow> if c \<noteq> CR then skip_extension conn' c else (c, conn'))"
  by pat_completeness auto
termination
  by (relation "measure (\<lambda>(conn, ch). avail conn)") (auto dest: read_char_avail [OF sym])

declare skip_extension.simps [simp del]

text \<open>
  The loop over the line of the chunk size: \<open>n\<close> elements of \<open>lenbuf\<close> are left and \<open>acc\<close> holds
  the characters stored so far. The result is the chunk size with the text behind its digits.
\<close>

fun chunk_size_loop :: "nat \<Rightarrow> string \<Rightarrow> mg_connection \<Rightarrow> (nat \<times> string) option \<times> mg_connection" where
  "chunk_size_loop 0 acc conn = (None, conn)"
| "chunk_size_loop (Suc n) acc conn =
     (case read_char conn of
        (r, conn1) \<Rightarrow>
          let ch0 = (case r of None \<Rightarrow> NUL | Some c \<Rightarrow> c) in
          case (if acc \<noteq> [] \<and> ch0 = CHR '';'' then skip_extension conn1 ch0 else (ch0, conn1)) of
            (ch, conn2) \<Rightarrow>
              if acc \<noteq> [] \<and> ch = CR \<and> last acc \<noteq> CR then chunk_size_loop n (acc @ [ch]) conn2
              else if length acc > 1 \<and> ch = LF \<and> last acc = CR then (Some (strtoul 16 (acc @ [ch])), conn2)
              else if \<not> isxdigit ch then (None, conn2)
              else chunk_size_loop n (acc @ [ch]) conn2)"

text \<open>The loop over the trailer; the result is whether it was complete.\<close>

function trailer_loop :: "nat \<Rightarrow> mg_connection \<Rightarrow> bool \<times> mg_connection" where
  "trailer_loop crlf_count conn =
     (if crlf_count < 4
      then case read_char conn of
             (None, conn') \<Rightarrow> (False, conn')
           | (Some c, conn') \<Rightarrow>
               if crlf_count = 0 \<or> crlf_count = 2
               then trailer_loop (if c = CR then crlf_count + 1 else 0) conn'
               else if c = LF then trailer_loop (crlf_count + 1) conn'
               else (False, conn')
      else (True, conn))"
  by pat_completeness auto
termination
  by (relation "measure (\<lambda>(k, conn). avail conn)") (auto dest: read_char_avail [OF sym])

declare trailer_loop.simps [simp del]

lemma skip_extension_avail: "skip_extension conn ch = (r, c) \<Longrightarrow> avail c \<le> avail conn"
proof (induction conn ch arbitrary: r c rule: skip_extension.induct)
  case (1 conn ch)
  obtain x c1 where rc: "read_char conn = (x, c1)" by fastforce
  note a = read_char_avail [OF rc]
  show ?case
  proof (cases x)
    case None
    then show ?thesis using "1.prems" rc a by (subst (asm) skip_extension.simps) auto
  next
    case (Some k)
    then show ?thesis using "1.IH" [OF rc [symmetric] Some] "1.prems" rc a
      by (subst (asm) skip_extension.simps) (auto split: if_splits dest: order_trans)
  qed
qed

lemma chunk_size_loop_avail:
  "chunk_size_loop n acc conn = (r, c) \<Longrightarrow> avail c \<le> avail conn \<and> (r \<noteq> None \<longrightarrow> avail c < avail conn)"
proof (induction n arbitrary: acc conn r c)
  case 0
  then show ?case by auto
next
  case (Suc n)
  obtain x c1 where rc: "read_char conn = (x, c1)" by fastforce
  define ch0 where "ch0 = (case x of None \<Rightarrow> NUL | Some c \<Rightarrow> c)"
  obtain ch c2 where ch: "(if acc \<noteq> [] \<and> ch0 = CHR '';'' then skip_extension c1 ch0 else (ch0, c1)) = (ch, c2)" by fastforce
  note a = read_char_avail [OF rc]
  have a2: "avail c2 \<le> avail c1" using ch skip_extension_avail by (auto split: if_splits)
  have ch_none: "x = None \<Longrightarrow> ch = NUL \<and> c2 = c1" using ch by (auto simp: ch0_def split: if_splits)
  have unf: "chunk_size_loop (Suc n) acc conn =
      (if acc \<noteq> [] \<and> ch = CR \<and> last acc \<noteq> CR then chunk_size_loop n (acc @ [ch]) c2
       else if length acc > 1 \<and> ch = LF \<and> last acc = CR then (Some (strtoul 16 (acc @ [ch])), c2)
       else if \<not> isxdigit ch then (None, c2)
       else chunk_size_loop n (acc @ [ch]) c2)"
    unfolding chunk_size_loop.simps rc prod.case Let_def ch0_def [symmetric] ch ..
  show ?case
  proof (cases x)
    case None
    then have "(r, c) = (None, c2)" using Suc.prems ch_none unfolding unf by (simp add: isxdigit_def isdigit_def)
    then show ?thesis using a a2 by simp
  next
    case (Some k)
    then have lt: "avail c2 < avail conn" using a a2 by simp
    then show ?thesis using Suc.prems Suc.IH [of "acc @ [ch]" c2 r c] unfolding unf
      by (auto split: if_splits)
  qed
qed

text \<open>
  Fetching a new chunk (the \<open>else\<close> branch of the loop in \<open>mg_read\<close>): \<open>None\<close> is the return of -1,
  \<open>Some True\<close> the end of the body, \<open>Some False\<close> a chunk appended.
\<close>

definition fetch_chunk :: "mg_connection \<Rightarrow> bool option \<times> mg_connection" where
  "fetch_chunk conn =
     (case chunk_size_loop 63 [] conn of
        (None, conn1) \<Rightarrow> (None, conn1\<lparr> is_chunked := 2 \<rparr>)
      | (Some (chunkSize, end), conn1) \<Rightarrow>
          if hd0 end \<noteq> CR then (None, conn1\<lparr> is_chunked := 2 \<rparr>)
          else if chunkSize = 0
          then case trailer_loop 2 (conn1\<lparr> is_chunked := 3 \<rparr>) of
                 (False, conn2) \<Rightarrow> (None, conn2\<lparr> is_chunked := 2 \<rparr>)
               | (True, conn2) \<Rightarrow> (Some True, conn2\<lparr> is_chunked := 4 \<rparr>)
          else (Some False, conn1\<lparr> content_len := to_signed 64 (content_len conn1 + to_signed 64 (int chunkSize)) \<rparr>))"

lemma fetch_chunk_avail: "fetch_chunk conn = (Some False, c) \<Longrightarrow> avail c < avail conn"
  using chunk_size_loop_avail [of 63 "[]" conn]
  by (auto simp: fetch_chunk_def split: prod.splits option.splits if_splits bool.splits)

lemma read_data_avail:
  "(read_ret, d, conn1) = mg_read_inner conn len \<Longrightarrow> \<not> read_ret < 1 \<Longrightarrow> avail conn1 < avail conn"
  using mg_read_inner_avail(2) [OF sym] by simp

lemma read_data_crlf_avail:
  "(n, x, conn2) = mg_read_inner (conn1\<lparr> content_len := k \<rparr>) 2 \<Longrightarrow> (read_ret, d, conn1) = mg_read_inner conn len \<Longrightarrow>
     \<not> read_ret < 1 \<Longrightarrow> avail conn2 < avail conn"
  using read_data_avail mg_read_inner_avail(1) [OF sym, of n x conn2] by fastforce

text \<open>The loop of \<open>mg_read\<close>: \<open>len\<close> bytes are left, \<open>all_read\<close> holds the bytes read so far.\<close>

function read_loop :: "nat \<Rightarrow> string \<Rightarrow> mg_connection \<Rightarrow> int \<times> string \<times> mg_connection" where
  "read_loop len all_read conn =
     (if len = 0 then (int (length all_read), all_read, conn)
      else if is_chunked conn \<ge> 3 then (0, all_read, conn)
      else if is_chunked conn \<noteq> 1 then (-1, all_read, conn)
      else if consumed_content conn \<noteq> content_len conn
      then case mg_read_inner conn len of
             (read_ret, d, conn1) \<Rightarrow>
               if read_ret < 1 then (-1, all_read, conn1\<lparr> is_chunked := 2 \<rparr>)
               else if consumed_content conn1 = content_len conn1
               then case mg_read_inner (conn1\<lparr> content_len := content_len conn1 + 2 \<rparr>) 2 of
                      (n, x, conn2) \<Rightarrow>
                        if n \<noteq> 2 \<or> x \<noteq> CRLF then (-1, all_read @ d, conn2\<lparr> is_chunked := 2 \<rparr>)
                        else read_loop (len - nat read_ret) (all_read @ d) conn2
               else read_loop (len - nat read_ret) (all_read @ d) conn1
      else case fetch_chunk conn of
             (None, conn1) \<Rightarrow> (-1, all_read, conn1)
           | (Some True, conn1) \<Rightarrow> (int (length all_read), all_read, conn1)
           | (Some False, conn1) \<Rightarrow> read_loop len all_read conn1)"
  by pat_completeness auto
termination
  by (relation "measure (\<lambda>(len, all_read, conn). avail conn)")
     (auto dest: fetch_chunk_avail [OF sym] read_data_avail read_data_crlf_avail)

declare read_loop.simps [simp del]

definition mg_read :: "mg_connection \<Rightarrow> nat \<Rightarrow> int \<times> string \<times> mg_connection" where
  "mg_read conn len0 =
     (let len = (if int len0 > INT_MAX then nat INT_MAX else len0)
      in if is_chunked conn \<noteq> 0 then read_loop len [] conn else mg_read_inner conn len)"

section \<open>Sending a chunk\<close>

definition mg_send_chunk :: "mg_connection \<Rightarrow> string \<Rightarrow> int \<times> mg_connection" where
  "mg_send_chunk conn chunk =
     (let lenbuf = show_hex (length chunk mod 2 ^ 32) @ CRLF
      in case mg_write conn lenbuf of
           (ret1, conn1) \<Rightarrow>
             if ret1 \<noteq> int (length lenbuf) then (-1, conn1)
             else case mg_write conn1 chunk of
               (ret2, conn2) \<Rightarrow>
                 if ret2 \<noteq> int (length chunk) then (-1, conn2)
                 else case mg_write conn2 CRLF of
                   (ret3, conn3) \<Rightarrow>
                     if ret3 \<noteq> 2 then (-1, conn3) else (ret1 + ret2 + ret3, conn3))"

section \<open>Reading from a peer that keeps delivering\<close>

definition stream :: "mg_connection \<Rightarrow> string" where
  "stream conn = drop (request_len conn + nat (consumed_content conn)) (conn_buf conn) @ recv_data (recv_script conn)"

text \<open>A connection whose request is complete in the buffer and whose peer delivers data.\<close>

definition body_conn :: "mg_connection \<Rightarrow> bool" where
  "body_conn conn \<longleftrightarrow> steady conn \<and> 0 \<le> consumed_content conn \<and> request_len conn \<le> length (conn_buf conn)"

definition same_body :: "mg_connection \<Rightarrow> mg_connection \<Rightarrow> bool" where
  "same_body c c' \<longleftrightarrow> conn_buf c' = conn_buf c \<and> request_len c' = request_len c \<and> is_chunked c' = is_chunked c \<and>
     content_len c' = content_len c"

lemma steady_cong [simp]: "steady (c\<lparr> consumed_content := k \<rparr>) = steady c"
  "steady (c\<lparr> content_len := k \<rparr>) = steady c" "steady (c\<lparr> is_chunked := j \<rparr>) = steady c"
  by (simp_all add: steady_def)

lemma stream_cong [simp]: "stream (c\<lparr> content_len := k \<rparr>) = stream c" "stream (c\<lparr> is_chunked := j \<rparr>) = stream c"
  by (simp_all add: stream_def)

lemma body_conn_cong [simp]: "body_conn (c\<lparr> content_len := k \<rparr>) = body_conn c" "body_conn (c\<lparr> is_chunked := j \<rparr>) = body_conn c"
  by (simp_all add: body_conn_def)

lemma mg_read_inner_steady:
  assumes b: "body_conn conn" and c: "consumed_content conn < content_len conn" and i: "int len \<le> INT_MAX"
    and L: "int L = min (int len) (content_len conn - consumed_content conn)" "L \<le> length (stream conn)"
  obtains c' where "mg_read_inner conn len = (int L, take L (stream conn), c')" "body_conn c'"
    "stream c' = drop L (stream conn)" "consumed_content c' = consumed_content conn + int L" "same_body conn c'"
proof -
  let ?pos = "request_len conn + nat (consumed_content conn)"
  let ?B = "drop ?pos (conn_buf conn)"
  let ?R = "recv_data (recv_script conn)"
  have cc: "0 \<le> consumed_content conn" "request_len conn \<le> length (conn_buf conn)" "steady conn"
    using b by (auto simp: body_conn_def)
  define bl where "bl = min (int L) (int (length ?B))"
  have bl: "0 \<le> bl" "bl \<le> int L" "nat bl = min L (length ?B)" by (auto simp: bl_def)
  have buffered: "(if int (length (conn_buf conn)) - int (request_len conn) - consumed_content conn > 0
      then (if int L < int (length (conn_buf conn)) - int (request_len conn) - consumed_content conn then int L
            else int (length (conn_buf conn)) - int (request_len conn) - consumed_content conn) else 0) = bl"
    using cc by (auto simp: bl_def)
  define c1 where "c1 = conn\<lparr> consumed_content := consumed_content conn + bl \<rparr>"
  have st: "steady c1" using cc by (simp add: c1_def)
  define K where "K = nat (int L - bl)"
  have K: "K = L - min L (length ?B)" using bl by (simp add: K_def)
  have rc: "recv_data (recv_script c1) = ?R" by (simp add: c1_def)
  have le: "K \<le> length (recv_data (recv_script c1))" using L(2) unfolding K rc by (simp add: stream_def)
  obtain c2 where p: "pull_all c1 K = (int K, take K ?R, c2)" "steady c2"
    by (rule pull_all_steady [OF st le]) (simp add: rc)
  note f = pull_all_data [OF p(1)]
  note io = io_only_fields [OF f(4)]
  define c' where "c' = c2\<lparr> consumed_content := consumed_content c2 + (int L - bl) \<rparr>"
  have pos: "bl + int K = int L" "int K = int L - bl" using bl by (auto simp: K_def)
  have clen: "(if content_len conn < 0 then INT64_MAX else content_len conn) = content_len conn" using cc c by auto
  have il: "(if int len > INT_MAX then INT_MAX else int len) = int len" using i by simp
  have l2: "(if content_len conn - consumed_content conn < int len then content_len conn - consumed_content conn else int len) = int L"
    using L(1) by auto
  have "mg_read_inner conn len = (int L, take (nat bl) ?B @ take K ?R, c')"
    unfolding mg_read_inner_def Let_def clen il l2 buffered c1_def [symmetric] K_def [symmetric] p(1) prod.case
    using c bl pos by (simp add: c'_def)
  moreover have "take (nat bl) ?B @ take K ?R = take L (stream conn)"
    unfolding bl(3) K stream_def by (cases "L \<le> length ?B") (simp_all add: take_append)
  moreover have "stream c' = drop L (stream conn)"
  proof -
    have "\<not> stop_flag c2" using p(2) by (simp add: steady_def)
    then have "?R = take K ?R @ recv_data (recv_script c2)" using f(2) rc by simp
    then have r2: "recv_data (recv_script c2) = drop K ?R" by (metis append_take_drop_id same_append_eq)
    then have "recv_data (recv_script c2) = drop (L - length ?B) ?R" unfolding K by (simp add: min_def)
    moreover have "consumed_content c' = consumed_content conn + int L"
      using io by (simp add: c'_def c1_def)
    ultimately show ?thesis using io cc
      by (simp add: stream_def c'_def c1_def nat_add_distrib drop_append add.commute add.left_commute)
  qed
  moreover have "body_conn c'" using io cc p(2) bl by (simp add: body_conn_def c'_def c1_def)
  moreover have "consumed_content c' = consumed_content conn + int L" using io by (simp add: c'_def c1_def)
  moreover have "same_body conn c'" using io by (simp add: same_body_def c'_def c1_def)
  ultimately show ?thesis using that by simp
qed

section \<open>Reading a chunked body\<close>

definition synced :: "mg_connection \<Rightarrow> bool" where
  "synced conn \<longleftrightarrow> body_conn conn \<and> consumed_content conn = content_len conn"

lemma synced_cong [simp]: "synced (c\<lparr> is_chunked := j \<rparr>) = synced c"
  by (simp add: synced_def)

lemma read_char_steady:
  assumes "synced conn" "stream conn = x # r"
  obtains c' where "read_char conn = (Some x, c')" "synced c'" "stream c' = r" "is_chunked c' = is_chunked conn"
    "consumed_content c' = consumed_content conn + 1"
proof -
  let ?c = "conn\<lparr> content_len := content_len conn + 1 \<rparr>"
  have s: "body_conn ?c" "stream ?c = x # r" "consumed_content conn = content_len conn"
    using assms by (simp_all add: synced_def)
  obtain c' where c: "mg_read_inner ?c 1 = (int 1, take 1 (stream ?c), c')" "body_conn c'"
    "stream c' = drop 1 (stream ?c)" "consumed_content c' = consumed_content ?c + int 1" "same_body ?c c'"
    by (rule mg_read_inner_steady [of ?c 1 1]) (use s in \<open>auto simp: INT_MAX_def\<close>)
  show ?thesis
    by (rule that [of c']) (use c s in \<open>simp_all add: read_char_def synced_def same_body_def\<close>)
qed

lemma isxdigit_special: "\<not> isxdigit CR" "\<not> isxdigit (CHR '';'')" "\<not> isxdigit LF"
  by (simp_all add: ctype_simps)

lemma chunk_size_digits:
  "synced c \<Longrightarrow> \<forall>x \<in> set (acc @ ds). isxdigit x \<Longrightarrow> acc @ ds \<noteq> [] \<Longrightarrow> stream c = ds @ CR # LF # r \<Longrightarrow>
     length ds + 2 \<le> n \<Longrightarrow>
     \<exists>c'. chunk_size_loop n acc c = (Some (strtoul 16 (acc @ ds @ [CR, LF])), c') \<and> synced c' \<and> stream c' = r \<and>
          is_chunked c' = is_chunked c \<and> consumed_content c' = consumed_content c + int (length ds) + 2"
proof (induction ds arbitrary: acc c n)
  case Nil
  obtain m where m: "n = Suc (Suc m)" using Nil.prems(5) by (metis add_2_eq_Suc le_Suc_ex list.size(3) add_0)
  obtain c1 where c1: "read_char c = (Some CR, c1)" "synced c1" "stream c1 = LF # r" "is_chunked c1 = is_chunked c"
    "consumed_content c1 = consumed_content c + 1"
    by (rule read_char_steady [OF Nil.prems(1), of CR "LF # r"]) (use Nil.prems in auto)
  obtain c2 where c2: "read_char c1 = (Some LF, c2)" "synced c2" "stream c2 = r" "is_chunked c2 = is_chunked c1"
    "consumed_content c2 = consumed_content c1 + 1"
    by (rule read_char_steady [OF c1(2,3)])
  have "isxdigit (last acc)" using Nil.prems(2,3) last_in_set [of acc] by auto
  then have a: "acc \<noteq> []" "last acc \<noteq> CR" using Nil.prems(3) isxdigit_special(1) by force+
  have "chunk_size_loop n acc c = (Some (strtoul 16 (acc @ [CR, LF])), c2)"
    using a c1 c2 by (cases acc) (simp_all add: m)
  then show ?case using c1 c2 by auto
next
  case (Cons d ds)
  obtain m where m: "n = Suc m" using Cons.prems(5) by (cases n) auto
  obtain c1 where c1: "read_char c = (Some d, c1)" "synced c1" "stream c1 = ds @ CR # LF # r" "is_chunked c1 = is_chunked c"
    "consumed_content c1 = consumed_content c + 1"
    by (rule read_char_steady [OF Cons.prems(1), of d "ds @ CR # LF # r"]) (use Cons.prems in auto)
  have d: "isxdigit d" "d \<noteq> CR" "d \<noteq> LF" "d \<noteq> CHR '';''" using Cons.prems isxdigit_special by auto
  have "chunk_size_loop n acc c = chunk_size_loop m (acc @ [d]) c1" using d c1 by (simp add: m)
  moreover obtain c' where "chunk_size_loop m (acc @ [d]) c1 = (Some (strtoul 16 ((acc @ [d]) @ ds @ [CR, LF])), c')"
    "synced c'" "stream c' = r" "is_chunked c' = is_chunked c1" "consumed_content c' = consumed_content c1 + int (length ds) + 2"
    using Cons.IH [OF c1(2) _ _ c1(3), of "acc @ [d]" m] Cons.prems by (auto simp: m)
  ultimately show ?case using c1 by auto
qed

lemma trailer_end:
  assumes "synced c" "stream c = CR # LF # r"
  obtains c' where "trailer_loop 2 c = (True, c')" "synced c'" "stream c' = r"
proof -
  obtain c1 where c1: "read_char c = (Some CR, c1)" "synced c1" "stream c1 = LF # r"
    by (rule read_char_steady [OF assms])
  obtain c2 where c2: "read_char c1 = (Some LF, c2)" "synced c2" "stream c2 = r"
    by (rule read_char_steady [OF c1(2,3)])
  have "trailer_loop 2 c = (True, c2)"
    by (subst trailer_loop.simps, simp add: c1, subst trailer_loop.simps, simp add: c2, subst trailer_loop.simps, simp)
  then show ?thesis using that c2 by blast
qed

definition chunk_enc :: "string \<Rightarrow> string" where
  "chunk_enc c = show_hex (length c) @ CRLF @ c @ CRLF"

definition last_chunk :: string where "last_chunk = ''0'' @ CRLF @ CRLF"

definition chunked_body :: "string list \<Rightarrow> string" where
  "chunked_body cs = concat (map chunk_enc cs) @ last_chunk"

text \<open>A connection inside a chunked body: \<open>d\<close> is left of the current chunk, then come the chunks \<open>cs\<close>, then \<open>r\<close>.\<close>

definition in_body :: "mg_connection \<Rightarrow> string \<Rightarrow> string list \<Rightarrow> string \<Rightarrow> bool" where
  "in_body c d cs r \<longleftrightarrow> body_conn c \<and> is_chunked c = 1 \<and> content_len c = consumed_content c + int (length d) \<and>
     stream c = (if d = [] then [] else d @ CRLF) @ chunked_body cs @ r \<and> [] \<notin> set cs \<and>
     consumed_content c + int (length (stream c)) < 2 ^ 63"


lemma length_show_base: "2 \<le> b \<Longrightarrow> 0 < k \<Longrightarrow> n < b ^ k \<Longrightarrow> length (show_base b n) \<le> k"
proof (induction b n arbitrary: k rule: show_base.induct)
  case (1 b n)
  show ?case
  proof (cases "n < b")
    case True
    then show ?thesis using 1 by (simp add: show_base.simps [of b n])
  next
    case False
    then have step: "show_base b n = show_base b (n div b) @ [hex_digit (n mod b)]"
      using 1(2) by (subst show_base.simps) simp
    obtain j where k: "k = Suc j" using "1.prems" by (cases k) auto
    have "0 < j" using False "1.prems" k by (cases j) auto
    moreover have "n div b < b ^ j" using "1.prems" k by (simp add: less_mult_imp_div_less mult.commute)
    ultimately show ?thesis using "1.IH" [of j] False "1.prems" by (simp add: step k)
  qed
qed

lemma show_hex_length: "n < 2 ^ 64 \<Longrightarrow> length (show_hex n) \<le> 16"
  using length_show_base [of 16 16 n] by (simp add: show_hex_def)

lemma show_hex_digits: "x \<in> set (show_hex n) \<Longrightarrow> isxdigit x"
  using show_base_digits [of 16 x n] hex_digit_class by (auto simp: show_hex_def)

lemma chunk_size_read:
  assumes "synced c" "stream c = show_hex n @ CR # LF # r" "n < 2 ^ 64"
  obtains c' where "chunk_size_loop 63 [] c = (Some (n, [CR, LF]), c')" "synced c'" "stream c' = r"
    "is_chunked c' = is_chunked c" "consumed_content c' = consumed_content c + int (length (show_hex n)) + 2"
proof -
  have "strtoul 16 (show_hex n @ [CR, LF]) = (n, [CR, LF])"
    using strtoul_show [of 16 "[CR, LF]" n] assms(3)
    by (simp add: show_hex_def nondigit_start_def digit_of_def ctype_simps tolower_def)
  then show ?thesis
    using chunk_size_digits [OF assms(1), of "[]" "show_hex n" r 63] assms show_hex_length [OF assms(3)]
      show_hex_digits [of _ n] show_base_nonempty [of 16 n] that
    by (auto simp: show_hex_def)
qed

lemma fetch_chunk_data:
  assumes b: "in_body c [] (x # cs) r"
  obtains c' where "fetch_chunk c = (Some False, c')" "in_body c' x cs r"
proof -
  have s: "synced c" "stream c = show_hex (length x) @ CR # LF # x @ CRLF @ chunked_body cs @ r" "x \<noteq> []"
    "is_chunked c = 1" "[] \<notin> set cs" "consumed_content c + int (length (stream c)) < 2 ^ 63"
    using b by (auto simp: in_body_def synced_def chunked_body_def chunk_enc_def CRLF_def)
  have x: "length x \<le> length (stream c)" using s(2) by simp
  have "0 \<le> consumed_content c" using s(1) by (simp add: synced_def body_conn_def)
  with x s(6) have "int (length x) < 2 ^ 63" by linarith
  then have n: "length x < 2 ^ 63" by (metis of_nat_less_iff of_nat_numeral of_nat_power)
  obtain c1 where c1: "chunk_size_loop 63 [] c = (Some (length x, [CR, LF]), c1)" "synced c1"
    "stream c1 = x @ CRLF @ chunked_body cs @ r" "is_chunked c1 = is_chunked c"
    "consumed_content c1 = consumed_content c + int (length (show_hex (length x))) + 2"
    by (rule chunk_size_read [OF s(1,2)]) (use n in auto)
  define c' where "c' = c1\<lparr> content_len := content_len c1 + int (length x) \<rparr>"
  have sz: "consumed_content c1 + int (length (stream c1)) = consumed_content c + int (length (stream c))"
    using c1(3,5) s(2) by (simp add: CRLF_def)
  have nn: "0 \<le> content_len c1" "content_len c1 = consumed_content c1" using c1(2) by (auto simp: synced_def body_conn_def)
  have le: "int (length x) \<le> int (length (stream c1))" using c1(3) by simp
  have t1: "to_signed 64 (int (length x)) = int (length x)" using n by (intro to_signed_id) auto
  have t2: "to_signed 64 (content_len c1 + int (length x)) = content_len c1 + int (length x)"
    using nn le sz s(6) by (intro to_signed_id) auto
  have "fetch_chunk c = (Some False, c')"
    using c1(1) s(3) by (simp add: fetch_chunk_def t1 t2 c'_def)
  moreover have "in_body c' x cs r"
    using c1 s sz nn by (simp add: in_body_def c'_def synced_def)
  ultimately show ?thesis using that by blast
qed

lemma fetch_chunk_last:
  assumes b: "in_body c [] [] r"
  obtains c' where "fetch_chunk c = (Some True, c')" "is_chunked c' = 4" "stream c' = r" "body_conn c'"
proof -
  have s: "synced c" "stream c = show_hex 0 @ CR # LF # CR # LF # r"
    using b by (auto simp: in_body_def synced_def chunked_body_def last_chunk_def CRLF_def show_hex_def show_base.simps hex_digit_def)
  obtain c1 where c1: "chunk_size_loop 63 [] c = (Some (0, [CR, LF]), c1)" "synced c1" "stream c1 = CR # LF # r"
    by (rule chunk_size_read [OF s]) auto
  obtain c2 where c2: "trailer_loop 2 (c1\<lparr> is_chunked := 3 \<rparr>) = (True, c2)" "synced c2" "stream c2 = r"
    by (rule trailer_end [of "c1\<lparr> is_chunked := 3 \<rparr>" r]) (use c1 in auto)
  show ?thesis
    by (rule that [of "c2\<lparr> is_chunked := 4 \<rparr>"]) (use c1 c2 in \<open>auto simp: fetch_chunk_def synced_def\<close>)
qed


lemma read_loop_data:
  assumes b: "in_body c d cs r" and d: "d \<noteq> []" and len: "0 < len" "int len \<le> INT_MAX"
  obtains c' where "read_loop len acc c = read_loop (len - min len (length d)) (acc @ take len d) c'"
    "in_body c' (drop len d) cs r"
proof -
  let ?L = "min len (length d)"
  have s: "body_conn c" "is_chunked c = 1" "content_len c = consumed_content c + int (length d)"
    "stream c = d @ CRLF @ chunked_body cs @ r" "[] \<notin> set cs" "consumed_content c + int (length (stream c)) < 2 ^ 63"
    using b d by (auto simp: in_body_def)
  have dl: "0 < length d" using d by simp
  have "int ?L = min (int len) (content_len c - consumed_content c)" "?L \<le> length (stream c)"
    "consumed_content c < content_len c" using s dl by auto
  then obtain c1 where c1: "mg_read_inner c len = (int ?L, take ?L (stream c), c1)" "body_conn c1"
    "stream c1 = drop ?L (stream c)" "consumed_content c1 = consumed_content c + int ?L" "same_body c c1"
    using mg_read_inner_steady [OF s(1) _ len(2), of ?L] by metis
  have data: "take ?L (stream c) = take len d" using s(4) by (simp add: min_def)
  have rest: "stream c1 = drop ?L d @ CRLF @ chunked_body cs @ r" using c1(3) s(4) by simp
  have f: "is_chunked c1 = 1" "content_len c1 = content_len c" using c1(5) s(2) by (simp_all add: same_body_def)
  have sz: "consumed_content c1 + int (length (stream c1)) < 2 ^ 63" using c1(3,4) s(4,6) by (simp add: of_nat_diff)
  show ?thesis
  proof (cases "len < length d")
    case True
    have "consumed_content c1 \<noteq> content_len c1" using True c1(4) f(2) s(3) by simp
    then have "read_loop len acc c = read_loop (len - ?L) (acc @ take len d) c1"
      using True len dl s(2,3) c1(1) data by (subst read_loop.simps) (simp add: min_def)
    moreover have "in_body c1 (drop len d) cs r"
      using True c1 f s sz rest by (simp add: in_body_def of_nat_diff)
    ultimately show ?thesis using that by blast
  next
    case False
    then have L: "?L = length d" and dr: "drop len d = []" "take len d = d" by simp_all
    have eq: "consumed_content c1 = content_len c1" using L c1(4) f(2) s(3) by simp
    let ?c = "c1\<lparr> content_len := content_len c1 + 2 \<rparr>"
    have st: "stream ?c = CRLF @ chunked_body cs @ r" using rest L by simp
    have "int 2 = min (int 2) (content_len ?c - consumed_content ?c)" "2 \<le> length (stream ?c)"
      "consumed_content ?c < content_len ?c" "int 2 \<le> INT_MAX" "body_conn ?c"
      using eq st c1(2) by (auto simp: INT_MAX_def CRLF_def)
    then obtain c2 where c2: "mg_read_inner ?c 2 = (int 2, take 2 (stream ?c), c2)" "body_conn c2"
      "stream c2 = drop 2 (stream ?c)" "consumed_content c2 = consumed_content ?c + int 2" "same_body ?c c2"
      using mg_read_inner_steady [of ?c 2 2] by metis
    have crlf: "take 2 (stream ?c) = CRLF" "stream c2 = chunked_body cs @ r" using c2(3) st by (simp_all add: CRLF_def)
    have "int (length (stream c2)) + 2 = int (length (stream c1))"
      using c2(3) st by (simp add: CRLF_def)
    then have sz2: "consumed_content c2 + int (length (stream c2)) < 2 ^ 63"
      using sz c2(4) eq by simp
    have "read_loop len acc c = read_loop (len - ?L) (acc @ take len d) c2"
      using False len dl s(2,3) c1(1) data eq c2(1) crlf by (subst read_loop.simps) (simp add: min_def)
    moreover have "in_body c2 [] cs r"
      using c2(2,4,5) f eq s(5) sz2 crlf(2) by (simp add: in_body_def same_body_def)
    ultimately show ?thesis using that dr by metis
  qed
qed

lemma read_loop_fetch:
  assumes b: "in_body c [] (x # cs) r" and len: "0 < len"
  obtains c' where "read_loop len acc c = read_loop len acc c'" "in_body c' x cs r"
proof -
  obtain c' where c': "fetch_chunk c = (Some False, c')" "in_body c' x cs r" by (rule fetch_chunk_data [OF b])
  have "read_loop len acc c = read_loop len acc c'"
    using b len c'(1) by (subst read_loop.simps) (simp add: in_body_def)
  then show ?thesis using that c' by blast
qed

lemma read_loop_last:
  assumes b: "in_body c [] [] r" and len: "0 < len"
  obtains c' where "read_loop len acc c = (int (length acc), acc, c')" "is_chunked c' = 4" "stream c' = r" "body_conn c'"
proof -
  obtain c' where c': "fetch_chunk c = (Some True, c')" "is_chunked c' = 4" "stream c' = r" "body_conn c'"
    by (rule fetch_chunk_last [OF b])
  have "read_loop len acc c = (int (length acc), acc, c')"
    using b len c'(1) by (subst read_loop.simps) (simp add: in_body_def)
  then show ?thesis using that c' by blast
qed

lemma read_loop_zero [simp]: "read_loop 0 acc c = (int (length acc), acc, c)"
  by (subst read_loop.simps) simp

text \<open>
  What a read of \<open>len\<close> bytes gives when \<open>data\<close> is left of the body: its next \<open>len\<close> bytes, with the
  rest still to be read, or all of it with the end of the body reached and \<open>r\<close> left on the stream.
\<close>

definition body_read :: "mg_connection \<Rightarrow> string \<Rightarrow> nat \<Rightarrow> string \<Rightarrow> string \<Rightarrow> bool" where
  "body_read c acc len data r \<longleftrightarrow>
     (\<exists>c'. if len \<le> length data
           then read_loop len acc c = (int (length acc + len), acc @ take len data, c') \<and>
                (\<exists>d' cs'. in_body c' d' cs' r \<and> d' @ concat cs' = drop len data)
           else read_loop len acc c = (int (length (acc @ data)), acc @ data, c') \<and>
                is_chunked c' = 4 \<and> stream c' = r \<and> body_conn c')"

lemma body_read_none: "in_body c d cs r \<Longrightarrow> body_read c acc 0 (d @ concat cs) r"
  unfolding body_read_def by fastforce

lemma body_read_last:
  assumes "in_body c [] [] r"
  shows "body_read c acc len [] r"
proof (cases "len = 0")
  case True
  then show ?thesis using body_read_none [OF assms, of acc] by simp
next
  case False
  then have "0 < len" by simp
  then show ?thesis using read_loop_last [OF assms] unfolding body_read_def
    by (metis append_Nil2 le_zero_eq less_irrefl list.size(3))
qed

lemma body_read_step:
  assumes "read_loop len acc c = read_loop (len - k) (acc @ take k data) c1" "k \<le> length data" "k \<le> len"
    "body_read c1 (acc @ take k data) (len - k) (drop k data) r"
  shows "body_read c acc len data r"
proof -
  have "(acc @ take k data) @ take (len - k) (drop k data) = acc @ take len data"
    "drop (len - k) (drop k data) = drop len data" "length (acc @ take k data) + (len - k) = length acc + len"
    using assms(2,3) by (simp_all add: take_add [symmetric])
  moreover have "len - k \<le> length (drop k data) \<longleftrightarrow> len \<le> length data" using assms(2,3) by auto
  moreover have "(acc @ take k data) @ drop k data = acc @ data" by simp
  ultimately show ?thesis using assms(1,4) unfolding body_read_def by (simp only:)
qed

lemma read_loop_body: "in_body c d cs r \<Longrightarrow> int len \<le> INT_MAX \<Longrightarrow> body_read c acc len (d @ concat cs) r"
proof (induction cs arbitrary: c d len acc)
  case Nil
  show ?case
  proof (cases "len = 0 \<or> d = []")
    case True
    then show ?thesis using body_read_none [OF Nil.prems(1), of acc] body_read_last Nil.prems(1) by auto
  next
    case False
    obtain c1 where c1: "read_loop len acc c = read_loop (len - min len (length d)) (acc @ take len d) c1"
      "in_body c1 (drop len d) [] r" by (rule read_loop_data [OF Nil.prems(1)]) (use Nil.prems False in auto)
    have "body_read c1 (acc @ take len d) (len - min len (length d)) (drop len d) r"
    proof (cases "len \<le> length d")
      case True
      then show ?thesis using body_read_none [OF c1(2), of "acc @ take len d"] by (simp add: min_absorb1)
    next
      case False
      then show ?thesis using body_read_last [of c1 r] c1(2) by simp
    qed
    then show ?thesis using body_read_step [of len acc c "min len (length d)" d c1 r] c1(1) by (simp add: min_def split: if_splits)
  qed
next
  case (Cons x cs)
  have fetched: "body_read c acc len (concat (x # cs)) r"
    if b: "in_body c [] (x # cs) r" and l: "int len \<le> INT_MAX" for c len acc
  proof (cases "len = 0")
    case True
    with body_read_none [OF b] show ?thesis by simp
  next
    case False
    then obtain c1 where c1: "read_loop len acc c = read_loop len acc c1" "in_body c1 x cs r"
      using read_loop_fetch [OF b] by blast
    then show ?thesis using body_read_step [of len acc c 0 "concat (x # cs)" c1 r] Cons.IH [OF c1(2) l, of acc] by simp
  qed
  show ?case
  proof (cases "d = [] \<or> len = 0")
    case True
    then show ?thesis using fetched [of c len acc] body_read_none [OF Cons.prems(1), of acc] Cons.prems by auto
  next
    case False
    obtain c1 where c1: "read_loop len acc c = read_loop (len - min len (length d)) (acc @ take len d) c1"
      "in_body c1 (drop len d) (x # cs) r"
      by (rule read_loop_data [OF Cons.prems(1)]) (use Cons.prems False in auto)
    have "body_read c1 (acc @ take len d) (len - min len (length d)) (drop len d @ concat (x # cs)) r"
    proof (cases "len \<le> length d")
      case True
      then show ?thesis using body_read_none [OF c1(2), of "acc @ take len d"] by (simp add: min_absorb1)
    next
      case False
      then show ?thesis using fetched [of c1 "len - length d" "acc @ d"] c1(2) Cons.prems(2) by (simp add: min_def)
    qed
    then show ?thesis
      using body_read_step [of len acc c "min len (length d)" "d @ concat (x # cs)" c1 r] c1(1)
      by (simp add: min_def split: if_splits)
  qed
qed

section \<open>The states of a chunked read\<close>

text \<open>Once the body is complete a further read gives nothing; after an error every read fails.\<close>

lemma mg_read_finished: "3 \<le> is_chunked c \<Longrightarrow> mg_read c k = (0, [], c)"
  by (simp add: mg_read_def Let_def read_loop.simps [of _ "[]"])

lemma mg_read_failed: "is_chunked c = 2 \<Longrightarrow> 0 < k \<Longrightarrow> mg_read c k = (-1, [], c)"
  by (simp add: mg_read_def Let_def INT_MAX_def read_loop.simps [of _ "[]"])

lemma io_only_is_chunked: "io_only a b \<Longrightarrow> is_chunked b = is_chunked a"
  by (rule io_only_fields)

lemma mg_read_inner_result:
  assumes "mg_read_inner c len = (n, d, c')" and pos: "0 \<le> consumed_content c"
  shows "n = int (length d) \<or> n = -1 \<and> d = []" "length d \<le> len" "is_chunked c' = is_chunked c" "0 \<le> consumed_content c'"
proof -
  have "(n = int (length d) \<or> n = -1 \<and> d = []) \<and> length d \<le> len \<and> is_chunked c' = is_chunked c \<and> 0 \<le> consumed_content c'"
  proof (cases "consumed_content c < (if content_len c < 0 then INT64_MAX else content_len c)")
    case False
    then show ?thesis using assms by (auto simp: mg_read_inner_def Let_def)
  next
    case True
    define clen where "clen = (if content_len c < 0 then INT64_MAX else content_len c)"
    define l1 where "l1 = (if int len > INT_MAX then INT_MAX else int len)"
    define l2 where "l2 = (if clen - consumed_content c < l1 then clen - consumed_content c else l1)"
    define bu where "bu = int (length (conn_buf c)) - int (request_len c) - consumed_content c"
    define bl where "bl = (if bu > 0 then (if l2 < bu then l2 else bu) else 0)"
    define c1 where "c1 = c\<lparr> consumed_content := consumed_content c + bl \<rparr>"
    define b where "b = take (nat bl) (drop (request_len c + nat (consumed_content c)) (conn_buf c))"
    obtain k e c2 where p: "pull_all c1 (nat (l2 - bl)) = (k, e, c2)" by (metis prod_cases3)
    note f = pull_all_data [OF p]
    have l2: "0 \<le> l2" "l2 \<le> int len" using True by (auto simp: l2_def l1_def clen_def INT_MAX_def)
    have bl: "0 \<le> bl" "bl \<le> l2" "bl > 0 \<longrightarrow> bl \<le> bu" using l2 by (auto simp: bl_def)
    have b: "int (length b) = bl" using bl pos by (auto simp: b_def bu_def)
    have c2: "is_chunked c2 = is_chunked c" "consumed_content c2 = consumed_content c + bl"
      using io_only_fields [OF f(4)] by (simp_all add: c1_def)
    have r: "(n, d, c') = (if k \<ge> 0 then (bl + k, b @ e, c2\<lparr> consumed_content := consumed_content c2 + k \<rparr>)
        else (if bl > 0 then bl else k, b, c2))"
      using assms True p unfolding mg_read_inner_def Let_def l1_def [symmetric] clen_def [symmetric]
        l2_def [symmetric] bu_def [symmetric] bl_def [symmetric] c1_def [symmetric] b_def [symmetric] by simp
    have e: "int (length e) \<le> l2 - bl" using f(1) bl by linarith
    show ?thesis
    proof (cases "k \<ge> 0")
      case True
      then have "k = int (length e)" using f(3) by auto
      with True r e b bl l2 c2 pos show ?thesis by simp
    next
      case False
      then have "k = -1" using f(3) by auto
      with False r b bl l2 c2 pos show ?thesis by auto
    qed
  qed
  then show "n = int (length d) \<or> n = -1 \<and> d = []" "length d \<le> len" "is_chunked c' = is_chunked c" "0 \<le> consumed_content c'" by auto
qed

text \<open>Reading single characters leaves the state alone.\<close>

definition quiet :: "mg_connection \<Rightarrow> mg_connection \<Rightarrow> bool" where
  "quiet c c' \<longleftrightarrow> (0 \<le> consumed_content c \<longrightarrow> is_chunked c' = is_chunked c \<and> 0 \<le> consumed_content c')"

lemma quiet_refl [simp]: "quiet c c" and quiet_trans: "quiet a b \<Longrightarrow> quiet b c \<Longrightarrow> quiet a c"
  by (auto simp: quiet_def)

lemma read_char_quiet: "read_char c = (x, c') \<Longrightarrow> quiet c c'"
  using mg_read_inner_result [of "c\<lparr> content_len := content_len c + 1 \<rparr>" 1]
  by (auto simp: read_char_def quiet_def split: prod.splits)

lemma skip_extension_quiet: "skip_extension c ch = (x, c') \<Longrightarrow> quiet c c'"
proof (induction c ch arbitrary: x c' rule: skip_extension.induct)
  case (1 c ch)
  obtain y c1 where rc: "read_char c = (y, c1)" by fastforce
  show ?case
    using "1.prems" "1.IH" [OF rc [symmetric]] read_char_quiet [OF rc]
    by (subst (asm) skip_extension.simps) (auto simp: rc split: option.splits if_splits intro: quiet_trans)
qed

lemma trailer_loop_quiet: "trailer_loop k c = (x, c') \<Longrightarrow> quiet c c'"
proof (induction k c arbitrary: x c' rule: trailer_loop.induct)
  case (1 k c)
  obtain y c1 where rc: "read_char c = (y, c1)" by fastforce
  show ?case
    using "1.prems" "1.IH" [OF _ rc [symmetric]] read_char_quiet [OF rc]
    by (subst (asm) trailer_loop.simps) (auto simp: rc split: option.splits if_splits intro: quiet_trans)
qed

lemma chunk_size_loop_quiet: "chunk_size_loop n acc c = (x, c') \<Longrightarrow> quiet c c'"
proof (induction n arbitrary: acc c x c')
  case (Suc n)
  obtain y c1 where rc: "read_char c = (y, c1)" by fastforce
  define ch0 where "ch0 = (case y of None \<Rightarrow> NUL | Some c \<Rightarrow> c)"
  obtain ch c2 where ch: "(if acc \<noteq> [] \<and> ch0 = CHR '';'' then skip_extension c1 ch0 else (ch0, c1)) = (ch, c2)" by fastforce
  have q: "quiet c c2" using read_char_quiet [OF rc] skip_extension_quiet [of c1 ch0] ch
    by (auto split: if_splits intro: quiet_trans)
  have "quiet c2 c'"
    using Suc.prems Suc.IH [of "acc @ [ch]" c2] unfolding chunk_size_loop.simps rc prod.case Let_def ch0_def [symmetric] ch
    by (auto split: if_splits)
  with q show ?case by (rule quiet_trans)
qed simp

lemma fetch_chunk_state:
  assumes "fetch_chunk c = (x, c')" "is_chunked c = 1" "0 \<le> consumed_content c"
  shows "0 \<le> consumed_content c'"
    "is_chunked c' = (case x of None \<Rightarrow> 2 | Some True \<Rightarrow> 4 | Some False \<Rightarrow> 1)"
proof -
  obtain y c1 where s: "chunk_size_loop 63 [] c = (y, c1)" by fastforce
  obtain t c2 where t: "trailer_loop 2 (c1\<lparr> is_chunked := 3 \<rparr>) = (t, c2)" by fastforce
  show "0 \<le> consumed_content c'"
    "is_chunked c' = (case x of None \<Rightarrow> 2 | Some True \<Rightarrow> 4 | Some False \<Rightarrow> 1)"
    using assms chunk_size_loop_quiet [OF s] trailer_loop_quiet [OF t]
    by (auto simp: fetch_chunk_def s t quiet_def split: option.splits prod.splits if_splits bool.splits)
qed

text \<open>The outcomes of a chunked read: data or the end (4), or an error (2).\<close>

definition read_outcome :: "nat \<Rightarrow> int \<times> string \<times> mg_connection \<Rightarrow> bool" where
  "read_outcome bound res \<longleftrightarrow>
     (case res of (n, d, c') \<Rightarrow>
        length d \<le> bound \<and> 0 \<le> consumed_content c' \<and>
        (if is_chunked c' = 2 then n = -1 else n = int (length d) \<and> is_chunked c' \<in> {1, 4}))"

lemma read_loop_outcome:
  "is_chunked c = 1 \<Longrightarrow> 0 \<le> consumed_content c \<Longrightarrow> read_outcome (length acc + len) (read_loop len acc c)"
proof (induction len acc c rule: read_loop.induct)
  case (1 len acc c)
  show ?case
  proof (cases "len = 0")
    case True
    then show ?thesis using "1.prems" by (simp add: read_outcome_def)
  next
    case len: False
    show ?thesis
    proof (cases "consumed_content c = content_len c")
      case True
      obtain x c1 where f: "fetch_chunk c = (x, c1)" by fastforce
      note st = fetch_chunk_state [OF f "1.prems"]
      have unf: "read_loop len acc c = (case x of None \<Rightarrow> (-1, acc, c1)
          | Some True \<Rightarrow> (int (length acc), acc, c1) | Some False \<Rightarrow> read_loop len acc c1)"
        using len True "1.prems" by (subst read_loop.simps) (simp add: f)
      consider "x = None" | "x = Some True" | "x = Some False" by (cases x) auto
      then show ?thesis
      proof cases
        case 3
        with st have "is_chunked c1 = 1" "0 \<le> consumed_content c1" by simp_all
        then have "read_outcome (length acc + len) (read_loop len acc c1)"
          using "1.IH"(3) [OF len _ _ _ f [symmetric] 3 refl] True "1.prems" by simp
        with unf 3 show ?thesis by simp
      qed (use unf st in \<open>simp_all add: read_outcome_def\<close>)
    next
      case False
      obtain n d c1 where r: "mg_read_inner c len = (n, d, c1)" by (metis prod_cases3)
      note f = mg_read_inner_result [OF r "1.prems"(2)]
      show ?thesis
      proof (cases "n < 1")
        case True
        then have "read_loop len acc c = (-1, acc, c1\<lparr> is_chunked := 2 \<rparr>)"
          using len False "1.prems" by (subst read_loop.simps) (simp add: r)
        then show ?thesis using f by (simp add: read_outcome_def)
      next
        case n: False
        then have nd: "n = int (length d)" using f(1) by auto
        have bound: "length (acc @ d) + (len - nat n) = length acc + len" using nd f(2) by simp
        show ?thesis
        proof (cases "consumed_content c1 = content_len c1")
          case True
          obtain m x c2 where r2: "mg_read_inner (c1\<lparr> content_len := content_len c1 + 2 \<rparr>) 2 = (m, x, c2)" by (metis prod_cases3)
          have f2: "is_chunked c2 = 1" "0 \<le> consumed_content c2"
            using mg_read_inner_result [OF r2] f "1.prems" by auto
          have unf: "read_loop len acc c = (if m \<noteq> 2 \<or> x \<noteq> CRLF then (-1, acc @ d, c2\<lparr> is_chunked := 2 \<rparr>)
              else read_loop (len - nat n) (acc @ d) c2)"
            using len False n True "1.prems" by (subst read_loop.simps) (simp add: r r2)
          show ?thesis
          proof (cases "m \<noteq> 2 \<or> x \<noteq> CRLF")
            case True
            with unf have "read_loop len acc c = (-1, acc @ d, c2\<lparr> is_chunked := 2 \<rparr>)" by (simp only: if_True)
            then show ?thesis using f(2) f2 bound by (simp add: read_outcome_def)
          next
            case ok: False
            then have "read_outcome (length (acc @ d) + (len - nat n)) (read_loop (len - nat n) (acc @ d) c2)"
              using "1.IH"(1) [OF len _ _ _ r [symmetric] refl n True r2 [symmetric] refl ok f2] False "1.prems" by simp
            with ok unf bound show ?thesis by (simp only: if_False)
          qed
        next
          case ne: False
          have unf: "read_loop len acc c = read_loop (len - nat n) (acc @ d) c1"
            using len False n ne "1.prems" by (subst read_loop.simps) (simp add: r)
          have "read_outcome (length (acc @ d) + (len - nat n)) (read_loop (len - nat n) (acc @ d) c1)"
            using "1.IH"(2) [OF len _ _ _ r [symmetric] refl n ne] False "1.prems" f by simp
          then show ?thesis using unf bound by (simp only:)
        qed
      qed
    qed
  qed
qed

section \<open>Sending chunks\<close>

lemma mg_write_nothing:
  assumes "accepts c n"
  obtains c' where "mg_write c [] = (0, c')" "accepts c' n" "wire c' = wire c" "io_only c c'"
proof -
  have "mg_write c [] = (0, c\<lparr> request_state := 10 \<rparr>)"
    using assms by (simp add: mg_write_def push_all_def push_loop.simps [of _ "[]"] INT_MAX_def accepts_def)
  then show ?thesis by (rule that) (use assms in \<open>simp_all add: accepts_def\<close>)
qed

lemma show_hex_short: "int n \<le> INT_MAX \<Longrightarrow> length (show_hex n) \<le> 8 \<and> show_hex n \<noteq> [] \<and> n mod 2 ^ 32 = n"
  using length_show_base [of 16 8 n] show_base_nonempty [of 16 n] by (simp add: show_hex_def INT_MAX_def)

definition sent_chunk :: "string \<Rightarrow> string" where
  "sent_chunk x = show_hex (length x) @ CRLF @ x @ CRLF"

lemma sent_chunk_cases: "sent_chunk x = (if x = [] then last_chunk else chunk_enc x)"
  by (simp add: sent_chunk_def last_chunk_def chunk_enc_def show_hex_def show_base.simps hex_digit_def)

lemma mg_send_chunk_accepted:
  assumes a: "accepts c (n + 3)" and x: "int (length x) \<le> INT_MAX"
  obtains c' where "mg_send_chunk c x = (int (length (sent_chunk x)), c')" "accepts c' n"
    "wire c' = wire c @ sent_chunk x" "io_only c c'"
proof -
  let ?l = "show_hex (length x) @ CRLF"
  have h: "?l \<noteq> []" "int (length ?l) \<le> INT_MAX" "show_hex (length x mod 2 ^ 32) @ CRLF = ?l"
    using show_hex_short [OF x] by (auto simp: INT_MAX_def CRLF_def)
  have a3: "accepts c (Suc (n + 2))" using a by (simp add: numeral_3_eq_3)
  obtain c1 where c1: "mg_write c ?l = (int (length ?l), c1)" "accepts c1 (n + 2)" "wire c1 = wire c @ ?l" "io_only c c1"
    by (rule mg_write_accepted [OF a3 h(1,2)])
  have weaken: "accepts d (Suc k) \<Longrightarrow> accepts d k" for d k by (simp add: accepts_def)
  obtain c2 where c2: "mg_write c1 x = (int (length x), c2)" "accepts c2 (n + 1)" "wire c2 = wire c1 @ x" "io_only c1 c2"
  proof (cases "x = []")
    case True
    then show ?thesis using mg_write_nothing [OF weaken, of c1 "n + 1"] c1(2) that by auto
  next
    case False
    then show ?thesis using mg_write_accepted [of c1 "n + 1" x] c1(2) x that by auto
  qed
  obtain c3 where c3: "mg_write c2 CRLF = (int (length CRLF), c3)" "accepts c3 n" "wire c3 = wire c2 @ CRLF" "io_only c2 c3"
    by (rule mg_write_accepted [of c2 n CRLF]) (use c2 in \<open>auto simp: CRLF_def INT_MAX_def\<close>)
  have "mg_send_chunk c x = (int (length (sent_chunk x)), c3)"
    unfolding mg_send_chunk_def Let_def h(3) c1(1) prod.case using c2(1) c3(1) by (simp add: sent_chunk_def CRLF_def)
  moreover have "io_only c c3" using c1(4) c2(4) c3(4) io_only_trans by blast
  ultimately show ?thesis using that c1 c2 c3 by (simp add: sent_chunk_def)
qed

text \<open>A body is sent chunk by chunk, then the empty chunk.\<close>

definition send_chunks :: "string list \<Rightarrow> mg_connection \<Rightarrow> mg_connection" where
  "send_chunks cs conn = fold (\<lambda>x c. snd (mg_send_chunk c x)) cs conn"

lemma send_chunks_wire:
  "accepts c (n + 3 * length cs) \<Longrightarrow> \<forall>x \<in> set cs. int (length x) \<le> INT_MAX \<Longrightarrow>
     accepts (send_chunks cs c) n \<and> wire (send_chunks cs c) = wire c @ concat (map sent_chunk cs) \<and> io_only c (send_chunks cs c)"
proof (induction cs arbitrary: c)
  case Nil
  then show ?case by (simp add: send_chunks_def)
next
  case (Cons x cs)
  obtain c1 where c1: "mg_send_chunk c x = (int (length (sent_chunk x)), c1)" "accepts c1 (n + 3 * length cs)"
    "wire c1 = wire c @ sent_chunk x" "io_only c c1"
    by (rule mg_send_chunk_accepted [of c "n + 3 * length cs" x]) (use Cons.prems in \<open>auto simp: algebra_simps\<close>)
  have "send_chunks (x # cs) c = send_chunks cs c1" by (simp add: send_chunks_def c1(1))
  then show ?case using Cons.IH [OF c1(2)] Cons.prems(2) c1(3,4) by (auto intro: io_only_trans)
qed

lemma send_chunks_body:
  assumes "accepts c (n + 3 * length (cs @ [[]]))" "\<forall>x \<in> set cs. x \<noteq> [] \<and> int (length x) \<le> INT_MAX"
  shows "wire (send_chunks (cs @ [[]]) c) = wire c @ chunked_body cs"
proof -
  have "concat (map sent_chunk cs) = concat (map chunk_enc cs)"
    using assms(2) by (intro arg_cong [of _ _ concat] map_cong) (auto simp: sent_chunk_cases)
  then show ?thesis using send_chunks_wire [OF assms(1)] assms(2)
    by (auto simp: chunked_body_def sent_chunk_cases INT_MAX_def)
qed

lemma trailer_loop_avail: "trailer_loop k c = (x, c') \<Longrightarrow> avail c' \<le> avail c"
proof (induction k c arbitrary: x c' rule: trailer_loop.induct)
  case (1 k c)
  obtain y c1 where rc: "read_char c = (y, c1)" by fastforce
  show ?case
    using "1.prems" "1.IH" [OF _ rc [symmetric]] read_char_avail [OF rc]
    by (subst (asm) trailer_loop.simps) (fastforce simp: rc split: option.splits if_splits)
qed

text \<open>A chunked read, with the loop folded away.\<close>

lemma mg_read_in_body:
  assumes "in_body conn d cs r" "int len \<le> INT_MAX"
  shows "\<exists>conn'. if len \<le> length (d @ concat cs)
     then mg_read conn len = (int len, take len (d @ concat cs), conn') \<and>
          (\<exists>d' cs'. in_body conn' d' cs' r \<and> d' @ concat cs' = drop len (d @ concat cs))
     else mg_read conn len = (int (length (d @ concat cs)), d @ concat cs, conn') \<and>
          is_chunked conn' = 4 \<and> stream conn' = r \<and> (\<forall>k. mg_read conn' k = (0, [], conn'))"
proof -
  have "mg_read conn len = read_loop len [] conn" using assms by (auto simp: mg_read_def in_body_def)
  moreover obtain c' where c': "if len \<le> length (d @ concat cs)
     then read_loop len [] conn = (int len, take len (d @ concat cs), c') \<and>
          (\<exists>d' cs'. in_body c' d' cs' r \<and> d' @ concat cs' = drop len (d @ concat cs))
     else read_loop len [] conn = (int (length (d @ concat cs)), d @ concat cs, c') \<and>
          is_chunked c' = 4 \<and> stream c' = r \<and> body_conn c'"
    using read_loop_body [OF assms, of "[]"] unfolding body_read_def by (metis append_Nil list.size(3) add_0)
  moreover have "3 \<le> is_chunked c'" if "is_chunked c' = 4" using that by simp
  ultimately show ?thesis
    using mg_read_finished [of c'] by (intro exI [of _ c']) (auto simp only: split: if_splits)
qed

section \<open>Discarding what is left of a body\<close>

lemma read_loop_avail:
  "read_loop len acc c = (n, d, c') \<Longrightarrow> avail c' \<le> avail c \<and> (int (length acc) < n \<longrightarrow> avail c' < avail c)"
proof (induction len acc c arbitrary: n d c' rule: read_loop.induct)
  case (1 len acc c)
  show ?case
  proof (cases "len = 0 \<or> is_chunked c \<noteq> 1")
    case True
    then show ?thesis using "1.prems" by (subst (asm) read_loop.simps) (auto split: if_splits)
  next
    case start: False
    show ?thesis
    proof (cases "consumed_content c = content_len c")
      case True
      obtain x c1 where f: "fetch_chunk c = (x, c1)" by fastforce
      have a: "avail c1 \<le> avail c"
        using chunk_size_loop_avail [of 63 "[]" c] trailer_loop_avail f
        by (fastforce simp: fetch_chunk_def split: prod.splits option.splits if_splits bool.splits)
      have unf: "(n, d, c') = (case x of None \<Rightarrow> (-1, acc, c1)
          | Some True \<Rightarrow> (int (length acc), acc, c1) | Some False \<Rightarrow> read_loop len acc c1)"
        using start True "1.prems" by (subst (asm) read_loop.simps) (simp add: f)
      consider "x = None" | "x = Some True" | "x = Some False" by (cases x) auto
      then show ?thesis
      proof cases
        case 3
        then have "read_loop len acc c1 = (n, d, c')" using unf by simp
        from "1.IH"(3) [OF _ _ _ _ f [symmetric] 3 refl this] start True a show ?thesis by auto
      qed (use unf a in auto)
    next
      case False
      obtain k e c1 where r: "mg_read_inner c len = (k, e, c1)" by (metis prod_cases3)
      note a = mg_read_inner_avail [OF r]
      show ?thesis
      proof (cases "k < 1")
        case True
        then have "(n, d, c') = (-1, acc, c1\<lparr> is_chunked := 2 \<rparr>)"
          using start False "1.prems" by (subst (asm) read_loop.simps) (simp add: r)
        then show ?thesis using a by simp
      next
        case k: False
        show ?thesis
        proof (cases "consumed_content c1 = content_len c1")
          case True
          obtain m x c2 where r2: "mg_read_inner (c1\<lparr> content_len := content_len c1 + 2 \<rparr>) 2 = (m, x, c2)" by (metis prod_cases3)
          note a2 = mg_read_inner_avail(1) [OF r2]
          have unf: "(n, d, c') = (if m \<noteq> 2 \<or> x \<noteq> CRLF then (-1, acc @ e, c2\<lparr> is_chunked := 2 \<rparr>)
              else read_loop (len - nat k) (acc @ e) c2)"
            using start False k True "1.prems" by (subst (asm) read_loop.simps) (simp add: r r2)
          show ?thesis
          proof (cases "m \<noteq> 2 \<or> x \<noteq> CRLF")
            case True
            with unf have "(n, d, c') = (-1, acc @ e, c2\<lparr> is_chunked := 2 \<rparr>)" by (simp only: if_True)
            then show ?thesis using a a2 k by simp
          next
            case ok: False
            with unf have "read_loop (len - nat k) (acc @ e) c2 = (n, d, c')" by (simp only: if_False)
            from "1.IH"(1) [OF _ _ _ _ r [symmetric] refl k True r2 [symmetric] refl ok this] start False a a2 k
            show ?thesis by simp
          qed
        next
          case ne: False
          have "read_loop (len - nat k) (acc @ e) c1 = (n, d, c')"
            using start False k ne "1.prems" by (subst (asm) read_loop.simps) (simp add: r)
          from "1.IH"(2) [OF _ _ _ _ r [symmetric] refl k ne this] start False a k
          show ?thesis by simp
        qed
      qed
    qed
  qed
qed

lemma mg_read_avail: "mg_read c len = (n, d, c') \<Longrightarrow> 0 < n \<Longrightarrow> avail c' < avail c"
  using read_loop_avail [of _ "[]" c n d c'] mg_read_inner_avail(2) [of c _ n d c']
  by (auto simp: mg_read_def Let_def split: if_splits)

definition MG_BUF_LEN :: nat where "MG_BUF_LEN = 8192"

function discard_unread_request_data :: "mg_connection \<Rightarrow> mg_connection" where
  "discard_unread_request_data conn =
     (case mg_read conn MG_BUF_LEN of
        (n, d, conn') \<Rightarrow> if n > 0 then discard_unread_request_data conn' else conn')"
  by pat_completeness auto
termination
  by (relation "measure avail") (auto dest: mg_read_avail [OF sym])

declare discard_unread_request_data.simps [simp del]

lemma discard_chunked:
  "in_body c d cs r \<Longrightarrow> stream (discard_unread_request_data c) = r \<and> is_chunked (discard_unread_request_data c) = 4"
proof (induction "length (d @ concat cs)" arbitrary: c d cs rule: less_induct)
  case less
  have i: "int MG_BUF_LEN \<le> INT_MAX" by (simp add: INT_MAX_def MG_BUF_LEN_def)
  obtain c' where c': "if MG_BUF_LEN \<le> length (d @ concat cs)
     then mg_read c MG_BUF_LEN = (int MG_BUF_LEN, take MG_BUF_LEN (d @ concat cs), c') \<and>
          (\<exists>d' cs'. in_body c' d' cs' r \<and> d' @ concat cs' = drop MG_BUF_LEN (d @ concat cs))
     else mg_read c MG_BUF_LEN = (int (length (d @ concat cs)), d @ concat cs, c') \<and>
          is_chunked c' = 4 \<and> stream c' = r \<and> (\<forall>k. mg_read c' k = (0, [], c'))"
    using mg_read_in_body [OF less.prems i] by blast
  show ?case
  proof (cases "MG_BUF_LEN \<le> length (d @ concat cs)")
    case True
    with c' obtain d' cs' where rd: "mg_read c MG_BUF_LEN = (int MG_BUF_LEN, take MG_BUF_LEN (d @ concat cs), c')"
      and b: "in_body c' d' cs' r" "d' @ concat cs' = drop MG_BUF_LEN (d @ concat cs)" by auto
    have "length (d' @ concat cs') < length (d @ concat cs)" using b(2) True by (simp add: MG_BUF_LEN_def)
    from less.hyps [OF this b(1)] rd show ?thesis
      by (subst (1 2) discard_unread_request_data.simps) (simp add: MG_BUF_LEN_def)
  next
    case False
    with c' have rd: "mg_read c MG_BUF_LEN = (int (length (d @ concat cs)), d @ concat cs, c')"
      "is_chunked c' = 4" "stream c' = r" "\<And>k. mg_read c' k = (0, [], c')" by auto
    then have "discard_unread_request_data c' = c'" by (subst discard_unread_request_data.simps) simp
    with rd have "discard_unread_request_data c = c'" by (subst discard_unread_request_data.simps) simp
    with rd show ?thesis by simp
  qed
qed

lemma discard_plain:
  "body_conn c \<Longrightarrow> is_chunked c = 0 \<Longrightarrow> int L = content_len c - consumed_content c \<Longrightarrow> L \<le> length (stream c) \<Longrightarrow>
     stream (discard_unread_request_data c) = drop L (stream c) \<and>
     consumed_content (discard_unread_request_data c) = content_len c"
proof (induction L arbitrary: c rule: less_induct)
  case (less L)
  have i: "int MG_BUF_LEN \<le> INT_MAX" by (simp add: INT_MAX_def MG_BUF_LEN_def)
  have rd: "mg_read c MG_BUF_LEN = mg_read_inner c MG_BUF_LEN" using less.prems i by (simp add: mg_read_def)
  show ?case
  proof (cases "L = 0")
    case True
    then have "mg_read c MG_BUF_LEN = (0, [], c)"
      using less.prems rd by (simp add: mg_read_inner_def Let_def body_conn_def)
    then have "discard_unread_request_data c = c" by (subst discard_unread_request_data.simps) simp
    then show ?thesis using True less.prems by simp
  next
    case False
    let ?k = "min MG_BUF_LEN L"
    have "int ?k = min (int MG_BUF_LEN) (content_len c - consumed_content c)" "?k \<le> length (stream c)"
      "consumed_content c < content_len c" using less.prems False by auto
    then obtain c' where c': "mg_read_inner c MG_BUF_LEN = (int ?k, take ?k (stream c), c')" "body_conn c'"
      "stream c' = drop ?k (stream c)" "consumed_content c' = consumed_content c + int ?k" "same_body c c'"
      using mg_read_inner_steady [OF less.prems(1) _ i, of ?k] by metis
    have k: "0 < ?k" "L - ?k < L" using False by (auto simp: MG_BUF_LEN_def)
    have st: "discard_unread_request_data c = discard_unread_request_data c'"
      using rd c'(1) k by (subst discard_unread_request_data.simps) simp
    have "stream (discard_unread_request_data c') = drop (L - ?k) (stream c') \<and>
        consumed_content (discard_unread_request_data c') = content_len c'"
      by (rule less.IH [OF k(2) c'(2)]) (use c' less.prems in \<open>auto simp: same_body_def\<close>)
    then show ?thesis using st c'(3,5) by (simp add: same_body_def)
  qed
qed

section \<open>Properties\<close>

text \<open>
  C19: reading a chunked body refines reading its data. While \<open>data\<close> is left of the body, a read
  of \<open>len\<close> bytes gives the next \<open>len\<close> bytes of it, however the peer cut it into chunks, and leaves
  the rest readable in the same way. A longer read gives all of it, takes the last chunk with its
  line ends, and leaves the stream at the next message; from then on reads give nothing.
\<close>

theorem mg_read_chunked:
  assumes "in_body conn d cs r" "int len \<le> INT_MAX"
  shows "\<exists>conn'. if len \<le> length (d @ concat cs)
     then mg_read conn len = (int len, take len (d @ concat cs), conn') \<and>
          (\<exists>d' cs'. in_body conn' d' cs' r \<and> d' @ concat cs' = drop len (d @ concat cs))
     else mg_read conn len = (int (length (d @ concat cs)), d @ concat cs, conn') \<and>
          is_chunked conn' = 4 \<and> stream conn' = r \<and> (\<forall>k. mg_read conn' k = (0, [], conn'))"
  using assms by (rule mg_read_in_body)

definition body_example :: mg_connection where
  "body_example = test_connection\<lparr> is_chunked := 1, recv_script := [Recv (chunked_body [''abc'', ''de''] @ ''GET'')] \<rparr>"

lemma body_example_in_body: "in_body body_example [] [''abc'', ''de''] ''GET''"
proof -
  have "show_hex (length ''abc'') = ''3''" "show_hex (length ''de'') = ''2''"
    by (simp_all add: show_hex_def show_base.simps hex_digit_def)
  then show ?thesis
    by (simp add: in_body_def body_conn_def steady_def stream_def body_example_def test_connection_def chunked_body_def
        chunk_enc_def last_chunk_def CRLF_def)
qed

lemma mg_read_chunked_witness: "\<exists>c. mg_read body_example 4 = (4, ''abcd'', c)"
  using mg_read_chunked [OF body_example_in_body, of 4] by (auto simp: INT_MAX_def)

text \<open>
  C20: what one server sends in chunks another one reads back. After \<open>mg_send_chunk\<close> was called for
  every part of a body and once with the empty chunk, a reader that receives these bytes gets
  the parts joined together, and what follows them on the connection is left unread.
\<close>

theorem chunked_transfer:
  assumes sender: "accepts s (3 * length (cs @ [[]]))" "wire s = []"
    and parts: "\<forall>x \<in> set cs. x \<noteq> [] \<and> int (length x) \<le> INT_MAX"
    and reader: "body_conn conn" "is_chunked conn = 1" "consumed_content conn = content_len conn"
      "stream conn = wire (send_chunks (cs @ [[]]) s) @ r"
      "consumed_content conn + int (length (stream conn)) < 2 ^ 63"
    and len: "length (concat cs) < len" "int len \<le> INT_MAX"
  shows "\<exists>conn'. mg_read conn len = (int (length (concat cs)), concat cs, conn') \<and>
    is_chunked conn' = 4 \<and> stream conn' = r"
proof -
  have "wire (send_chunks (cs @ [[]]) s) = chunked_body cs"
    using send_chunks_body [of s 0 cs] sender parts by simp
  then have "in_body conn [] cs r" using reader parts by (auto simp: in_body_def)
  from mg_read_in_body [OF this len(2)] len(1) show ?thesis by auto
qed

lemma chunked_transfer_witness:
  "\<exists>c. mg_read body_example 9 = (5, ''abcde'', c) \<and> stream c = ''GET''"
proof -
  let ?s = "test_connection\<lparr> send_script := replicate 9 (Send_Bytes 2147483647) \<rparr>"
  have s: "accepts ?s (3 * length ([''abc'', ''de''] @ [[]]))" "wire ?s = []"
    by (simp_all add: accepts_def test_connection_def INT_MAX_def)
  have "wire (send_chunks ([''abc'', ''de''] @ [[]]) ?s) = chunked_body [''abc'', ''de'']"
    using send_chunks_body [of ?s 0 "[''abc'', ''de'']"] s by (simp add: INT_MAX_def)
  then have "stream body_example = wire (send_chunks ([''abc'', ''de''] @ [[]]) ?s) @ ''GET''"
    "body_conn body_example" "is_chunked body_example = 1" "consumed_content body_example = content_len body_example"
    "consumed_content body_example + int (length (stream body_example)) < 2 ^ 63"
    using body_example_in_body unfolding in_body_def by auto
  from chunked_transfer [OF s _ this(2-4,1,5), of 9] show ?thesis by (auto simp: INT_MAX_def)
qed

text \<open>
  C21: the states of a chunked read. A read in state 1 ends in state 1 or 4 with as many bytes as
  it reports, at most \<open>len\<close> of them, or in state 2 with the result -1; for every behaviour of the
  peer. After an error every further read of at least one byte fails again, after the end every
  read gives 0 bytes; neither touches the connection.
\<close>

theorem mg_read_states:
  assumes "is_chunked conn = 1" "0 \<le> consumed_content conn" "int len \<le> INT_MAX" "mg_read conn len = (n, d, conn')"
  shows "length d \<le> len \<and>
    (is_chunked conn' \<in> {1, 4} \<and> n = int (length d) \<or>
     is_chunked conn' = 2 \<and> n = -1 \<and> (\<forall>k > 0. mg_read conn' k = (-1, [], conn'))) \<and>
    (is_chunked conn' = 4 \<longrightarrow> (\<forall>k. mg_read conn' k = (0, [], conn')))"
proof -
  have "read_outcome len (n, d, conn')"
    using read_loop_outcome [OF assms(1,2), of "[]" len] assms by (simp add: mg_read_def)
  then show ?thesis using mg_read_failed [of conn'] mg_read_finished [of conn']
    by (auto simp: read_outcome_def split: if_splits)
qed

lemma mg_read_states_witness:
  "\<exists>n d c. mg_read (body_example\<lparr> recv_script := [Recv ''zz''] \<rparr>) 5 = (n, d, c) \<and> length d \<le> 5"
proof -
  obtain n d c where e: "mg_read (body_example\<lparr> recv_script := [Recv ''zz''] \<rparr>) 5 = (n, d, c)" by (metis prod_cases3)
  have "length d \<le> 5"
    using mg_read_states [OF _ _ _ e] by (simp add: body_example_def test_connection_def INT_MAX_def)
  with e show ?thesis by blast
qed


text \<open>
  C22: discarding the rest of a request leaves the connection at the next one. Whatever the handler
  has read so far, after \<open>discard_unread_request_data\<close> the stream starts behind the body: behind
  the last chunk of a chunked body, or \<open>content_len\<close> bytes after the head of a plain one.
\<close>

theorem discard_reaches_next_request:
  assumes "in_body conn d cs r \<or>
    body_conn conn \<and> is_chunked conn = 0 \<and> stream conn = d @ r \<and> content_len conn = consumed_content conn + int (length d)"
  shows "stream (discard_unread_request_data conn) = r"
  using assms
proof
  assume "in_body conn d cs r"
  then show ?thesis using discard_chunked by blast
next
  assume "body_conn conn \<and> is_chunked conn = 0 \<and> stream conn = d @ r \<and> content_len conn = consumed_content conn + int (length d)"
  then show ?thesis using discard_plain [of conn "length d"] by simp
qed

lemma discard_reaches_next_request_witness: "stream (discard_unread_request_data body_example) = ''GET''"
  using discard_reaches_next_request body_example_in_body by blast

end
