(* ===== verification/Paths.thy ===== *)
theory Paths imports Mg_Match Option_List Connection
begin

text \<open>
  Paths and file names (\<open>src/civetweb.c\<close>): \<open>remove_dot_segments\<close>, the MIME types, and the
  predicates that decide whether a file is hidden, a script or a template.
\<close>

section \<open>Removing dot segments\<close>

text \<open>
  The output in front of \<open>out_end\<close> is kept reversed, so its last character is the head. The
  output never overtakes the input (each round takes at least as much as it writes), so
  input and output are separate values here.
\<close>

fun pop_segment :: "string \<Rightarrow> string" where
  "pop_segment [] = []"
| "pop_segment (c # out) = (if c = CHR ''/'' then out else pop_segment out)"

text \<open>The first path segment with its initial slash: at least one character is moved.\<close>

definition segment_length :: "string \<Rightarrow> nat" where
  "segment_length s = Suc (strcspn (tl s) ''/'')"

function dot_pass :: "string \<Rightarrow> string \<Rightarrow> string" where
  "dot_pass s out =
     (if s = [] then out
      else if take 3 s = ''../'' then dot_pass (drop 3 s) out
      else if take 2 s = ''./'' then dot_pass (drop 2 s) out
      else if take 3 s = ''/./'' then dot_pass (drop 2 s) out
      else if s = ''/.'' then dot_pass ''/'' out
      else if take 4 s = ''/../'' then dot_pass (drop 3 s) (pop_segment out)
      else if s = ''/..'' then dot_pass ''/'' (pop_segment out)
      else if s = ''.'' \<or> s = ''..'' then dot_pass [] out
      else dot_pass (drop (segment_length s) s) (rev (take (segment_length s) s) @ out))"
  by pat_completeness auto
termination
  by (relation "measure (\<lambda>(s, out). length s)") (auto simp: segment_length_def)

declare dot_pass.simps [simp del]

text \<open>The second pass: dots in front of a slash or of the end, and double slashes.\<close>

definition skip_run :: "char \<Rightarrow> string \<Rightarrow> string" where
  "skip_run d s = dropWhile ((=) d) s"

lemma skip_run_length: "length (skip_run d s) \<le> length s"
  unfolding skip_run_def by (rule length_dropWhile_le)

function end_pass :: "string \<Rightarrow> string \<Rightarrow> string" where
  "end_pass [] out = out"
| "end_pass (c # s) out =
     (if c = CHR ''.''
      then let ahead = skip_run (CHR ''.'') s
           in if hd0 ahead = CHR ''/''
              then end_pass ahead (if out \<noteq> [] \<and> hd out = CHR ''/'' then tl out else out)
              else if ahead = [] then end_pass [] out
              else end_pass ahead (replicate (Suc (length s) - length ahead) (CHR ''.'') @ out)
      else if c = CHR ''/'' then end_pass (skip_run (CHR ''/'') s) (CHR ''/'' # out)
      else end_pass s (c # out))"
  by pat_completeness auto
termination
  by (relation "measure (\<lambda>(s, out). length s)") (simp_all add: less_Suc_eq_le skip_run_length)

declare end_pass.simps(2) [simp del]

definition remove_dot_segments :: "string \<Rightarrow> string" where
  "remove_dot_segments inout =
     (let s = map (\<lambda>c. if c = BACKSLASH then CHR ''/'' else c) inout
      in rev (end_pass (rev (dot_pass s [])) []))"

section \<open>MIME types\<close>

text \<open>The rows hold the extension, its length and the type.\<close>

definition builtin_mime_types :: "(string \<times> nat \<times> string) list" where
  "builtin_mime_types = [
     (''.bin'', 4, ''application/octet-stream''),
     (''.cer'', 4, ''application/pkix-cert''),
     (''.crl'', 4, ''application/pkix-crl''),
     (''.crt'', 4, ''application/pkix-cert''),
     (''.deb'', 4, ''application/octet-stream''),
     (''.dmg'', 4, ''application/octet-stream''),
     (''.dll'', 4, ''application/octet-stream''),
     (''.doc'', 4, ''application/msword''),
     (''.eps'', 4, ''application/postscript''),
     (''.exe'', 4, ''application/octet-stream''),
     (''.iso'', 4, ''application/octet-stream''),
     (''.js'', 3, ''application/javascript''),
     (''.json'', 5, ''application/json''),
     (''.mjs'', 4, ''application/javascript''),
     (''.msi'', 4, ''application/octet-stream''),
     (''.pem'', 4, ''application/x-pem-file''),
     (''.pdf'', 4, ''application/pdf''),
     (''.ps'', 3, ''application/postscript''),
     (''.rtf'', 4, ''application/rtf''),
     (''.wasm'', 5, ''application/wasm''),
     (''.xhtml'', 6, ''application/xhtml+xml''),
     (''.xsl'', 4, ''application/xml''),
     (''.xslt'', 5, ''application/xml''),
     (''.ttf'', 4, ''application/font-sfnt''),
     (''.cff'', 4, ''application/font-sfnt''),
     (''.otf'', 4, ''application/font-sfnt''),
     (''.aat'', 4, ''application/font-sfnt''),
     (''.sil'', 4, ''application/font-sfnt''),
     (''.pfr'', 4, ''application/font-tdpfr''),
     (''.woff'', 5, ''application/font-woff''),
     (''.woff2'', 6, ''application/font-woff2''),
     (''.mp3'', 4, ''audio/mpeg''),
     (''.oga'', 4, ''audio/ogg''),
     (''.ogg'', 4, ''audio/ogg''),
     (''.gif'', 4, ''image/gif''),
     (''.ief'', 4, ''image/ief''),
     (''.jpeg'', 5, ''image/jpeg''),
     (''.jpg'', 4, ''image/jpeg''),
     (''.jpm'', 4, ''image/jpm''),
     (''.jpx'', 4, ''image/jpx''),
     (''.png'', 4, ''image/png''),
     (''.svg'', 4, ''image/svg+xml''),
     (''.tif'', 4, ''image/tiff''),
     (''.tiff'', 5, ''image/tiff''),
     (''.wrl'', 4, ''model/vrml''),
     (''.css'', 4, ''text/css''),
     (''.csv'', 4, ''text/csv''),
     (''.htm'', 4, ''text/html''),
     (''.html'', 5, ''text/html''),
     (''.sgm'', 4, ''text/sgml''),
     (''.shtm'', 5, ''text/html''),
     (''.shtml'', 6, ''text/html''),
     (''.txt'', 4, ''text/plain''),
     (''.xml'', 4, ''text/xml''),
     (''.mov'', 4, ''video/quicktime''),
     (''.mp4'', 4, ''video/mp4''),
     (''.mpeg'', 5, ''video/mpeg''),
     (''.mpg'', 4, ''video/mpeg''),
     (''.ogv'', 4, ''video/ogg''),
     (''.qt'', 3, ''video/quicktime''),
     (''.arj'', 4, ''application/x-arj-compressed''),
     (''.gz'', 3, ''application/x-gunzip''),
     (''.rar'', 4, ''application/x-arj-compressed''),
     (''.swf'', 4, ''application/x-shockwave-flash''),
     (''.tar'', 4, ''application/x-tar''),
     (''.tgz'', 4, ''application/x-tar-gz''),
     (''.torrent'', 8, ''application/x-bittorrent''),
     (''.ppt'', 4, ''application/x-mspowerpoint''),
     (''.xls'', 4, ''application/x-msexcel''),
     (''.zip'', 4, ''application/x-zip-compressed''),
     (''.aac'', 4, ''audio/aac''),
     (''.flac'', 5, ''audio/flac''),
     (''.aif'', 4, ''audio/x-aif''),
     (''.m3u'', 4, ''audio/x-mpegurl''),
     (''.mid'', 4, ''audio/x-midi''),
     (''.ra'', 3, ''audio/x-pn-realaudio''),
     (''.ram'', 4, ''audio/x-pn-realaudio''),
     (''.wav'', 4, ''audio/x-wav''),
     (''.bmp'', 4, ''image/bmp''),
     (''.ico'', 4, ''image/x-icon''),
     (''.pct'', 4, ''image/x-pct''),
     (''.pict'', 5, ''image/pict''),
     (''.rgb'', 4, ''image/x-rgb''),
     (''.webm'', 5, ''video/webm''),
     (''.asf'', 4, ''video/x-ms-asf''),
     (''.avi'', 4, ''video/x-msvideo''),
     (''.m4v'', 4, ''video/x-m4v'')]"

definition mg_get_builtin_mime_type :: "string \<Rightarrow> string" where
  "mg_get_builtin_mime_type path =
     (case find (\<lambda>(ext, ext_len, _). length path > ext_len \<and>
                   mg_strcasecmp (drop (length path - ext_len) path) ext = 0) builtin_mime_types of
        Some (_, _, mime_type) \<Rightarrow> mime_type
      | None \<Rightarrow> ''text/plain'')"

text \<open>
  The loop over the user-defined types. An extension that is longer than the path makes
  \<open>ext\<close> point in front of the path; the result is then \<open>None\<close>.
\<close>

function user_mime_type :: "string option \<Rightarrow> string \<Rightarrow> string option option" where
  "user_mime_type list path =
     (case next_option list of
        None \<Rightarrow> Some None
      | Some (rest, ext, mime) \<Rightarrow>
          if length ext > length path then None
          else if mg_strncasecmp (drop (length path - length ext) path) ext (length ext) = 0
          then Some (Some (case mime of None \<Rightarrow> [] | Some m \<Rightarrow> m))
          else user_mime_type (Some rest) path)"
  by pat_completeness auto
termination
  by (relation "measure (\<lambda>(l, p). case l of None \<Rightarrow> 0 | Some l \<Rightarrow> length l)")
     (auto simp: next_option_def split: option.splits prod.splits dest: next_value_rest)

declare user_mime_type.simps [simp del]

definition get_mime_type :: "mg_connection \<Rightarrow> string \<Rightarrow> string option" where
  "get_mime_type conn path =
     (case user_mime_type (conf conn EXTRA_MIME_TYPES) path of
        None \<Rightarrow> None
      | Some (Some mime) \<Rightarrow> Some mime
      | Some None \<Rightarrow> Some (mg_get_builtin_mime_type path))"

section \<open>Decisions about files\<close>

definition mg_path_suspicious :: "string option \<Rightarrow> bool" where
  "mg_path_suspicious path = (path = None \<or> path = Some [])"

definition must_hide_file :: "mg_connection \<Rightarrow> string \<Rightarrow> bool" where
  "must_hide_file conn path =
     (dom_ctx conn \<noteq> None \<and>
      (match_prefix (Some ''**.htpasswd$'') path > 0 \<or> match_prefix (conf conn HIDE_FILES) path > 0))"

text \<open>Without Lua and Duktape: the two CGI pattern options.\<close>

definition extention_matches_script :: "mg_connection \<Rightarrow> string \<Rightarrow> bool" where
  "extention_matches_script conn filename =
     list_ex (\<lambda>opt. conf conn opt \<noteq> None \<and> match_prefix (conf conn opt) filename > 0) [CGI_EXTENSIONS, CGI2_EXTENSIONS]"

definition extention_matches_template_text :: "mg_connection \<Rightarrow> string \<Rightarrow> bool" where
  "extention_matches_template_text conn filename = (match_prefix (conf conn SSI_EXTENSIONS) filename > 0)"

definition is_put_or_delete_method :: "mg_connection \<Rightarrow> bool" where
  "is_put_or_delete_method conn =
     (case request_method (request_info conn) of
        None \<Rightarrow> False
      | Some s \<Rightarrow> s \<in> set [''PUT'', ''DELETE'', ''MKCOL'', ''PATCH'', ''LOCK'', ''UNLOCK'', ''PROPPATCH'', ''MOVE'', ''COPY''])"

definition is_civetweb_webdav_method :: "mg_connection \<Rightarrow> bool" where
  "is_civetweb_webdav_method conn =
     (case request_method (request_info conn) of
        None \<Rightarrow> False
      | Some s \<Rightarrow> s \<in> set [''PROPFIND'', ''PROPPATCH'', ''LOCK'', ''UNLOCK'', ''MOVE'', ''COPY''])"


section \<open>Absolute paths as lists of segments\<close>

definition path_of :: "string list \<Rightarrow> string" where
  "path_of segs = concat (map ((#) (CHR ''/'')) segs)"

text \<open>
  The reference: a stack of segments. A segment \<open>..\<close> takes the last one away, a final \<open>.\<close> or
  \<open>..\<close> leaves an empty segment, so the path keeps its final slash.
\<close>

fun resolve :: "string list \<Rightarrow> string list \<Rightarrow> string list" where
  "resolve [] st = st"
| "resolve [x] st = (if x = ''.'' then [] # st else if x = ''..'' then [] # tl st else x # st)"
| "resolve (x # y # segs) st =
     resolve (y # segs) (if x = ''.'' then st else if x = ''..'' then tl st else x # st)"

lemma path_of_simps [simp]:
  "path_of [] = []" "path_of (x # segs) = CHR ''/'' # x @ path_of segs" "path_of (a @ b) = path_of a @ path_of b"
  by (simp_all add: path_of_def)

lemma path_of_Cons: "path_of (x # segs) = s \<Longrightarrow> s \<noteq> []" "segs \<noteq> [] \<Longrightarrow> \<exists>r. path_of segs = CHR ''/'' # r"
  by (cases segs; auto)+

lemma pop_segment_append: "CHR ''/'' \<notin> set x \<Longrightarrow> pop_segment (x @ CHR ''/'' # out) = out"
  by (induction x) auto

definition out_of :: "string list \<Rightarrow> string" where
  "out_of st = rev (path_of (rev st))"

lemma out_of_simps [simp]: "out_of [] = []" "out_of (x # st) = rev x @ CHR ''/'' # out_of st"
  by (simp_all add: out_of_def)

lemma pop_out_of: "\<forall>x \<in> set st. CHR ''/'' \<notin> set x \<Longrightarrow> pop_segment (out_of st) = out_of (tl st)"
  by (cases st) (simp_all add: pop_segment_append)

lemma takeWhile_none: "c \<notin> set x \<Longrightarrow> takeWhile (\<lambda>d. d \<noteq> c) x = x"
  by (auto simp: takeWhile_eq_all_conv)

lemma segment_length_path: "CHR ''/'' \<notin> set x \<Longrightarrow> segment_length (CHR ''/'' # x @ path_of segs) = Suc (length x)"
  by (cases segs) (simp_all add: segment_length_def strcspn_def takeWhile_append takeWhile_none)

lemma dot_pass_other:
  assumes "s = CHR ''/'' # x @ r" "CHR ''/'' \<notin> set x" "x \<noteq> ''.''" "x \<noteq> ''..''" "r = [] \<or> hd r = CHR ''/''"
  shows "dot_pass s out = dot_pass r (rev x @ CHR ''/'' # out)"
proof -
  have l: "segment_length s = Suc (length x)"
    using assms(1,2,5) by (cases r) (simp_all add: segment_length_def strcspn_def takeWhile_append takeWhile_none)
  have r: "r = [] \<or> (\<exists>r'. r = CHR ''/'' # r')" using assms(5) by (cases r) auto
  have x: "x = [] \<or> (\<exists>a. x = [a]) \<or> (\<exists>a b. x = [a, b]) \<or> (\<exists>a b c y. x = a # b # c # y)"
    by (metis neq_Nil_conv)
  have "take 3 s \<noteq> ''/./''" "take 4 s \<noteq> ''/../''" "s \<noteq> ''/.''" "s \<noteq> ''/..''"
    unfolding assms(1) using r x assms(2-4) by (auto simp: numeral_eq_Suc)
  then show ?thesis
    by (subst dot_pass.simps) (use assms(1) l in simp)
qed

lemma dot_pass_last: "dot_pass ''/'' out = CHR ''/'' # out"
  using dot_pass_other [of "''/''" "[]" "[]" out] by (simp add: dot_pass.simps)

lemma dot_pass_resolve:
  "\<forall>x \<in> set segs \<union> set st. CHR ''/'' \<notin> set x \<Longrightarrow> dot_pass (path_of segs) (out_of st) = out_of (resolve segs st)"
proof (induction segs st rule: resolve.induct)
  case (1 st)
  then show ?case by (simp add: dot_pass.simps)
next
  case (2 x st)
  consider "x = ''.''" | "x = ''..''" | "x \<noteq> ''.''" "x \<noteq> ''..''" by blast
  then show ?case
  proof cases
    case 1
    then show ?thesis by (subst dot_pass.simps) (simp add: dot_pass_last)
  next
    case 2
    then show ?thesis using pop_out_of [of st] "2.prems" by (subst dot_pass.simps) (simp add: dot_pass_last)
  next
    case 3
    then show ?thesis
      using dot_pass_other [of "CHR ''/'' # x" x "[]"] "2.prems" by (simp add: dot_pass.simps [of "[]"])
  qed
next
  case (3 x y segs st)
  consider "x = ''.''" | "x = ''..''" | "x \<noteq> ''.''" "x \<noteq> ''..''" by blast
  then show ?case
  proof cases
    case 1
    have "dot_pass (path_of (x # y # segs)) (out_of st) = dot_pass (path_of (y # segs)) (out_of st)"
      using 1 by (subst dot_pass.simps) simp
    then show ?thesis using 1 3 by simp
  next
    case 2
    have "dot_pass (path_of (x # y # segs)) (out_of st) = dot_pass (path_of (y # segs)) (out_of (tl st))"
      using 2 pop_out_of [of st] "3.prems" by (subst dot_pass.simps) simp
    moreover have t: "\<forall>z \<in> set (y # segs) \<union> set (tl st). CHR ''/'' \<notin> set z"
      using "3.prems" by (cases st) auto
    have "dot_pass (path_of (y # segs)) (out_of (tl st)) = out_of (resolve (y # segs) (tl st))"
      using "3.IH" t by (simp add: 2)
    ultimately show ?thesis using 2 by simp
  next
    case c: 3
    have "dot_pass (path_of (x # y # segs)) (out_of st) = dot_pass (path_of (y # segs)) (out_of (x # st))"
      using dot_pass_other [of "path_of (x # y # segs)" x "path_of (y # segs)" "out_of st"] c "3.prems" by simp
    then show ?thesis using c 3 by simp
  qed
qed

section \<open>The second pass gives a clean path\<close>

text \<open>No two slashes and no dot in front of a slash are adjacent, and the last character is no dot.\<close>

definition may_follow :: "char \<Rightarrow> char \<Rightarrow> bool" where
  "may_follow c d \<longleftrightarrow> \<not> (d = CHR ''/'' \<and> (c = CHR ''/'' \<or> c = CHR ''.''))"

definition clean_path :: "string \<Rightarrow> bool" where
  "clean_path t \<longleftrightarrow> successively may_follow t \<and> (t = [] \<or> last t \<noteq> CHR ''.'')"

definition pass_inv :: "string \<Rightarrow> string \<Rightarrow> bool" where
  "pass_inv s out \<longleftrightarrow> successively may_follow (rev out) \<and>
     (out \<noteq> [] \<and> hd out = CHR ''.'' \<longrightarrow> s \<noteq> [] \<and> hd s \<noteq> CHR ''/'' \<and> hd s \<noteq> CHR ''.'') \<and>
     (out \<noteq> [] \<and> hd out = CHR ''/'' \<longrightarrow> s = [] \<or> hd s \<noteq> CHR ''/'')"

lemma hd0_iff: "d \<noteq> NUL \<Longrightarrow> hd0 s = d \<longleftrightarrow> s \<noteq> [] \<and> hd s = d"
  by (cases s) auto

lemma skip_run_hd: "skip_run d s = [] \<or> hd (skip_run d s) \<noteq> d"
  unfolding skip_run_def by (metis (mono_tags, lifting) hd_dropWhile)

lemma successively_snoc: "successively P (xs @ [x]) \<longleftrightarrow> successively P xs \<and> (xs = [] \<or> P (last xs) x)"
  by (auto simp: successively_append_iff)

lemma successively_replicate: "P c c \<Longrightarrow> successively P (replicate n c)"
proof (induction n)
  case (Suc n)
  then show ?case by (cases n) simp_all
qed simp


text \<open>The last character of the output, which is the head of the reversed list.\<close>

lemma pass_inv_push:
  "successively may_follow (rev out) \<Longrightarrow> (out \<noteq> [] \<longrightarrow> may_follow (hd out) c) \<Longrightarrow> successively may_follow (rev (c # out))"
  by (cases out) (simp_all add: successively_append_iff last_rev)

lemma pass_inv_pop: "successively may_follow (rev (c # out)) \<Longrightarrow> successively may_follow (rev out) \<and> (out \<noteq> [] \<longrightarrow> may_follow (hd out) c)"
  by (cases out) (simp_all add: successively_append_iff last_rev)

lemma push_dots:
  "successively may_follow (rev out) \<Longrightarrow> successively may_follow (rev (replicate n (CHR ''.'') @ out))"
proof (induction n)
  case (Suc n)
  then show ?case
    using pass_inv_push [of "replicate n (CHR ''.'') @ out" "CHR ''.''"] by (simp add: may_follow_def)
qed simp

lemma hd_replicate_append: "0 < n \<Longrightarrow> hd (replicate n c @ out) = c"
  by (cases n) auto

lemma end_pass_clean: "pass_inv s out \<Longrightarrow> clean_path (rev (end_pass s out))"
proof (induction s out rule: end_pass.induct)
  case (1 out)
  then show ?case by (auto simp: pass_inv_def clean_path_def last_rev)
next
  case (2 c s out)
  let ?D = "CHR ''.''" and ?S = "CHR ''/''"
  define ahead where "ahead = skip_run ?D s"
  have ahead: "ahead = [] \<or> hd ahead \<noteq> ?D" unfolding ahead_def by (rule skip_run_hd)
  have len: "length ahead \<le> length s" unfolding ahead_def by (rule skip_run_length)
  have suc: "successively may_follow (rev out)" using "2.prems" by (simp add: pass_inv_def)
  show ?case
  proof (cases "c = ?D")
    case True
    consider "hd0 ahead = ?S" | "ahead = []" | "ahead \<noteq> []" "hd0 ahead \<noteq> ?S" by blast
    then show ?thesis
    proof cases
      case 1
      then have a: "ahead \<noteq> []" "hd ahead = ?S" by (auto simp: hd0_iff)
      define out' where "out' = (if out \<noteq> [] \<and> hd out = ?S then tl out else out)"
      have unf: "end_pass (c # s) out = end_pass ahead out'"
        using True 1 by (simp add: end_pass.simps(2) ahead_def out'_def)
      have "pass_inv ahead out'"
      proof (cases "out \<noteq> [] \<and> hd out = ?S")
        case True
        then obtain o2 where "out = ?S # o2" by (cases out) auto
        then show ?thesis using pass_inv_pop [of ?S o2] suc a by (auto simp: out'_def pass_inv_def may_follow_def)
      next
        case False
        then show ?thesis using "2.prems" True a by (auto simp: out'_def pass_inv_def)
      qed
      then show ?thesis using "2.IH"(1) [OF True ahead_def 1] unf by (simp add: out'_def)
    next
      case 2
      then have unf: "end_pass (c # s) out = out"
        using True by (simp add: end_pass.simps(2) ahead_def)
      show ?thesis using "2.prems" True unf unfolding clean_path_def
        by (auto simp: pass_inv_def last_rev)
    next
      case 3
      define dots where "dots = replicate (Suc (length s) - length ahead) ?D"
      have unf: "end_pass (c # s) out = end_pass ahead (dots @ out)"
        using True 3 by (simp add: end_pass.simps(2) ahead_def dots_def Let_def)
      have "hd (dots @ out) = ?D" using len hd_replicate_append [of "Suc (length s) - length ahead"] by (simp add: dots_def)
      moreover have "hd ahead \<noteq> ?S" using 3 by (simp add: hd0_iff)
      ultimately have "pass_inv ahead (dots @ out)"
        using 3 ahead push_dots [OF suc] by (auto simp: pass_inv_def dots_def)
      then show ?thesis using "2.IH"(3) [OF True ahead_def 3(2,1)] unf by (simp add: dots_def)
    qed
  next
    case nd: False
    show ?thesis
    proof (cases "c = ?S")
      case True
      have unf: "end_pass (c # s) out = end_pass (skip_run ?S s) (?S # out)" using True by (simp add: end_pass.simps(2))
      have "out \<noteq> [] \<longrightarrow> may_follow (hd out) ?S" using "2.prems" True by (auto simp: pass_inv_def may_follow_def)
      then have "pass_inv (skip_run ?S s) (?S # out)"
        using pass_inv_push [OF suc] skip_run_hd [of ?S s] by (auto simp: pass_inv_def)
      then show ?thesis using "2.IH"(4) [OF nd True] unf by simp
    next
      case ns: False
      have "out \<noteq> [] \<longrightarrow> may_follow (hd out) c" using ns by (simp add: may_follow_def)
      then have "pass_inv s (c # out)"
        using pass_inv_push [OF suc] nd ns by (simp add: pass_inv_def)
      then show ?thesis using "2.IH"(5) [OF nd ns] nd ns by (simp add: end_pass.simps(2))
    qed
  qed
qed


lemma end_pass_set: "set (end_pass s out) \<subseteq> set s \<union> set out"
proof (induction s out rule: end_pass.induct)
  case (2 c s out)
  let ?D = "CHR ''.''" and ?S = "CHR ''/''"
  define ahead where "ahead = skip_run ?D s"
  have sub: "set (skip_run d s) \<subseteq> set s" for d unfolding skip_run_def by (auto dest: set_dropWhileD)
  show ?case
  proof (cases "c = ?D")
    case True
    have tl: "set (if out \<noteq> [] \<and> hd out = ?S then tl out else out) \<subseteq> set out" by (cases out) auto
    have rep: "set (replicate (Suc (length s) - length ahead) ?D @ out) \<subseteq> set (c # s) \<union> set out" using True by auto
    have unf: "end_pass (c # s) out = (if hd0 ahead = ?S then end_pass ahead (if out \<noteq> [] \<and> hd out = ?S then tl out else out)
        else if ahead = [] then out else end_pass ahead (replicate (Suc (length s) - length ahead) ?D @ out))"
      using True by (simp add: end_pass.simps(2) ahead_def Let_def)
    show ?thesis
    proof (cases "hd0 ahead = ?S")
      case h: True
      show ?thesis using "2.IH"(1) [OF True ahead_def h] tl sub [of ?D] unf h unfolding ahead_def by auto
    next
      case h: False
      show ?thesis
      proof (cases "ahead = []")
        case False
        show ?thesis using "2.IH"(3) [OF True ahead_def h False] rep sub [of ?D] unf h False unfolding ahead_def
          by (auto simp del: append.simps)
      qed (use unf h in auto)
    qed
  next
    case nd: False
    show ?thesis
    proof (cases "c = ?S")
      case True
      then show ?thesis using "2.IH"(4) [OF nd True] sub [of ?S] by (auto simp: end_pass.simps(2))
    next
      case False
      then show ?thesis using "2.IH"(5) [OF nd False] nd by (auto simp: end_pass.simps(2))
    qed
  qed
qed simp

lemma pop_segment_set: "set (pop_segment out) \<subseteq> set out"
  by (induction out) auto

lemma dot_pass_free:
  "c \<notin> set s \<Longrightarrow> c \<notin> set out \<Longrightarrow> c \<noteq> CHR ''/'' \<Longrightarrow> c \<notin> set (dot_pass s out)"
proof (induction s out rule: dot_pass.induct)
  case (1 s out)
  have p: "c \<notin> set (pop_segment out)" using "1.prems" pop_segment_set by blast
  have d: "c \<notin> set (drop n s)" "c \<notin> set (take n s)" for n
    using "1.prems"(1) by (auto dest: in_set_dropD in_set_takeD)
  show ?case
    using 1 p d by (subst dot_pass.simps) simp
qed

section \<open>A clean path is left alone\<close>

lemma clean_path_Cons:
  "clean_path (c # d # s) \<longleftrightarrow> may_follow c d \<and> clean_path (d # s)" "clean_path [c] \<longleftrightarrow> c \<noteq> CHR ''.''"
  by (auto simp: clean_path_def)

lemma clean_path_append: "clean_path (p @ q) \<Longrightarrow> q \<noteq> [] \<Longrightarrow> clean_path q"
  by (auto simp: clean_path_def successively_append_iff)

lemma clean_segment:
  assumes c: "clean_path (p @ seg @ q)" and q: "q = [] \<or> hd q = CHR ''/''"
  shows "seg = [] \<or> last seg \<noteq> CHR ''.''"
proof (cases "seg = []")
  case False
  show ?thesis
  proof (cases "q = []")
    case True
    then show ?thesis using c False by (auto simp: clean_path_def)
  next
    case False
    then have "may_follow (last seg) (hd q)" if "seg \<noteq> []"
      using c that by (auto simp: clean_path_def successively_append_iff)
    then show ?thesis using q False by (auto simp: may_follow_def)
  qed
qed simp

lemma clean_no_dots:
  assumes "clean_path s" "s = x @ r" "r = [] \<or> hd r = CHR ''/''"
  shows "x \<noteq> ''.''" "x \<noteq> ''..''" "x \<noteq> ''/.''" "x \<noteq> ''/..''"
  using clean_segment [of "[]" x r] assms by auto

lemma dot_pass_clean: "clean_path s \<Longrightarrow> dot_pass s out = rev s @ out"
proof (induction "length s" arbitrary: s out rule: less_induct)
  case less
  show ?case
  proof (cases "s = []")
    case True
    then show ?thesis by (simp add: dot_pass.simps)
  next
    case False
    have no: "take n s \<noteq> x @ ''/''" "s \<noteq> x" if "x \<in> {''.'', ''..'', ''/.'', ''/..''}" for n x
    proof -
      have "take n s = x @ ''/'' \<Longrightarrow> s = x @ CHR ''/'' # drop n s" by (metis append_Cons append_Nil append_assoc append_take_drop_id)
      then show "take n s \<noteq> x @ ''/''" "s \<noteq> x"
        using clean_no_dots [OF less.prems, of x "CHR ''/'' # drop n s"] clean_no_dots [OF less.prems, of x "[]"] that by auto
    qed
    have ns: "take 3 s \<noteq> ''../''" "take 2 s \<noteq> ''./''" "take 3 s \<noteq> ''/./''" "s \<noteq> ''/.''" "take 4 s \<noteq> ''/../''"
      "s \<noteq> ''/..''" "s \<noteq> ''.''" "s \<noteq> ''..''"
      using no(1) [of "''..''" 3] no(1) [of "''.''" 2] no(1) [of "''/.''" 3] no(1) [of "''/..''" 4] no(2) by auto
    let ?n = "segment_length s"
    have l: "0 < ?n" "length (drop ?n s) < length s" using False by (auto simp: segment_length_def)
    have c: "clean_path (drop ?n s)"
      using less.prems clean_path_append [of "take ?n s" "drop ?n s"] by (cases "drop ?n s = []") (auto simp: clean_path_def)
    have "dot_pass s out = dot_pass (drop ?n s) (rev (take ?n s) @ out)"
      by (subst dot_pass.simps) (use False ns in simp)
    also have "\<dots> = rev (drop ?n s) @ rev (take ?n s) @ out" using less.hyps [OF l(2) c] by simp
    also have "\<dots> = rev s @ out" by (metis append.assoc append_take_drop_id rev_append)
    finally show ?thesis .
  qed
qed

lemma skip_run_split: "s = replicate (length s - length (skip_run d s)) d @ skip_run d s"
proof (induction s)
  case (Cons c s)
  have "length (skip_run d s) \<le> length s" by (rule skip_run_length)
  with Cons show ?case by (auto simp: skip_run_def Suc_diff_le)
qed (simp add: skip_run_def)

lemma end_pass_id: "clean_path s \<Longrightarrow> end_pass s out = rev s @ out"
proof (induction s out rule: end_pass.induct)
  case (2 c s out)
  let ?D = "CHR ''.''" and ?S = "CHR ''/''"
  have tl: "clean_path s" using "2.prems" by (cases s) (auto simp: clean_path_Cons, simp add: clean_path_def)
  show ?case
  proof (cases "c = ?D")
    case True
    define ahead where "ahead = skip_run ?D s"
    define n where "n = Suc (length s) - length ahead"
    have n: "n = Suc (length s - length ahead)" using skip_run_length [of ?D s] by (simp add: n_def ahead_def)
    have sp: "c # s = replicate n ?D @ ahead" using skip_run_split [of s ?D] True n by (simp add: ahead_def)
    have "last (replicate n ?D) = ?D" using n by (simp add: last_replicate)
    then have ne: "ahead \<noteq> []" using "2.prems" sp n unfolding clean_path_def by (metis append_Nil2 list.discI)
    have nh: "hd0 ahead \<noteq> ?S"
    proof
      assume "hd0 ahead = ?S"
      then have "replicate n ?D = [] \<or> last (replicate n ?D) \<noteq> ?D"
        using clean_segment [of "[]" "replicate n ?D" ahead] "2.prems" sp by (simp add: hd0_iff)
      with \<open>last (replicate n ?D) = ?D\<close> n show False by simp
    qed
    have ca: "clean_path ahead" using clean_path_append [of "replicate n ?D" ahead] "2.prems" ne unfolding sp by simp
    have "end_pass (c # s) out = end_pass ahead (replicate n ?D @ out)"
      using True nh ne by (simp add: end_pass.simps(2) ahead_def n_def Let_def)
    also have "\<dots> = rev ahead @ replicate n ?D @ out"
      using "2.IH"(3) [OF True ahead_def nh ne] ca by (simp add: n_def)
    also have "\<dots> = rev (c # s) @ out" unfolding sp by simp
    finally show ?thesis .
  next
    case nd: False
    show ?thesis
    proof (cases "c = ?S")
      case True
      have "skip_run ?S s = s" using "2.prems" True by (cases s) (auto simp: clean_path_Cons may_follow_def skip_run_def)
      then show ?thesis using "2.IH"(4) [OF nd True] tl True by (simp add: end_pass.simps(2))
    next
      case False
      then show ?thesis using "2.IH"(5) [OF nd False tl] nd by (simp add: end_pass.simps(2))
    qed
  qed
qed simp

lemma remove_dot_segments_clean: "clean_path (remove_dot_segments s)"
  by (simp add: remove_dot_segments_def Let_def end_pass_clean pass_inv_def)

lemma remove_dot_segments_backslash: "BACKSLASH \<notin> set (remove_dot_segments s)"
proof -
  let ?s = "map (\<lambda>c. if c = BACKSLASH then CHR ''/'' else c) s"
  have "BACKSLASH \<notin> set (dot_pass ?s [])" by (rule dot_pass_free) auto
  then show ?thesis using end_pass_set [of "rev (dot_pass ?s [])" "[]"]
    by (auto simp: remove_dot_segments_def Let_def)
qed

lemma remove_dot_segments_id: "clean_path s \<Longrightarrow> BACKSLASH \<notin> set s \<Longrightarrow> remove_dot_segments s = s"
proof -
  assume c: "clean_path s" "BACKSLASH \<notin> set s"
  then have "map (\<lambda>c. if c = BACKSLASH then CHR ''/'' else c) s = s" by (intro map_idI) auto
  then show ?thesis using c by (simp add: remove_dot_segments_def dot_pass_clean end_pass_id)
qed

section \<open>Hidden files\<close>

lemma wild_literal_suffix:
  "\<forall>c \<in> set w. c \<notin> {CHR ''?'', CHR ''$'', CHR ''*''} \<Longrightarrow> p + length w \<le> length s \<Longrightarrow>
     map tolower (take (length w) (drop p s)) = map tolower w \<Longrightarrow> wild False s pat (p + length w) e \<Longrightarrow>
     wild False s (w @ pat) p e"
proof (induction w arbitrary: p)
  case (Cons c w)
  have p: "p < length s" "drop p s = s ! p # drop (Suc p) s" using Cons.prems(2) by (simp_all add: Cons_nth_drop_Suc)
  have "wild False s (w @ pat) (Suc p) e"
    by (rule Cons.IH) (use Cons.prems p in \<open>auto simp del: drop_Suc\<close>)
  moreover have "\<not> char_differs False c (rd s p)"
    using Cons.prems(3) p by (simp add: char_differs_def lowercase_def rd_def)
  ultimately show ?case using Cons.prems(1) wild_literal [of c s p False "w @ pat" e] by simp
qed simp


lemma must_hide_passwords:
  assumes c: "dom_ctx conn \<noteq> None" and p: "path = p @ w" "map tolower w = ''.htpasswd''"
  shows "must_hide_file conn path"
proof -
  let ?w = "''.htpasswd''" and ?pat = "''**.htpasswd$''"
  have lw: "length w = length ?w" using p(2) by (metis length_map)
  have tw: "map tolower ?w = ?w" by (simp add: tolower_def ctype_simps)
  have at_end: "wild False path ''$'' (length p + length ?w) (length p + length ?w)"
    by (rule wild_dollar) (use p(1) lw in \<open>simp add: rd_def\<close>)
  have "wild False path (?w @ ''$'') (length p) (length p + length ?w)"
    by (rule wild_literal_suffix [OF _ _ _ at_end]) (use p lw tw in \<open>simp_all\<close>)
  then have "wild False path ?pat 0 (length p + length ?w)"
    using wild_stars [of "length p" 0 path False "?w @ ''$''"] p(1) by simp
  then have "\<exists>e. fst (mg_match_impl path ?pat 0 None) = Some e"
    using mg_match_impl_iff(1) [of path ?pat 0 None] by (auto simp: sensitive_def)
  then obtain e where e: "fst (mg_match_impl path ?pat 0 None) = Some e" by blast
  have "wild False path ?pat 0 e" using mg_match_impl_iff(2) [OF e] by (simp add: sensitive_def)
  then obtain l where l: "wild False path ''.htpasswd$'' l e" by (auto simp: wild_star_simp)
  then have "\<not> char_differs False (CHR ''.'') (rd path l)" "wild False path ''htpasswd$'' (Suc l) e"
    by (subst (asm) wild_Cons; auto)+
  then have "0 < e" using wild_bounds [of False path "''htpasswd$''" "Suc l" e] rd_nonNUL [of path l]
    by (cases "rd path l = NUL") (auto simp: char_differs_def lowercase_def tolower_def ctype_simps)
  moreover have "mg_match_alternatives ?pat path None = mg_match_impl path ?pat 0 None"
    by (simp add: mg_match_alternatives_def match_alternatives_loop.simps)
  ultimately have "match_prefix (Some ?pat) path > 0" using e by (simp add: match_prefix_def)
  then show ?thesis using c by (simp add: must_hide_file_def)
qed

section \<open>Properties\<close>

text \<open>
  C23: a path that went through \<open>remove_dot_segments\<close> cannot leave the directory it is appended to.
  Whatever the input, the result has no backslash and no segment \<open>.\<close> or \<open>..\<close>; it is a normal
  form: a second pass changes nothing.
\<close>

theorem remove_dot_segments_safe:
  assumes "remove_dot_segments s = p @ seg @ q" "p = [] \<or> last p = CHR ''/''" "q = [] \<or> hd q = CHR ''/''"
  shows "seg \<noteq> ''.'' \<and> seg \<noteq> ''..'' \<and> BACKSLASH \<notin> set seg \<and>
    remove_dot_segments (remove_dot_segments s) = remove_dot_segments s"
proof -
  have "seg = [] \<or> last seg \<noteq> CHR ''.''"
    using clean_segment [of p seg q] remove_dot_segments_clean [of s] assms by simp
  moreover have "BACKSLASH \<notin> set seg" using remove_dot_segments_backslash [of s] assms(1) by simp
  moreover have "remove_dot_segments (remove_dot_segments s) = remove_dot_segments s"
    by (rule remove_dot_segments_id [OF remove_dot_segments_clean remove_dot_segments_backslash])
  ultimately show ?thesis by auto
qed

lemma remove_dot_segments_safe_witness:
  "remove_dot_segments (remove_dot_segments ''/a/../../b'') = remove_dot_segments ''/a/../../b''"
  using remove_dot_segments_safe [of "''/a/../../b''" "[]" "remove_dot_segments ''/a/../../b''" "[]"] by simp

text \<open>
  C24: the first pass of \<open>remove_dot_segments\<close> is the algorithm of RFC 3986, section 5.2.4. On an
  absolute path it computes what the stack of segments gives: \<open>.\<close> keeps the stack, \<open>..\<close> removes
  its last segment if there is one, any other segment is added.
\<close>

theorem dot_pass_reference:
  assumes "\<forall>seg \<in> set segs. CHR ''/'' \<notin> set seg"
  shows "rev (dot_pass (path_of segs) []) = path_of (rev (resolve segs []))"
  using dot_pass_resolve [of segs "[]"] assms by (simp add: out_of_def)

lemma dot_pass_reference_witness:
  "rev (dot_pass ''/a/./b/../../../c/..'' []) = ''/''"
  using dot_pass_reference [of "[''a'', ''.'', ''b'', ''..'', ''..'', ''..'', ''c'', ''..'']"] by simp

text \<open>
  C25: password files are never served: whatever the configuration, a path that ends in
  \<open>.htpasswd\<close>, in any case, is hidden.
\<close>

theorem must_hide_file_passwords:
  assumes "dom_ctx conn \<noteq> None" "path = p @ w" "map tolower w = ''.htpasswd''"
  shows "must_hide_file conn path"
  using assms by (rule must_hide_passwords)

lemma must_hide_file_passwords_witness: "must_hide_file test_connection ''/srv/x.htPasswd''"
proof -
  have "map tolower ''.htPasswd'' = ''.htpasswd''" by (simp add: tolower_def ctype_simps char_of_eq_iff)
  then show ?thesis
    using must_hide_file_passwords [of test_connection "''/srv/x.htPasswd''" "''/srv/x''" "''.htPasswd''"]
    by (simp add: test_connection_def)
qed

end
