(* ===== verification/Websocket.thy ===== *)
theory Websocket
  imports Http_Body Option_List
begin

text \<open>
  WebSocket frames (\<open>src/civetweb.c\<close>): \<open>mg_websocket_write_exec\<close>, \<open>mg_websocket_write\<close>,
  \<open>mask_data\<close>, \<open>mg_websocket_client_write\<close> and the loop of \<open>read_websocket\<close>, of a build without
  the compression extension. The user's data handler is a function of the opcode byte, the
  data and the callback data; it says whether to go on and which frames it writes.
\<close>

section \<open>Masking\<close>

definition xor_char :: "char \<Rightarrow> char \<Rightarrow> char" where
  "xor_char c d = char_of (code c XOR code d)"

text \<open>A 32-bit word in memory (little endian) and back.\<close>

definition store32 :: "32 word \<Rightarrow> string" where
  "store32 w = map (\<lambda>i. char_of (unat w div 2 ^ (8 * i))) [0..<4]"

definition load32 :: "string \<Rightarrow> 32 word" where
  "load32 s = of_nat (code (s ! 0) + 256 * code (s ! 1) + 65536 * code (s ! 2) + 16777216 * code (s ! 3))"

text \<open>
  \<open>mask_data\<close>: if the input is aligned (\<open>in % 4 = 0\<close>) the first loop works on whole words, the
  second loop does the remaining bytes.
\<close>

fun mask_words :: "string \<Rightarrow> 32 word \<Rightarrow> string \<times> string" where
  "mask_words inp masking_key =
     (if length inp > 3
      then case mask_words (drop 4 inp) masking_key of
             (out, rest) \<Rightarrow> (store32 (load32 inp XOR masking_key) @ out, rest)
      else ([], inp))"

declare mask_words.simps [simp del]

definition mask_bytes :: "nat \<Rightarrow> string \<Rightarrow> 32 word \<Rightarrow> string" where
  "mask_bytes i inp masking_key = map (\<lambda>j. xor_char (inp ! j) (store32 masking_key ! ((i + j) mod 4))) [0..<length inp]"

definition mask_data :: "bool \<Rightarrow> string \<Rightarrow> 32 word \<Rightarrow> string" where
  "mask_data aligned inp masking_key =
     (if length inp > 3 \<and> aligned
      then case mask_words inp masking_key of
             (out, rest) \<Rightarrow> out @ mask_bytes (length out) rest masking_key
      else mask_bytes 0 inp masking_key)"

section \<open>Writing frames\<close>

text \<open>\<open>htons\<close> and \<open>htonl\<close> with the copy into the header: the bytes in network order.\<close>

definition be_bytes :: "nat \<Rightarrow> nat \<Rightarrow> string" where
  "be_bytes k n = map (\<lambda>i. char_of (n div 256 ^ (k - 1 - i))) [0..<k]"

definition ws_frame_header :: "nat \<Rightarrow> nat \<Rightarrow> 32 word \<Rightarrow> string" where
  "ws_frame_header opcode dataLen masking_key =
     (let flag = (if masking_key \<noteq> 0 then 128 else 0);
          b0 = char_of (128 OR (opcode AND 15));
          len = (if dataLen < 126 then [char_of (flag OR dataLen)]
                 else if dataLen \<le> 65535 then char_of (flag OR 126) # be_bytes 2 dataLen
                 else char_of (flag OR 127) # be_bytes 8 dataLen)
      in b0 # len @ (if masking_key \<noteq> 0 then store32 masking_key else []))"

definition mg_websocket_write_exec ::
    "mg_connection \<Rightarrow> nat \<Rightarrow> string \<Rightarrow> 32 word \<Rightarrow> int \<times> mg_connection" where
  "mg_websocket_write_exec conn opcode data masking_key =
     (let header = ws_frame_header opcode (length data) masking_key
      in case mg_write conn header of
           (retval, conn1) \<Rightarrow>
             if retval \<noteq> int (length header) then (-1, conn1)
             else if data \<noteq> [] then mg_write conn1 data
             else (retval, conn1))"

definition mg_websocket_write :: "mg_connection \<Rightarrow> nat \<Rightarrow> string \<Rightarrow> int \<times> mg_connection" where
  "mg_websocket_write conn opcode data = mg_websocket_write_exec conn opcode data 0"

text \<open>The client: \<open>masking_key\<close> is the first random number that is not 0.\<close>

definition mg_websocket_client_write ::
    "bool \<Rightarrow> 32 word \<Rightarrow> mg_connection \<Rightarrow> nat \<Rightarrow> string \<Rightarrow> int \<times> mg_connection" where
  "mg_websocket_client_write aligned masking_key conn opcode data =
     mg_websocket_write_exec conn opcode (mask_data aligned data masking_key) masking_key"

section \<open>Reading frames\<close>

datatype ws_head = Incomplete | Too_Large | Header nat nat nat

fun be_value :: "string \<Rightarrow> nat" where
  "be_value s = foldl (\<lambda>v c. 256 * v + code c) 0 s"

definition ws_parse_header :: "string \<Rightarrow> ws_head" where
  "ws_parse_header buf =
     (let body_len = length buf
      in if body_len \<ge> 2
         then let len = code (buf ! 1) AND 127;
                  mask_len = (if code (buf ! 1) AND 128 \<noteq> 0 then 4 else 0)
              in if len < 126 \<and> body_len \<ge> mask_len then Header (2 + mask_len) mask_len len
                 else if len = 126 \<and> body_len \<ge> 4 + mask_len
                 then Header (4 + mask_len) mask_len (be_value (take 2 (drop 2 buf)))
                 else if body_len \<ge> 10 + mask_len
                 then let data_len = be_value (take 8 (drop 2 buf))
                      in if data_len > 2147418112 then Too_Large else Header (10 + mask_len) mask_len data_len
                 else Incomplete
         else Incomplete)"

lemma pull_step_size_less:
  "pull_step conn len = (n, d, c) \<Longrightarrow> -2 < n \<Longrightarrow> script_size (recv_script c) < script_size (recv_script conn)"
  by (cases "(recv_script conn, len)" rule: pull_inner.cases) (auto simp: pull_step_def min_def split: if_splits)

text \<open>The loop that pulls the rest of a payload; a timeout is tried again.\<close>

function ws_pull :: "mg_connection \<Rightarrow> string \<Rightarrow> nat \<Rightarrow> string option \<times> mg_connection" where
  "ws_pull conn data data_len =
     (if length data < data_len
      then case pull_step conn (data_len - length data) of
             (n, d, conn1) \<Rightarrow>
               if n \<le> -2 then (None, conn1)
               else if n > 0 then ws_pull conn1 (data @ d) data_len
               else ws_pull conn1 data data_len
      else (Some data, conn))"
  by pat_completeness auto
termination
  by (relation "measure (\<lambda>(conn, data, data_len). script_size (recv_script conn))")
     (auto dest!: pull_step_size_less [OF sym])

declare ws_pull.simps [simp del]

text \<open>The payload of the frame at the front of the queue; the queue is advanced.\<close>

definition ws_payload :: "mg_connection \<Rightarrow> nat \<Rightarrow> nat \<Rightarrow> string option \<times> mg_connection" where
  "ws_payload conn header_len data_len =
     (let buf = drop (request_len conn) (conn_buf conn);
          head = take (request_len conn) (conn_buf conn)
      in if data_len + header_len > length buf
         then case ws_pull conn (drop header_len buf) data_len of
                (None, conn1) \<Rightarrow> (None, conn1)
              | (Some data, conn1) \<Rightarrow> (Some data, conn1\<lparr> conn_buf := head \<rparr>)
         else (Some (take data_len (drop header_len buf)),
               conn\<lparr> conn_buf := head @ drop (data_len + header_len) buf \<rparr>))"

definition ws_unmask :: "string \<Rightarrow> string \<Rightarrow> string" where
  "ws_unmask key data = map (\<lambda>i. xor_char (data ! i) (key ! (i mod 4))) [0..<length data]"

text \<open>The size of the connection's buffer (set when the thread starts).\<close>

definition buf_size :: "mg_connection \<Rightarrow> nat" where
  "buf_size conn = (case conf conn MAX_REQUEST_SIZE of None \<Rightarrow> 0 | Some v \<Rightarrow> nat (atoi v))"

definition MG_MAX_UNANSWERED_PING :: nat where "MG_MAX_UNANSWERED_PING = 5"

type_synonym 'd ws_handler = "nat \<Rightarrow> string \<Rightarrow> 'd \<Rightarrow> bool \<times> (nat \<times> string) list \<times> 'd"

definition ws_write_all :: "(nat \<times> string) list \<Rightarrow> mg_connection \<Rightarrow> mg_connection" where
  "ws_write_all msgs conn = fold (\<lambda>(op, data) c. snd (mg_websocket_write c op data)) msgs conn"


text \<open>Reading and writing frames keeps what the loop's termination depends on.\<close>

definition keeps :: "mg_connection \<Rightarrow> mg_connection \<Rightarrow> bool" where
  "keeps c c' \<longleftrightarrow> io_only c c' \<and> recv_script c' = recv_script c"

lemma keeps_refl [simp]: "keeps c c" and keeps_trans: "keeps a b \<Longrightarrow> keeps b c \<Longrightarrow> keeps a c"
  by (auto simp: keeps_def intro: io_only_trans)

lemma push_all_keeps: "push_all c d = (n, c') \<Longrightarrow> keeps c c'"
  using push_loop_delivered [of c d 0 n c'] by (auto simp: push_all_def delivered_def keeps_def)

lemma throttle_loop_keeps: "throttle_loop c d k = (n, c') \<Longrightarrow> keeps c c'"
proof (induction c d k arbitrary: n c' rule: throttle_loop.induct)
  case (1 c d k)
  show ?case
  proof (cases "d \<noteq> [] \<and> \<not> stop_flag c \<and> throttle c > 0")
    case True
    define a where "a = (if throttle c > int (length d) then int (length d) else throttle c)"
    obtain m c1 where p: "push_all c (take (nat a) d) = (m, c1)" by fastforce
    note k = push_all_keeps [OF p]
    let ?c = "c1\<lparr> wall_clock := wall_clock c1 + 1, last_throttle_bytes := a, last_throttle_time := wall_clock c1 + 1 \<rparr>"
    have unf: "(n, c') = (if m \<noteq> a then (k, c1) else throttle_loop ?c (drop (nat m) d) (k + m))"
      using "1.prems" True unfolding throttle_loop.simps [of c d k] Let_def a_def [symmetric] p prod.case by simp
    have kc: "keeps c ?c" using k by (simp add: keeps_def)
    show ?thesis
    proof (cases "m = a")
      case True
      then have "throttle_loop ?c (drop (nat m) d) (k + m) = (n, c')" using unf by simp
      from "1.IH" [OF \<open>_ \<and> _ \<and> _\<close> a_def p [symmetric] _ this] True kc show ?thesis by (auto intro: keeps_trans)
    qed (use unf k in auto)
  qed (use "1.prems" in \<open>subst (asm) throttle_loop.simps; auto\<close>)
qed

lemma mg_write_keeps:
  assumes "mg_write c d = (n, c')"
  shows "keeps c c'"
proof -
  let ?c = "c\<lparr> request_state := 10 \<rparr>"
  have kc: "keeps c ?c" "keeps c (throttle_start ?c)" by (simp_all add: keeps_def throttle_start_def)
  obtain m c1 where p: "(if throttle ?c > 0 then throttled_write ?c d else push_all ?c d) = (m, c1)" by fastforce
  have "keeps c c1"
  proof (cases "throttle ?c > 0")
    case True
    let ?t = "throttle_start ?c"
    define l where "l = throttle ?t - last_throttle_bytes ?t"
    define a where "a = (if l > int (length d) then int (length d) else l)"
    obtain k c2 where q: "push_all ?t (take (nat a) d) = (k, c2)" by fastforce
    have k2: "keeps c c2" using push_all_keeps [OF q] kc(2) by (rule keeps_trans [rotated])
    then have k3: "keeps c (c2\<lparr> last_throttle_bytes := last_throttle_bytes c2 + k \<rparr>)" by (simp add: keeps_def)
    have "(m, c1) = (if k = a then throttle_loop (c2\<lparr> last_throttle_bytes := last_throttle_bytes c2 + k \<rparr>) (drop (nat k) d) k else (k, c2))"
      using p True unfolding throttled_write_def Let_def l_def [symmetric] a_def [symmetric] q prod.case by simp
    then show ?thesis using k2 keeps_trans [OF k3 throttle_loop_keeps [OF sym]] by (cases "k = a") auto
  next
    case False
    then show ?thesis using p push_all_keeps [of ?c d m c1] keeps_trans [OF kc(1)] by simp
  qed
  then show ?thesis using assms p by (auto simp: mg_write_def Let_def keeps_def split: if_splits)
qed

lemma mg_websocket_write_keeps: "mg_websocket_write c op d = (n, c') \<Longrightarrow> keeps c c'"
  by (auto simp: mg_websocket_write_def mg_websocket_write_exec_def Let_def split: if_splits prod.splits
      dest!: mg_write_keeps intro: keeps_trans)

lemma ws_write_all_keeps: "keeps c (ws_write_all msgs c)"
proof (induction msgs arbitrary: c)
  case (Cons m msgs)
  obtain op d where m: "m = (op, d)" by (cases m)
  obtain n c1 where w: "mg_websocket_write c op d = (n, c1)" by fastforce
  have "ws_write_all (m # msgs) c = ws_write_all msgs c1" by (simp add: ws_write_all_def m w)
  then show ?case using Cons.IH [of c1] mg_websocket_write_keeps [OF w] keeps_trans by auto
qed (simp add: ws_write_all_def)

lemma pull_step_keeps: "pull_step c len = (n, d, c') \<Longrightarrow> io_only c c' \<and> script_size (recv_script c') \<le> script_size (recv_script c)"
  using pull_step_size [of c len n d c'] pull_step_data [of c len n d c'] by auto

lemma ws_pull_keeps:
  "ws_pull c data k = (r, c') \<Longrightarrow> io_only c c' \<and> script_size (recv_script c') \<le> script_size (recv_script c)"
proof (induction c data k arbitrary: r c' rule: ws_pull.induct)
  case (1 c data k)
  show ?case
  proof (cases "length data < k")
    case True
    obtain n d c1 where s: "pull_step c (k - length data) = (n, d, c1)" by (metis prod_cases3)
    note p = pull_step_keeps [OF s]
    consider "n \<le> -2" | "\<not> n \<le> -2" "n > 0" | "\<not> n \<le> -2" "\<not> n > 0" by linarith
    then show ?thesis
    proof cases
      case 1
      then show ?thesis using "1.prems" True s p by (subst (asm) ws_pull.simps) simp
    next
      case 2
      then have "ws_pull c1 (data @ d) k = (r, c')" using "1.prems" True s by (subst (asm) ws_pull.simps) simp
      from "1.IH"(1) [OF True s [symmetric] refl 2 this] p show ?thesis by (auto intro: io_only_trans)
    next
      case 3
      then have "ws_pull c1 data k = (r, c')" using "1.prems" True s by (subst (asm) ws_pull.simps) simp
      from "1.IH"(2) [OF True s [symmetric] refl 3 this] p show ?thesis by (auto intro: io_only_trans)
    qed
  next
    case False
    then show ?thesis using "1.prems" by (subst (asm) ws_pull.simps) simp
  qed
qed

definition ws_avail :: "mg_connection \<Rightarrow> nat" where
  "ws_avail c = (length (conn_buf c) - request_len c) + 2 * script_size (recv_script c)"

lemma ws_avail_keeps: "keeps c c' \<Longrightarrow> ws_avail c' = ws_avail c"
  using io_only_fields [of c c'] by (simp add: ws_avail_def keeps_def)

lemma ws_payload_avail:
  assumes "ws_payload c h k = (r, c')" "0 < h" "h \<le> length (drop (request_len c) (conn_buf c))"
  shows "r \<noteq> None \<Longrightarrow> ws_avail c' < ws_avail c"
proof -
  assume r: "r \<noteq> None"
  let ?b = "drop (request_len c) (conn_buf c)"
  show ?thesis
  proof (cases "k + h > length ?b")
    case True
    obtain x c1 where p: "ws_pull c (drop h ?b) k = (x, c1)" by fastforce
    note kp = ws_pull_keeps [OF p]
    note io = io_only_fields(8,9) [of c c1]
    have "x = r" "c' = c1\<lparr> conn_buf := take (request_len c) (conn_buf c) \<rparr>"
      using assms(1) True p r by (auto simp: ws_payload_def Let_def split: option.splits)
    then have "ws_avail c' = 2 * script_size (recv_script c1)" using kp io_only_fields [of c c1] by (simp add: ws_avail_def)
    moreover have "0 < length (conn_buf c) - request_len c" using assms(2,3) by simp
    ultimately show ?thesis using kp unfolding ws_avail_def by linarith
  next
    case False
    then have "c' = c\<lparr> conn_buf := take (request_len c) (conn_buf c) @ drop (k + h) ?b \<rparr>"
      using assms(1) by (auto simp: ws_payload_def Let_def)
    then show ?thesis using False assms(2,3) by (simp add: ws_avail_def)
  qed
qed

lemma ws_pull_more_avail:
  assumes "pull_step c len = (n, d, c')" "-2 < n"
  shows "ws_avail (c'\<lparr> conn_buf := conn_buf c' @ d \<rparr>) < ws_avail c"
proof -
  have "io_only c c'" using pull_step_keeps [OF assms(1)] by simp
  moreover have "2 * script_size (recv_script c') + length d < 2 * script_size (recv_script c)"
    using assms(1,2)
    by (cases "(recv_script c, len)" rule: pull_inner.cases) (auto simp: pull_step_def min_def split: if_splits)
  ultimately show ?thesis using io_only_fields [of c c'] by (simp add: ws_avail_def)
qed

text \<open>What one received frame does: the loop goes on, or it ends.\<close>

datatype 'd ws_after = Go_On mg_connection nat 'd | Leave mg_connection 'd

definition ws_dispatch ::
    "'d ws_handler option \<Rightarrow> bool \<Rightarrow> mg_connection \<Rightarrow> nat \<Rightarrow> 'd \<Rightarrow> nat \<Rightarrow> string \<Rightarrow> 'd ws_after" where
  "ws_dispatch handler ping_pong conn ping_count d mop data =
     (let finish = (\<lambda>c k x. if mop AND 15 = 8 then Leave c x else Go_On c k x)
      in if ping_pong \<and> mop AND 15 = 10 then finish conn 0 d
         else if ping_pong \<and> mop AND 15 = 9
         then case mg_websocket_write conn 10 data of
                (ret, conn1) \<Rightarrow> if ret \<le> 0 then Leave conn1 d else finish conn1 ping_count d
         else case handler of
                None \<Rightarrow> finish conn ping_count d
              | Some h \<Rightarrow>
                  (case h mop data d of
                     (go_on, msgs, d') \<Rightarrow>
                       let conn1 = ws_write_all msgs conn
                       in if \<not> go_on then Leave conn1 d' else finish conn1 ping_count d'))"

lemma ws_dispatch_keeps:
  "ws_dispatch handler pp c k d mop data = Go_On c' k' d' \<Longrightarrow> keeps c c'"
  using mg_websocket_write_keeps [of c 10 data] ws_write_all_keeps
  by (auto simp: ws_dispatch_def Let_def split: if_splits prod.splits option.splits)

text \<open>The pings of an idle connection; the result says whether the loop goes on.\<close>

definition ws_idle :: "bool \<Rightarrow> mg_connection \<Rightarrow> nat \<Rightarrow> bool \<times> mg_connection \<times> nat" where
  "ws_idle ping_pong conn ping_count =
     (if \<not> stop_flag conn \<and> \<not> must_close conn
      then if ping_count > MG_MAX_UNANSWERED_PING then (False, conn, ping_count)
           else if ping_pong
           then case mg_websocket_write conn 9 [] of
                  (ret, conn1) \<Rightarrow> if ret \<le> 0 then (False, conn1, ping_count) else (True, conn1, Suc ping_count)
           else (True, conn, ping_count)
      else (True, conn, ping_count))"

lemma ws_idle_keeps: "ws_idle pp c k = (b, c', k') \<Longrightarrow> keeps c c'"
  using mg_websocket_write_keeps [of c 9 "[]"]
  by (auto simp: ws_idle_def split: if_splits prod.splits)

lemma ws_header_range: "ws_parse_header buf = Header h m k \<Longrightarrow> 2 \<le> h \<and> m \<le> h"
  by (auto simp: ws_parse_header_def Let_def split: if_splits)

lemma ws_frame_avail:
  assumes "ws_parse_header (drop (request_len c) (conn_buf c)) = Header h m k" "h \<le> length (drop (request_len c) (conn_buf c))"
    "(Some data, c1) = ws_payload c h k" "ws_dispatch handler pp c1 pc d mop data' = Go_On c2 pc' d'"
  shows "ws_avail c2 < ws_avail c"
  using ws_payload_avail [OF assms(3) [symmetric] _ assms(2)] ws_header_range [OF assms(1)]
    ws_avail_keeps [OF ws_dispatch_keeps [OF assms(4)]] by simp

lemma ws_idle_avail:
  assumes "(n, s, c1) = pull_step c len" "-2 < n" "(b, c2, k') = ws_idle pp c1 k"
  shows "ws_avail c2 < ws_avail c"
proof -
  have "ws_avail c2 = ws_avail c1" using ws_avail_keeps [OF ws_idle_keeps [OF assms(3) [symmetric]]] .
  moreover have "ws_avail c1 \<le> ws_avail (c1\<lparr> conn_buf := conn_buf c1 @ s \<rparr>)" by (simp add: ws_avail_def)
  ultimately show ?thesis using ws_pull_more_avail [OF assms(1) [symmetric] assms(2)] by simp
qed

text \<open>The loop. \<open>request_len\<close> never exceeds the data in the buffer (the code asserts it).\<close>

function ws_loop ::
    "'d ws_handler option \<Rightarrow> bool \<Rightarrow> mg_connection \<Rightarrow> nat \<Rightarrow> 'd \<Rightarrow> mg_connection \<times> 'd" and
  ws_more ::
    "'d ws_handler option \<Rightarrow> bool \<Rightarrow> mg_connection \<Rightarrow> nat \<Rightarrow> 'd \<Rightarrow> mg_connection \<times> 'd" where
  "ws_loop handler ping_pong conn ping_count d =
     (if stop_flag conn \<or> must_close conn \<or> length (conn_buf conn) < request_len conn then (conn, d)
      else let buf = drop (request_len conn) (conn_buf conn)
           in case ws_parse_header buf of
                Too_Large \<Rightarrow> (conn, d)
              | Incomplete \<Rightarrow> ws_more handler ping_pong conn ping_count d
              | Header header_len mask_len data_len \<Rightarrow>
                  if length buf \<ge> header_len
                  then case ws_payload conn header_len data_len of
                         (None, conn1) \<Rightarrow> (conn1, d)
                       | (Some data, conn1) \<Rightarrow>
                           (case ws_dispatch handler ping_pong conn1 ping_count d (code (buf ! 0))
                                   (if mask_len > 0
                                    then ws_unmask (drop (header_len - mask_len) (take header_len buf)) data else data) of
                              Leave conn2 d' \<Rightarrow> (conn2, d')
                            | Go_On conn2 ping_count' d' \<Rightarrow> ws_loop handler ping_pong conn2 ping_count' d')
                  else ws_more handler ping_pong conn ping_count d)"
| "ws_more handler ping_pong conn ping_count d =
     (case pull_step conn (buf_size conn - length (conn_buf conn)) of
        (n, s, conn1) \<Rightarrow>
          if n \<le> -2 then (conn1, d)
          else if n > 0
          then ws_loop handler ping_pong (conn1\<lparr> conn_buf := conn_buf conn1 @ s \<rparr>) 0 d
          else case ws_idle ping_pong conn1 ping_count of
                 (False, conn2, _) \<Rightarrow> (conn2, d)
               | (True, conn2, ping_count') \<Rightarrow> ws_loop handler ping_pong conn2 ping_count' d)"
  by pat_completeness auto


termination
proof (relation "measure (case_sum (\<lambda>(h, pp, c, k, d). Suc (2 * ws_avail c)) (\<lambda>(h, pp, c, k, d). 2 * ws_avail c))", goal_cases)
  case 2
  then show ?case by simp
next
  case 4
  then show ?case by simp
next
  case (3 handler pp c k d buf h m n x c1 data c2 k' d')
  then show ?case using ws_frame_avail [of c h m n data c1 handler pp k d] by simp
qed (auto dest: ws_idle_avail ws_pull_more_avail [OF sym])

declare ws_loop.simps [simp del] ws_more.simps [simp del]

definition read_websocket :: "'d ws_handler option \<Rightarrow> mg_connection \<Rightarrow> 'd \<Rightarrow> mg_connection \<times> 'd" where
  "read_websocket handler conn d =
     (let enable_ping_pong = (case conf conn ENABLE_WEBSOCKET_PING_PONG of
              None \<Rightarrow> False | Some v \<Rightarrow> mg_strcasecmp v ''yes'' = 0)
      in ws_loop handler enable_ping_pong conn 0 d)"

section \<open>Masking is one XOR per byte\<close>

lemma code_xor [simp]: "code (xor_char c d) = code c XOR code d"
proof -
  have "take_bit 8 (code c XOR code d) = code c XOR code d"
    by (simp add: take_bit_xor take_bit_nat_eq_self)
  then show ?thesis by (simp add: xor_char_def take_bit_eq_mod)
qed

lemma xor_char_twice [simp]: "xor_char (xor_char c d) d = c"
proof -
  have "code (xor_char (xor_char c d) d) = code c" by (simp add: xor.assoc)
  then show ?thesis by (simp only: code_eq_iff)
qed

lemma length_store32 [simp]: "length (store32 w) = 4"
  by (simp add: store32_def)

lemma store32_nth: "i < 4 \<Longrightarrow> store32 w ! i = char_of (unat w div 2 ^ (8 * i))"
  by (simp add: store32_def)

lemma unat_load32:
  assumes "length s > 3"
  shows "unat (load32 s) = code (s ! 0) + 256 * code (s ! 1) + 65536 * code (s ! 2) + 16777216 * code (s ! 3)"
proof -
  have "code (s ! 0) + 256 * code (s ! 1) + 65536 * code (s ! 2) + 16777216 * code (s ! 3) < 4294967296"
    using code_less_256 [of "s ! 0"] code_less_256 [of "s ! 1"] code_less_256 [of "s ! 2"] code_less_256 [of "s ! 3"]
    by linarith
  then show ?thesis unfolding load32_def by (subst unsigned_of_nat) (simp add: take_bit_nat_eq_self)
qed

lemma byte_split: "a < 256 \<Longrightarrow> (a + 256 * x) mod 256 = a" "a < 256 \<Longrightarrow> (a + 256 * x) div 256 = (x::nat)"
  by simp_all

lemma load32_byte:
  assumes "length s > 3" "i < 4"
  shows "unat (load32 s) div 2 ^ (8 * i) mod 256 = code (s ! i)"
proof -
  define a b c d where "a = code (s ! 0)" and "b = code (s ! 1)" and "c = code (s ! 2)" and "d = code (s ! 3)"
  have lt: "a < 256" "b < 256" "c < 256" "d < 256" by (simp_all add: a_def b_def c_def d_def)
  have u: "unat (load32 s) = a + 256 * (b + 256 * (c + 256 * d))"
    unfolding unat_load32 [OF assms(1)] a_def b_def c_def d_def by simp
  have d1: "unat (load32 s) div 256 = b + 256 * (c + 256 * d)" unfolding u by (rule byte_split(2) [OF lt(1)])
  have d2: "unat (load32 s) div 65536 = c + 256 * d"
    using div_mult2_eq [of "unat (load32 s)" 256 256] unfolding d1 byte_split(2) [OF lt(2)] by simp
  have d3: "unat (load32 s) div 16777216 = d"
    using div_mult2_eq [of "unat (load32 s)" 65536 256] unfolding d2 byte_split(2) [OF lt(3)] by simp
  consider "i = 0" | "i = 1" | "i = 2" | "i = 3" using assms(2) by linarith
  then show ?thesis
  proof cases
    case 1
    then show ?thesis using byte_split(1) [OF lt(1)] u a_def by (metis div_by_1 mult_0_right power_0)
  next
    case 2
    then have "unat (load32 s) div 2 ^ (8 * i) = b + 256 * (c + 256 * d)" using d1 by simp
    then have "unat (load32 s) div 2 ^ (8 * i) mod 256 = b" using byte_split(1) [OF lt(2)] by (simp only:)
    then show ?thesis using 2 b_def by (simp only:)
  next
    case 3
    then have "unat (load32 s) div 2 ^ (8 * i) = c + 256 * d" using d2 by simp
    then have "unat (load32 s) div 2 ^ (8 * i) mod 256 = c" using byte_split(1) [OF lt(3)] by (simp only:)
    then show ?thesis using 3 c_def by (simp only:)
  next
    case 4
    then show ?thesis using d3 lt(4) d_def by simp
  qed
qed

lemma store32_xor_load:
  assumes "length s > 3" "i < 4"
  shows "store32 (load32 s XOR k) ! i = xor_char (s ! i) (store32 k ! i)"
proof -
  have d: "unat w div 2 ^ (8 * i) = drop_bit (8 * i) (unat w)" for w :: "32 word" by (simp add: drop_bit_eq_div)
  have "code (store32 (load32 s XOR k) ! i) = take_bit 8 (drop_bit (8 * i) (unat (load32 s) XOR unat k))"
    using assms(2) by (simp add: store32_nth unsigned_xor_eq take_bit_eq_mod drop_bit_eq_div)
  also have "\<dots> = take_bit 8 (drop_bit (8 * i) (unat (load32 s))) XOR take_bit 8 (drop_bit (8 * i) (unat k))"
    by (simp add: drop_bit_xor take_bit_xor)
  also have "take_bit 8 (drop_bit (8 * i) (unat (load32 s))) = code (s ! i)"
    using load32_byte [OF assms] by (simp add: take_bit_eq_mod drop_bit_eq_div)
  also have "take_bit 8 (drop_bit (8 * i) (unat k)) = code (store32 k ! i)"
    using assms(2) by (simp add: store32_nth d take_bit_eq_mod)
  finally have "code (store32 (load32 s XOR k) ! i) = code (xor_char (s ! i) (store32 k ! i))" by simp
  then show ?thesis by (simp only: code_eq_iff)
qed

lemma length_mask_bytes [simp]: "length (mask_bytes i s k) = length s"
  by (simp add: mask_bytes_def)

lemma mask_bytes_append: "mask_bytes i (a @ b) k = mask_bytes i a k @ mask_bytes (i + length a) b k"
  by (rule nth_equalityI) (auto simp: mask_bytes_def nth_append add.assoc)

lemma mask_bytes_period: "mask_bytes (i + 4) s k = mask_bytes i s k"
  by (simp add: mask_bytes_def add.commute [of _ 4] add.assoc)

lemma mask_word: "length s = 4 \<Longrightarrow> store32 (load32 s XOR k) = mask_bytes 0 s k"
  by (rule nth_equalityI) (simp_all add: store32_xor_load mask_bytes_def)

lemma load32_take: "load32 (take 4 s) = load32 s"
  by (simp add: load32_def)

lemma mask_words_bytes:
  "mask_words s k = (out, rest) \<Longrightarrow>
     out @ mask_bytes (length out) rest k = mask_bytes 0 s k \<and> length out mod 4 = 0"
proof (induction s k arbitrary: out rest rule: mask_words.induct)
  case (1 s k)
  show ?case
  proof (cases "length s > 3")
    case True
    obtain o1 r1 where m: "mask_words (drop 4 s) k = (o1, r1)" by fastforce
    have o: "out = store32 (load32 s XOR k) @ o1" "rest = r1"
      using "1.prems" True m by (auto simp: mask_words.simps [of s])
    note ih = "1.IH" [OF True m]
    have "store32 (load32 s XOR k) = mask_bytes 0 (take 4 s) k"
      using mask_word [of "take 4 s" k] True by (simp add: load32_take)
    then have "out @ mask_bytes (length out) rest k =
        mask_bytes 0 (take 4 s) k @ o1 @ mask_bytes (length o1 + 4) r1 k"
      using o True by (simp add: add.commute)
    also have "\<dots> = mask_bytes 0 (take 4 s) k @ mask_bytes (0 + 4) (drop 4 s) k"
      using ih by (simp only: mask_bytes_period)
    also have "\<dots> = mask_bytes 0 s k"
      using mask_bytes_append [of 0 "take 4 s" "drop 4 s" k] True by simp
    finally show ?thesis using o ih by simp
  next
    case False
    then show ?thesis using "1.prems" by (auto simp: mask_words.simps [of s])
  qed
qed

lemma mask_data_bytes: "mask_data aligned s k = mask_bytes 0 s k"
  using mask_words_bytes [of s k] by (auto simp: mask_data_def split: prod.splits)

lemma ws_unmask_bytes: "ws_unmask (store32 k) s = mask_bytes 0 s k"
  by (simp add: ws_unmask_def mask_bytes_def)

lemma mask_twice: "ws_unmask (store32 k) (mask_data aligned s k) = s"
  by (rule nth_equalityI) (simp_all add: mask_data_bytes ws_unmask_bytes, simp add: mask_bytes_def)

section \<open>Frame headers\<close>

lemma be_foldl: "foldl (\<lambda>v c. 256 * v + code c) a s = a * 256 ^ length s + foldl (\<lambda>v c. 256 * v + code c) 0 s"
proof (induction s arbitrary: a)
  case (Cons c s)
  show ?case using Cons.IH [of "256 * a + code c"] Cons.IH [of "code c"] by (simp add: algebra_simps)
qed simp

lemma be_bytes_Suc: "be_bytes (Suc k) n = char_of (n div 256 ^ k) # be_bytes k n"
proof -
  have "map (\<lambda>i. char_of (n div 256 ^ (Suc k - 1 - i))) [0..<Suc k] =
      char_of (n div 256 ^ k) # map (\<lambda>i. char_of (n div 256 ^ (k - Suc i))) [0..<k]"
    by (subst upt_conv_Cons) (simp_all add: map_Suc_upt [symmetric] del: upt_Suc)
  then show ?thesis by (simp add: be_bytes_def)
qed

lemma be_value_bytes: "be_value (be_bytes k n) = n mod 256 ^ k"
proof (induction k)
  case 0
  then show ?case by (simp add: be_bytes_def)
next
  case (Suc k)
  have "be_value (be_bytes (Suc k) n) = (n div 256 ^ k mod 256) * 256 ^ k + n mod 256 ^ k"
    using Suc be_foldl [of "n div 256 ^ k mod 256" "be_bytes k n"]
    by (simp add: be_bytes_Suc) (simp add: be_bytes_def)
  then show ?case unfolding power_Suc2 mod_mult2_eq by (simp add: mult.commute)
qed

lemma length_be_bytes [simp]: "length (be_bytes k n) = k"
  by (simp add: be_bytes_def)

lemma flag_or: "n < 128 \<Longrightarrow> 128 OR n = 128 + (n::nat)"
  using or_disjoint_nat [of n 7 1] by simp

lemma and_127: "n AND 127 = n mod (128::nat)"
  using take_bit_eq_mask [of 7 n] by (simp add: mask_eq_exp_minus_1 take_bit_eq_mod)

lemma and_128: "n < 128 \<Longrightarrow> n AND 128 = (0::nat)" "n < 128 \<Longrightarrow> (128 + n) AND 128 \<noteq> (0::nat)"
proof -
  assume n: "n < 128"
  have "n AND 2 ^ 7 = 0" using n by (subst and_exp_eq_0_iff_not_bit) (simp add: bit_iff_odd)
  then show "n AND 128 = 0" by simp
  have "(128 + n) AND 2 ^ 7 \<noteq> 0" using n div_add_self1 [of 128 n] by (subst and_exp_eq_0_iff_not_bit) (simp add: bit_iff_odd)
  then show "(128 + n) AND 128 \<noteq> 0" by simp
qed


lemma frame_len_byte:
  assumes "n < 128"
  shows "code (char_of (128 OR n)) AND 127 = n" "code (char_of (0 OR n)) AND 127 = n"
    "code (char_of (128 OR n)) AND 128 \<noteq> 0" "code (char_of (0 OR n)) AND 128 = 0"
  using assms and_128 [of n] flag_or [of n] by (simp_all add: and_127)

definition key_len :: "32 word \<Rightarrow> nat" where "key_len k = (if k \<noteq> 0 then 4 else 0)"

lemma ws_frame_header_length:
  "length (ws_frame_header op n k) = (if n < 126 then 2 else if n \<le> 65535 then 4 else 10) + key_len k"
  by (simp add: ws_frame_header_def Let_def key_len_def)

text \<open>The parser on a buffer that starts with a written header.\<close>

lemma ws_parse_header_written:
  assumes n: "n \<le> 2147418112"
  shows "ws_parse_header (ws_frame_header op n k @ r) = Header (length (ws_frame_header op n k)) (key_len k) n"
proof -
  let ?f = "if k \<noteq> 0 then 128 else 0 :: nat"
  have fl: "code (char_of (?f OR m)) AND 127 = m" "(code (char_of (?f OR m)) AND 128 \<noteq> 0) = (k \<noteq> 0)" if "m < 128" for m
    using frame_len_byte [OF that] by auto
  consider "n < 126" | "126 \<le> n" "n \<le> 65535" | "65535 < n" by linarith
  then show ?thesis
  proof cases
    case 1
    then show ?thesis using fl [of n] by (simp add: ws_frame_header_def ws_parse_header_def Let_def key_len_def)
  next
    case 2
    have "take 2 (be_bytes 2 n @ x) = be_bytes 2 n" for x by simp
    moreover have "be_value (be_bytes 2 n) = n" using 2 by (simp add: be_value_bytes del: be_value.simps)
    ultimately show ?thesis using 2 fl [of 126]
      by (simp add: ws_frame_header_def ws_parse_header_def Let_def key_len_def del: be_value.simps)
  next
    case 3
    have "take 8 (be_bytes 8 n @ x) = be_bytes 8 n" for x by simp
    moreover have "be_value (be_bytes 8 n) = n" using n by (simp add: be_value_bytes del: be_value.simps)
    ultimately show ?thesis using 3 n fl [of 127]
      by (simp add: ws_frame_header_def ws_parse_header_def Let_def key_len_def del: be_value.simps)
  qed
qed

text \<open>As long as a part of the header is missing the parser asks for more.\<close>

lemma ws_parse_header_partial:
  assumes n: "n \<le> 2147418112" and b: "i < length (ws_frame_header op n k)"
  shows "ws_parse_header (take i (ws_frame_header op n k)) = Incomplete \<or>
    (\<exists>h m d. ws_parse_header (take i (ws_frame_header op n k)) = Header h m d \<and> i < h)"
proof -
  let ?f = "if k \<noteq> 0 then 128 else 0 :: nat" and ?H = "ws_frame_header op n k"
  have fl: "code (char_of (?f OR m)) AND 127 = m" "(code (char_of (?f OR m)) AND 128 \<noteq> 0) = (k \<noteq> 0)" if "m < 128" for m
    using frame_len_byte [OF that] by auto
  have len: "length (take i ?H) = i" using b by simp
  show ?thesis
  proof (cases "i < 2")
    case True
    then show ?thesis using len by (simp add: ws_parse_header_def Let_def)
  next
    case False
    then have one: "take i ?H ! 1 = ?H ! 1" by simp
    consider "n < 126" | "126 \<le> n" "n \<le> 65535" | "65535 < n" by linarith
    then show ?thesis
    proof cases
      case 1
      then have "?H ! 1 = char_of (?f OR n)" by (simp add: ws_frame_header_def Let_def)
      then show ?thesis using 1 False fl [of n] b len one ws_frame_header_length [of op n k]
        unfolding ws_parse_header_def Let_def len one by (auto simp: key_len_def)
    next
      case 2
      then have "?H ! 1 = char_of (?f OR 126)" by (simp add: ws_frame_header_def Let_def)
      then show ?thesis using 2 False fl [of 126] b len one ws_frame_header_length [of op n k]
        unfolding ws_parse_header_def Let_def len one by (auto simp: key_len_def simp del: be_value.simps)
    next
      case 3
      then have "?H ! 1 = char_of (?f OR 127)" by (simp add: ws_frame_header_def Let_def)
      then show ?thesis using 3 False fl [of 127] b len one ws_frame_header_length [of op n k]
        unfolding ws_parse_header_def Let_def len one by (auto simp: key_len_def simp del: be_value.simps)
    qed
  qed
qed

lemma ws_frame_header_key: "k \<noteq> 0 \<Longrightarrow> drop (length (ws_frame_header op n k) - 4) (ws_frame_header op n k) = store32 k"
  by (simp add: ws_frame_header_def Let_def)

lemma ws_frame_header_op: "op < 16 \<Longrightarrow> code (ws_frame_header op n k ! 0) = 128 + op"
proof -
  assume op: "op < 16"
  then have "op AND 15 = op" by (simp add: and_low_bits)
  then have "128 OR (op AND 15) = 128 + op" using flag_or [of op] op by simp
  then show ?thesis using op by (simp add: ws_frame_header_def Let_def)
qed

section \<open>Receiving what was sent\<close>

text \<open>What can be read from the queue of the connection and its peer.\<close>

definition ws_stream :: "mg_connection \<Rightarrow> string" where
  "ws_stream c = drop (request_len c) (conn_buf c) @ recv_data (recv_script c)"

text \<open>An open connection with room for a frame header behind the request, and a peer that delivers data.\<close>

definition ws_open :: "mg_connection \<Rightarrow> bool" where
  "ws_open c \<longleftrightarrow> steady c \<and> \<not> must_close c \<and> request_len c \<le> length (conn_buf c) \<and> request_len c + 14 \<le> buf_size c"

lemma buf_size_io: "io_only a b \<Longrightarrow> buf_size b = buf_size a"
  using io_only_fields [of a b] by (simp add: buf_size_def conf_def)

lemma steady_buf [simp]: "steady (c\<lparr> conn_buf := b \<rparr>) = steady c"
  by (simp add: steady_def)

lemma buf_size_buf [simp]: "buf_size (c\<lparr> conn_buf := b \<rparr>) = buf_size c"
  by (simp add: buf_size_def conf_def)

lemma steady_pull:
  assumes "ws_open c" "0 < len" "recv_data (recv_script c) \<noteq> []"
  obtains d c1 where "pull_step c len = (int (length d), d, c1)" "d \<noteq> []" "length d \<le> len" "io_only c c1"
    "recv_data (recv_script c) = d @ recv_data (recv_script c1)" "steady c1"
proof -
  have "recv_script c \<noteq> []" using assms(3) by auto
  then obtain d c1 where p: "pull_step c len = (int (length d), d, c1)" "d \<noteq> []" "steady c1"
    using steady_step [of c len] assms by (auto simp: ws_open_def)
  then show ?thesis using that pull_step_data [OF p(1)] p(3) by (auto simp: steady_def)
qed

lemma ws_open_io: "ws_open c \<Longrightarrow> io_only c c1 \<Longrightarrow> steady c1 \<Longrightarrow> ws_open c1"
  using io_only_fields [of c c1] buf_size_io [of c c1] by (simp add: ws_open_def)

text \<open>The missing part of a header is pulled into the queue.\<close>

lemma ws_more_step:
  assumes o: "ws_open c" and l: "length (conn_buf c) < buf_size c" and r: "recv_data (recv_script c) \<noteq> []"
  obtains c1 where "ws_more h pp c k d = ws_loop h pp c1 0 d" "ws_open c1" "ws_stream c1 = ws_stream c"
    "length (recv_data (recv_script c1)) < length (recv_data (recv_script c))" "request_len c1 = request_len c"
proof -
  obtain s c1 where p: "pull_step c (buf_size c - length (conn_buf c)) = (int (length s), s, c1)" "s \<noteq> []" "io_only c c1"
    "recv_data (recv_script c) = s @ recv_data (recv_script c1)" "steady c1"
    by (rule steady_pull [OF o _ r, of "buf_size c - length (conn_buf c)"]) (use l in auto)
  note f = io_only_fields [OF p(3)]
  let ?c = "c1\<lparr> conn_buf := conn_buf c1 @ s \<rparr>"
  have "ws_more h pp c k d = ws_loop h pp ?c 0 d" using p(1,2) by (simp add: ws_more.simps)
  moreover have "ws_open ?c" using ws_open_io [OF o p(3,5)] by (simp add: ws_open_def)
  moreover have "ws_stream ?c = ws_stream c" using o p(4) f by (simp add: ws_stream_def ws_open_def)
  ultimately show ?thesis using that p(2,4) f by simp
qed


lemma ws_pull_steady:
  "steady c \<Longrightarrow> length data \<le> k \<Longrightarrow> k - length data \<le> length (recv_data (recv_script c)) \<Longrightarrow>
     \<exists>c1. ws_pull c data k = (Some (data @ take (k - length data) (recv_data (recv_script c))), c1) \<and> io_only c c1 \<and>
          steady c1 \<and> recv_data (recv_script c1) = drop (k - length data) (recv_data (recv_script c))"
proof (induction "k - length data" arbitrary: c data rule: less_induct)
  case less
  show ?case
  proof (cases "length data < k")
    case False
    then show ?thesis using less.prems by (subst ws_pull.simps) simp
  next
    case True
    then have ne: "recv_script c \<noteq> []" using less.prems by auto
    obtain d c1 where p: "pull_step c (k - length data) = (int (length d), d, c1)" "d \<noteq> []" "steady c1"
      using steady_step [OF less.prems(1) _ ne, of "k - length data"] True by auto
    have f: "recv_data (recv_script c) = d @ recv_data (recv_script c1) \<and> length d \<le> k - length data \<and> io_only c c1 \<and> wire c1 = wire c"
      using pull_step_data [OF p(1)] p(3) by (simp add: steady_def)
    have run: "ws_pull c data k = ws_pull c1 (data @ d) k"
      using True p(1,2) by (subst ws_pull.simps) simp
    have dl: "0 < length d" "length d \<le> k - length data" using p(2) f by auto
    then have lt: "k - length (data @ d) < k - length data" unfolding length_append using True by linarith
    have "k - length (data @ d) \<le> length (recv_data (recv_script c1))" "length (data @ d) \<le> k"
      using less.prems(2,3) f dl by auto
    from less.hyps [OF lt p(3) this(2,1)] obtain c2 where c2:
      "ws_pull c1 (data @ d) k = (Some ((data @ d) @ take (k - length (data @ d)) (recv_data (recv_script c1))), c2)"
      "io_only c1 c2" "steady c2" "recv_data (recv_script c2) = drop (k - length (data @ d)) (recv_data (recv_script c1))"
      by blast
    have "take (k - length data) (recv_data (recv_script c)) = d @ take (k - length (data @ d)) (recv_data (recv_script c1))"
      "drop (k - length data) (recv_data (recv_script c)) = drop (k - length (data @ d)) (recv_data (recv_script c1))"
      using f dl by simp_all
    then show ?thesis using run c2 f by (auto intro: io_only_trans)
  qed
qed

lemma ws_payload_steady:
  assumes o: "ws_open c" and h: "h \<le> length (drop (request_len c) (conn_buf c))"
    and l: "h + k \<le> length (ws_stream c)"
  obtains c1 where "ws_payload c h k = (Some (take k (drop h (ws_stream c))), c1)" "ws_open c1"
    "ws_stream c1 = drop (h + k) (ws_stream c)" "request_len c1 = request_len c"
proof -
  let ?b = "drop (request_len c) (conn_buf c)" and ?R = "recv_data (recv_script c)"
  have rl: "request_len c \<le> length (conn_buf c)" "steady c" using o by (auto simp: ws_open_def)
  show ?thesis
  proof (cases "k + h > length ?b")
    case True
    have a: "length (drop h ?b) \<le> k" "k - length (drop h ?b) \<le> length ?R"
      using True l h by (auto simp: ws_stream_def)
    obtain c1 where c1: "ws_pull c (drop h ?b) k = (Some (drop h ?b @ take (k - length (drop h ?b)) ?R), c1)" "io_only c c1"
      "steady c1" "recv_data (recv_script c1) = drop (k - length (drop h ?b)) ?R"
      using ws_pull_steady [OF rl(2) a] by blast
    let ?c = "c1\<lparr> conn_buf := take (request_len c) (conn_buf c) \<rparr>"
    note f = io_only_fields [OF c1(2)]
    have "ws_payload c h k = (Some (drop h ?b @ take (k - length (drop h ?b)) ?R), ?c)"
      unfolding ws_payload_def Let_def c1(1) using True by simp
    moreover have "drop h ?b @ take (k - length (drop h ?b)) ?R = take k (drop h (ws_stream c))"
      using True h a(1) by (simp add: ws_stream_def)
    moreover have "ws_open ?c" using ws_open_io [OF o c1(2,3)] f rl by (simp add: ws_open_def)
    moreover have "ws_stream ?c = drop (h + k) (ws_stream c)"
    proof -
      have "k - length (drop h ?b) = h + k - length ?b" using h unfolding length_drop by linarith
      moreover have "drop (h + k) ?b = []" using True by simp
      moreover have "ws_stream ?c = recv_data (recv_script c1)" using f rl by (simp add: ws_stream_def)
      ultimately show ?thesis unfolding c1(4) ws_stream_def drop_append by simp
    qed
    ultimately show ?thesis using that f by simp
  next
    case False
    let ?c = "c\<lparr> conn_buf := take (request_len c) (conn_buf c) @ drop (k + h) ?b \<rparr>"
    have "ws_payload c h k = (Some (take k (drop h ?b)), ?c)"
      unfolding ws_payload_def Let_def using False by simp
    moreover have "take k (drop h ?b) = take k (drop h (ws_stream c))" using False by (simp add: ws_stream_def)
    moreover have "ws_open ?c" using o by (simp add: ws_open_def)
    moreover have "ws_stream ?c = drop (h + k) (ws_stream c)" using False rl by (simp add: ws_stream_def add.commute)
    ultimately show ?thesis using that [of ?c] by simp
  qed
qed


definition ws_frame :: "nat \<times> string \<times> 32 word \<Rightarrow> string" where
  "ws_frame m = (case m of (op, data, k) \<Rightarrow>
     ws_frame_header op (length data) k @ (if k = 0 then data else mask_bytes 0 data k))"

text \<open>One frame at the front of the stream: it is dispatched with its opcode and its data.\<close>

lemma ws_loop_frame:
  assumes "ws_open c" "ws_stream c = ws_frame (op, data, k) @ r" "length data \<le> 2147418112" "op < 16"
  shows "\<exists>c1 pc1. ws_open c1 \<and> ws_stream c1 = r \<and> ws_loop h pp c pc d =
     (case ws_dispatch h pp c1 pc1 d (128 + op) data of
        Leave c2 d' \<Rightarrow> (c2, d') | Go_On c2 pc2 d' \<Rightarrow> ws_loop h pp c2 pc2 d')"
  using assms(1,2)
proof (induction "length (recv_data (recv_script c))" arbitrary: c pc rule: less_induct)
  case less
  let ?H = "ws_frame_header op (length data) k" and ?b = "drop (request_len c) (conn_buf c)"
  let ?D = "if k = 0 then data else mask_bytes 0 data k"
  have op: "\<not> stop_flag c" "\<not> must_close c" "\<not> length (conn_buf c) < request_len c"
    using less.prems(1) by (auto simp: ws_open_def steady_def)
  have st: "?b @ recv_data (recv_script c) = ?H @ ?D @ r"
    using less.prems(2) by (simp add: ws_stream_def ws_frame_def)
  show ?case
  proof (cases "length ?H \<le> length ?b")
    case True
    then obtain x where x: "?b = ?H @ x" using st by (metis append_eq_append_conv_if append_take_drop_id)
    have ph: "ws_parse_header ?b = Header (length ?H) (key_len k) (length data)"
      unfolding x by (rule ws_parse_header_written [OF assms(3)])
    have le: "length ?H + length data \<le> length (ws_stream c)" using less.prems(2) by (simp add: ws_frame_def)
    obtain c1 where c1: "ws_payload c (length ?H) (length data) = (Some (take (length data) (drop (length ?H) (ws_stream c))), c1)"
      "ws_open c1" "ws_stream c1 = drop (length ?H + length data) (ws_stream c)"
      by (rule ws_payload_steady [OF less.prems(1) True le])
    have pay: "take (length data) (drop (length ?H) (ws_stream c)) = ?D" "ws_stream c1 = r"
      using less.prems(2) c1(3) by (simp_all add: ws_frame_def)
    have b0: "code (?b ! 0) = 128 + op"
      using ws_frame_header_op [OF assms(4), of "length data" k] ws_frame_header_length [of op "length data" k]
      unfolding x by (simp add: nth_append)
    have un: "(if key_len k > 0 then ws_unmask (drop (length ?H - key_len k) (take (length ?H) ?b)) ?D else ?D) = data"
      using ws_frame_header_key [of k op "length data"] mask_twice [of k False data]
      unfolding x by (simp add: key_len_def mask_data_bytes)
    have "ws_loop h pp c pc d = (case ws_dispatch h pp c1 pc d (128 + op) data of
        Leave c2 d' \<Rightarrow> (c2, d') | Go_On c2 pc2 d' \<Rightarrow> ws_loop h pp c2 pc2 d')"
      unfolding ws_loop.simps [of h pp c] Let_def
      by (simp only: op True ph c1(1) pay(1) b0 un if_False if_True ws_head.case prod.case option.case simp_thms)
    then show ?thesis using c1(2) pay(2) by blast
  next
    case False
    then have b: "?b = take (length ?b) ?H" using st by (metis append_eq_append_conv_if append_take_drop_id nat_le_linear take_all_iff)
    have inc: "ws_parse_header ?b = Incomplete \<or> (\<exists>h m n. ws_parse_header ?b = Header h m n \<and> length ?b < h)"
      using ws_parse_header_partial [OF assms(3), of "length ?b" op k] False unfolding b [symmetric] by simp
    have unf: "ws_loop h pp c pc d = ws_more h pp c pc d"
      using inc op by (subst ws_loop.simps) (auto simp: Let_def)
    have "length ?H \<le> 14" using ws_frame_header_length [of op "length data" k] by (auto simp: key_len_def)
    then have room: "length (conn_buf c) < buf_size c" using False less.prems(1) by (auto simp: ws_open_def)
    have ne: "recv_data (recv_script c) \<noteq> []"
    proof
      assume "recv_data (recv_script c) = []"
      then have "length ?H \<le> length ?b" using arg_cong [OF st, of length] by simp
      with False show False by simp
    qed
    obtain c1 where c1: "ws_more h pp c pc d = ws_loop h pp c1 0 d" "ws_open c1" "ws_stream c1 = ws_stream c"
      "length (recv_data (recv_script c1)) < length (recv_data (recv_script c))"
      by (rule ws_more_step [OF less.prems(1) room ne])
    show ?thesis unfolding unf c1(1) by (rule less.hyps [OF c1(4,2)]) (use c1(3) less.prems(2) in simp)
  qed
qed


text \<open>The messages a peer sends before it closes: no close frame, an opcode of four bits.\<close>

definition ws_message :: "nat \<times> string \<times> 32 word \<Rightarrow> bool" where
  "ws_message m \<longleftrightarrow> (case m of (op, data, k) \<Rightarrow> op < 16 \<and> op \<noteq> 8 \<and> length data \<le> 2147418112)"

text \<open>A data handler that only computes on its callback data.\<close>

definition collecting :: "(nat \<Rightarrow> string \<Rightarrow> 'd \<Rightarrow> 'd) \<Rightarrow> 'd ws_handler" where
  "collecting f = (\<lambda>mop data d. (True, [], f mop data d))"

lemma ws_dispatch_collecting:
  assumes "op < 16"
  shows "ws_dispatch (Some (collecting f)) False c pc d (128 + op) data =
    (if op = 8 then Leave c (f (128 + op) data d) else Go_On c pc (f (128 + op) data d))"
proof -
  have "(128 + op) mod 16 = op mod 16" using mod_mult_self4 [of 16 8 op] by simp
  then have "(128 + op) AND 15 = op" using assms by (simp add: and_low_bits)
  then show ?thesis by (simp add: ws_dispatch_def collecting_def ws_write_all_def)
qed

lemma ws_loop_messages:
  "ws_open c \<Longrightarrow> \<forall>m \<in> set ms. ws_message m \<Longrightarrow> length cd \<le> 2147418112 \<Longrightarrow>
     ws_stream c = concat (map ws_frame ms) @ ws_frame (8, cd, k) @ r \<Longrightarrow>
     \<exists>c'. ws_loop (Some (collecting f)) False c pc d =
            (c', f 136 cd (fold (\<lambda>(op, data, _). f (128 + op) data) ms d)) \<and> ws_open c' \<and> ws_stream c' = r"
proof (induction ms arbitrary: c pc d)
  case Nil
  obtain c1 pc1 where "ws_open c1" "ws_stream c1 = r"
    "ws_loop (Some (collecting f)) False c pc d = (case ws_dispatch (Some (collecting f)) False c1 pc1 d (128 + 8) cd of
        Leave c2 d' \<Rightarrow> (c2, d') | Go_On c2 pc2 d' \<Rightarrow> ws_loop (Some (collecting f)) False c2 pc2 d')"
    using ws_loop_frame [OF Nil.prems(1) _ Nil.prems(3), where op = 8 and k = k and r = r and h = "Some (collecting f)" and pp = False and pc = pc and d = d]
      Nil.prems(4) by auto
  then show ?case using ws_dispatch_collecting [of 8 f c1 pc1 d cd] by simp
next
  case (Cons m ms)
  obtain op data key where m: "m = (op, data, key)" by (cases m)
  have ok: "op < 16" "op \<noteq> 8" "length data \<le> 2147418112" using Cons.prems(2) by (simp_all add: m ws_message_def)
  obtain c1 pc1 where c1: "ws_open c1" "ws_stream c1 = concat (map ws_frame ms) @ ws_frame (8, cd, k) @ r"
    "ws_loop (Some (collecting f)) False c pc d = (case ws_dispatch (Some (collecting f)) False c1 pc1 d (128 + op) data of
        Leave c2 d' \<Rightarrow> (c2, d') | Go_On c2 pc2 d' \<Rightarrow> ws_loop (Some (collecting f)) False c2 pc2 d')"
    using ws_loop_frame [OF Cons.prems(1) _ ok(3,1), where k = key and r = "concat (map ws_frame ms) @ ws_frame (8, cd, k) @ r"
        and h = "Some (collecting f)" and pp = False and pc = pc and d = d] Cons.prems(4)
    by (auto simp: m)
  have "ws_loop (Some (collecting f)) False c pc d = ws_loop (Some (collecting f)) False c1 pc1 (f (128 + op) data d)"
    using c1(3) ws_dispatch_collecting [OF ok(1), of f c1 pc1 d data] ok(2) by simp
  then show ?case
    using Cons.IH [OF c1(1) _ Cons.prems(3) c1(2), of pc1 "f (128 + op) data d"] Cons.prems(2) by (simp add: m)
qed

text \<open>Sending: a key of 0 stands for an unmasked frame.\<close>

definition ws_send :: "nat \<times> string \<times> 32 word \<Rightarrow> mg_connection \<Rightarrow> mg_connection" where
  "ws_send m conn = (case m of (op, data, k) \<Rightarrow>
     snd (if k = 0 then mg_websocket_write conn op data else mg_websocket_client_write True k conn op data))"

lemma accepts_less: "accepts c n \<Longrightarrow> m \<le> n \<Longrightarrow> accepts c m"
  by (auto simp: accepts_def)

lemma mg_websocket_write_exec_accepted:
  assumes "accepts c (Suc (Suc n))" "int (length data) \<le> INT_MAX"
  obtains r c' where "mg_websocket_write_exec c op data k = (r, c')" "0 < r" "accepts c' n"
    "wire c' = wire c @ ws_frame_header op (length data) k @ data"
proof -
  let ?H = "ws_frame_header op (length data) k"
  have H: "?H \<noteq> []" "int (length ?H) \<le> INT_MAX"
    using ws_frame_header_length [of op "length data" k] by (auto simp: key_len_def INT_MAX_def ws_frame_header_def Let_def)
  obtain c1 where c1: "mg_write c ?H = (int (length ?H), c1)" "accepts c1 (Suc n)" "wire c1 = wire c @ ?H"
    by (rule mg_write_accepted [OF assms(1) H])
  show ?thesis
  proof (cases "data = []")
    case True
    then show ?thesis using that [of "int (length ?H)" c1] c1 H accepts_less [OF c1(2)]
      by (simp add: mg_websocket_write_exec_def)
  next
    case False
    obtain c2 where c2: "mg_write c1 data = (int (length data), c2)" "accepts c2 n" "wire c2 = wire c1 @ data"
      by (rule mg_write_accepted [OF c1(2) False assms(2)])
    then show ?thesis using that [of "int (length data)" c2] c1 False
      by (simp add: mg_websocket_write_exec_def)
  qed
qed

lemma ws_send_accepted:
  assumes "accepts c (Suc (Suc n))" "length (fst (snd m)) \<le> 2147418112"
  shows "accepts (ws_send m c) n \<and> wire (ws_send m c) = wire c @ ws_frame m"
proof -
  obtain op data k where m: "m = (op, data, k)" by (cases m)
  let ?D = "if k = 0 then data else mask_bytes 0 data k"
  have "int (length ?D) \<le> INT_MAX" using assms(2) by (simp add: m INT_MAX_def)
  then obtain r c' where c': "mg_websocket_write_exec c op ?D k = (r, c')" "accepts c' n"
    "wire c' = wire c @ ws_frame_header op (length ?D) k @ ?D"
    using mg_websocket_write_exec_accepted [OF assms(1)] by metis
  then have "ws_send m c = c'"
    by (auto simp: ws_send_def m mg_websocket_write_def mg_websocket_client_write_def mask_data_bytes)
  then show ?thesis using c' by (simp add: ws_frame_def m)
qed

lemma ws_send_all:
  "accepts c (2 * length ms) \<Longrightarrow> \<forall>m \<in> set ms. length (fst (snd m)) \<le> 2147418112 \<Longrightarrow>
     wire (fold ws_send ms c) = wire c @ concat (map ws_frame ms)"
proof (induction ms arbitrary: c)
  case (Cons m ms)
  have "accepts (ws_send m c) (2 * length ms) \<and> wire (ws_send m c) = wire c @ ws_frame m"
    by (rule ws_send_accepted) (use Cons.prems in simp_all)
  then show ?case using Cons.IH [of "ws_send m c"] Cons.prems(2) by simp
qed simp

section \<open>Properties\<close>

text \<open>
  C26: WebSocket messages arrive as they were sent. One side sends any messages, masked by any
  keys or not, and then a close frame; the other side gets these bytes in any pieces, partly
  in its buffer already. Its data handler is called once for each message, in order, with the
  opcode and the unmasked data, then for the close frame, and the loop ends there: what follows
  on the connection is not touched.
\<close>

theorem websocket_transfer:
  assumes sender: "accepts s (2 * length (ms @ [(8, cd, k)]))" "wire s = []"
    and messages: "\<forall>m \<in> set ms. ws_message m" "length cd \<le> 2147418112"
    and receiver: "ws_open conn" "ws_stream conn = wire (fold ws_send (ms @ [(8, cd, k)]) s) @ r"
      "conf conn ENABLE_WEBSOCKET_PING_PONG = Some ''no''"
  shows "\<exists>conn'. read_websocket (Some (collecting f)) conn d =
    (conn', f 136 cd (fold (\<lambda>(op, data, _). f (128 + op) data) ms d)) \<and> ws_stream conn' = r"
proof -
  have "\<forall>m \<in> set (ms @ [(8, cd, k)]). length (fst (snd m)) \<le> 2147418112"
    using messages by (auto simp: ws_message_def)
  from ws_send_all [OF sender(1) this] receiver(2) sender(2)
  have st: "ws_stream conn = concat (map ws_frame ms) @ ws_frame (8, cd, k) @ r" by simp
  have "mg_strcasecmp ''no'' ''yes'' \<noteq> 0" by (simp add: mg_strcasecmp.simps Let_def lowercase_def tolower_def ctype_simps)
  then show ?thesis
    using ws_loop_messages [OF receiver(1) messages st, of f 0 d] receiver(3) by (auto simp: read_websocket_def)
qed

definition ws_example :: mg_connection where
  "ws_example = test_connection\<lparr> recv_script := [Recv (ws_frame (1, ''hi'', 77)), Recv (ws_frame (8, [], 0) @ ''rest'')] \<rparr>"

definition ws_sender :: mg_connection where
  "ws_sender = test_connection\<lparr> send_script := replicate 4 (Send_Bytes 2147483647) \<rparr>"

lemma conf_test_connection [simp]: "conf (test_connection\<lparr> recv_script := x \<rparr>) opt = default_config opt"
  by (simp add: conf_def test_connection_def)

lemma default_values:
  "default_config MAX_REQUEST_SIZE = Some ''16384''" "default_config ENABLE_WEBSOCKET_PING_PONG = Some ''no''"
  by (simp_all add: default_config_def config_options_def config_options_server_def)

lemma atoi_16384: "atoi ''16384'' = 16384"
  by (simp add: atoi_def strtol_def scan_number_def digit_of_def ctype_simps Let_def clamp_def to_signed_def)

lemma ws_frame_not_empty: "ws_frame m \<noteq> []"
  by (cases m) (simp add: ws_frame_def ws_frame_header_def Let_def)

lemma ws_example_open: "ws_open ws_example"
  using ws_frame_not_empty
  by (simp add: ws_open_def steady_def ws_example_def buf_size_def default_values atoi_16384) (simp add: test_connection_def)

lemma websocket_transfer_witness:
  "\<exists>c. read_websocket (Some (collecting (\<lambda>mop data log. log @ [(mop, data)]))) ws_example [] =
     (c, [(129, ''hi''), (136, [])]) \<and> ws_stream c = ''rest''"
proof -
  let ?ms = "[(1, ''hi'', 77)] @ [(8, [], 0)]"
  have s: "accepts ws_sender (2 * length ?ms)" "wire ws_sender = []"
    by (simp_all add: accepts_def ws_sender_def test_connection_def INT_MAX_def)
  have "wire (fold ws_send ?ms ws_sender) = concat (map ws_frame ?ms)"
    using ws_send_all [OF s(1)] s(2) by simp
  then have "ws_stream ws_example = wire (fold ws_send ?ms ws_sender) @ ''rest''"
    by (simp add: ws_stream_def ws_example_def) (simp add: test_connection_def)
  then show ?thesis
    using websocket_transfer [OF s _ _ ws_example_open, of "''rest''" "\<lambda>mop data log. log @ [(mop, data)]" "[]"]
    by (simp add: ws_message_def ws_example_def default_values)
qed

text \<open>
  Masking by whole words and by single bytes is the same, so the alignment of the data does
  not matter, and unmasking with the bytes of the key gives the data back.
\<close>

lemma mask_data_aligned:
  "mask_data True data masking_key = mask_data False data masking_key \<and>
   ws_unmask (store32 masking_key) (mask_data aligned data masking_key) = data"
  by (simp add: mask_twice) (simp add: mask_data_bytes)

text \<open>A connection with nothing but an incomplete frame in its queue.\<close>

definition ws_quiet :: "mg_connection \<Rightarrow> bool" where
  "ws_quiet c \<longleftrightarrow> \<not> stop_flag c \<and> \<not> must_close c \<and> request_len c \<le> length (conn_buf c) \<and>
     length (conn_buf c) < buf_size c \<and> ws_parse_header (drop (request_len c) (conn_buf c)) = Incomplete"

abbreviation ping_frame :: string where "ping_frame \<equiv> ws_frame_header 9 0 0"

lemma ws_timeout:
  assumes "ws_quiet c" "recv_script c = Poll_Timeout t # es"
  shows "ws_loop h pp c k d = (case ws_idle pp (c\<lparr> recv_script := es \<rparr>) k of
     (False, c2, _) \<Rightarrow> (c2, d) | (True, c2, k') \<Rightarrow> ws_loop h pp c2 k' d)"
proof -
  have "pull_step c (buf_size c - length (conn_buf c)) = (-1, [], c\<lparr> recv_script := es \<rparr>)"
    using assms by (simp add: pull_step_def ws_quiet_def)
  then have "ws_more h pp c k d = (case ws_idle pp (c\<lparr> recv_script := es \<rparr>) k of
     (False, c2, _) \<Rightarrow> (c2, d) | (True, c2, k') \<Rightarrow> ws_loop h pp c2 k' d)"
    by (simp add: ws_more.simps)
  then show ?thesis using assms(1) by (subst ws_loop.simps) (simp add: ws_quiet_def Let_def)
qed

lemma ws_pings:
  "ws_quiet c \<Longrightarrow> accepts c (n + m) \<Longrightarrow> recv_script c = replicate (Suc n) (Poll_Timeout t) @ es \<Longrightarrow> k + n = 6 \<Longrightarrow>
     \<exists>c'. ws_loop h True c k d = (c', d) \<and> wire c' = wire c @ concat (replicate n ping_frame) \<and> recv_script c' = es"
proof (induction n arbitrary: c k)
  case 0
  have "ws_loop h True c k d = (case ws_idle True (c\<lparr> recv_script := es \<rparr>) k of
     (False, c2, _) \<Rightarrow> (c2, d) | (True, c2, k') \<Rightarrow> ws_loop h True c2 k' d)"
    by (rule ws_timeout [OF 0(1)]) (use 0 in simp)
  then show ?case using 0 by (simp add: ws_idle_def MG_MAX_UNANSWERED_PING_def ws_quiet_def)
next
  case (Suc n)
  let ?es = "replicate (Suc n) (Poll_Timeout t) @ es"
  let ?c = "c\<lparr> recv_script := ?es \<rparr>"
  have unf: "ws_loop h True c k d = (case ws_idle True ?c k of
     (False, c2, _) \<Rightarrow> (c2, d) | (True, c2, k') \<Rightarrow> ws_loop h True c2 k' d)"
    by (rule ws_timeout [OF Suc.prems(1), of t]) (use Suc.prems(3) in simp)
  have a: "accepts ?c (Suc (n + m))" using Suc.prems(2) by (simp add: accepts_def)
  have H: "ping_frame \<noteq> []" "int (length ping_frame) \<le> INT_MAX"
    by (simp_all add: ws_frame_header_def Let_def INT_MAX_def)
  obtain c1 where c1: "mg_write ?c ping_frame = (int (length ping_frame), c1)" "accepts c1 (n + m)"
    "wire c1 = wire ?c @ ping_frame" "io_only ?c c1"
    by (rule mg_write_accepted [OF a H])
  have keep: "recv_script c1 = ?es" using mg_write_keeps [OF c1(1)] by (simp add: keeps_def)
  have "mg_websocket_write ?c 9 [] = (int (length ping_frame), c1)"
    using c1(1) by (simp add: mg_websocket_write_def mg_websocket_write_exec_def)
  then have idle: "ws_idle True ?c k = (True, c1, Suc k)"
    using Suc.prems H(1) by (simp add: ws_idle_def MG_MAX_UNANSWERED_PING_def ws_quiet_def)
  note f = io_only_fields [OF c1(4)]
  have "\<not> stop_flag c1" using c1(2) by (simp add: accepts_def)
  then have "ws_quiet c1" using Suc.prems(1) f buf_size_io [OF c1(4)] by (simp add: ws_quiet_def buf_size_def conf_def)
  from Suc.IH [OF this c1(2) keep, of "Suc k"] Suc.prems(4) unf idle c1(3)
  show ?case by auto
qed

text \<open>
  C27: an unresponsive client is dropped. With the pings enabled, a client that stays silent for
  seven timeouts gets exactly six pings, and then the loop ends, whatever might come later.
\<close>

theorem silent_client_dropped:
  assumes "ws_quiet conn" "accepts conn 6" "conf conn ENABLE_WEBSOCKET_PING_PONG = Some ''yes''"
    and "recv_script conn = replicate 7 (Poll_Timeout t) @ later"
  shows "\<exists>conn'. read_websocket handler conn d = (conn', d) \<and>
    wire conn' = wire conn @ concat (replicate 6 ping_frame) \<and> recv_script conn' = later"
proof -
  have "mg_strcasecmp ''yes'' ''yes'' = 0" by (simp add: mg_strcasecmp.simps Let_def lowercase_def)
  moreover have "replicate 7 (Poll_Timeout t) = replicate (Suc 6) (Poll_Timeout t)" by (simp del: replicate_Suc)
  ultimately show ?thesis using ws_pings [of conn 6 0 t later 0 handler d] assms by (simp add: read_websocket_def)
qed

definition quiet_example :: mg_connection where
  "quiet_example = test_connection\<lparr> dom_ctx := Some (default_config(ENABLE_WEBSOCKET_PING_PONG := Some ''yes'')),
     send_script := replicate 6 (Send_Bytes 2147483647), recv_script := replicate 7 (Poll_Timeout 1) @ [Recv ''late''] \<rparr>"

lemma silent_client_dropped_witness:
  "\<exists>c. read_websocket None quiet_example () = (c, ()) \<and> wire c = concat (replicate 6 ping_frame) \<and> recv_script c = [Recv ''late'']"
proof -
  have c: "conf quiet_example opt = (default_config(ENABLE_WEBSOCKET_PING_PONG := Some ''yes'')) opt" for opt
    by (simp add: conf_def quiet_example_def)
  have "ws_quiet quiet_example"
    by (simp add: ws_quiet_def buf_size_def c default_values atoi_16384)
       (simp add: quiet_example_def test_connection_def ws_parse_header_def)
  moreover have "accepts quiet_example 6" by (simp add: accepts_def quiet_example_def test_connection_def INT_MAX_def)
  moreover have "recv_script quiet_example = replicate 7 (Poll_Timeout 1) @ [Recv ''late'']" "wire quiet_example = []"
    by (simp_all add: quiet_example_def test_connection_def)
  ultimately show ?thesis
    using silent_client_dropped [of quiet_example 1 "[Recv ''late'']" None "()"] c by simp
qed

end
