(* ===== verification/Acl.thy ===== *)
theory Acl
  imports Option_List C_Numbers
begin

text \<open>
  The access control list (\<open>src/civetweb.c\<close>, \<open>parse_match_net\<close>, \<open>check_acl\<close> and
  \<open>set_acl_option\<close>) of a build without IPv6. An address of the socket layer is an IPv4 address
  in host byte order or one of another family.
\<close>

section \<open>Reading an address\<close>

datatype usa = AF_INET "32 word" | AF_OTHER

text \<open>The conversion \<open>%u\<close> and a literal character of \<open>sscanf\<close>.\<close>

definition scan_u :: "string \<Rightarrow> (nat \<times> string) option" where
  "scan_u s = (case scan_number 10 s of
       None \<Rightarrow> None
     | Some _ \<Rightarrow> (case strtoul 10 s of (v, rest) \<Rightarrow> Some (v mod 2 ^ 32, rest)))"

definition scan_char :: "char \<Rightarrow> string \<Rightarrow> string option" where
  "scan_char c s = (case s of [] \<Rightarrow> None | x # rest \<Rightarrow> if x = c then Some rest else None)"

text \<open>\<open>%u.%u.%u.%u\<close>; the result is the four numbers and the rest.\<close>

definition scan_quad :: "string \<Rightarrow> ((nat \<times> nat \<times> nat \<times> nat) \<times> string) option" where
  "scan_quad s0 =
     Option.bind (scan_u s0) (\<lambda>(a, s1). Option.bind (scan_char (CHR ''.'') s1) (\<lambda>s2.
     Option.bind (scan_u s2) (\<lambda>(b, s3). Option.bind (scan_char (CHR ''.'') s3) (\<lambda>s4.
     Option.bind (scan_u s4) (\<lambda>(c, s5). Option.bind (scan_char (CHR ''.'') s5) (\<lambda>s6.
     Option.bind (scan_u s6) (\<lambda>(d, s7). Some ((a, b, c, d), s7))))))))"

text \<open>The two formats: the numbers, the prefix length and the number of characters read.\<close>

definition scan_net :: "string \<Rightarrow> (nat \<times> nat \<times> nat \<times> nat) \<times> nat \<times> nat" where
  "scan_net s =
     (case scan_quad s of
        None \<Rightarrow> ((0, 0, 0, 0), 32, 0)
      | Some (q, rest) \<Rightarrow>
          (case Option.bind (scan_char (CHR ''/'') rest) scan_u of
             Some (slash, rest') \<Rightarrow> (q, slash, length s - length rest')
           | None \<Rightarrow> (q, 32, length s - length rest)))"

definition net_word :: "nat \<times> nat \<times> nat \<times> nat \<Rightarrow> 32 word" where
  "net_word q = (case q of (a, b, c, d) \<Rightarrow>
     push_bit 24 (of_nat a) OR push_bit 16 (of_nat b) OR push_bit 8 (of_nat c) OR of_nat d)"

definition net_mask :: "nat \<Rightarrow> 32 word" where
  "net_mask slash = (if slash \<noteq> 0 then push_bit (32 - slash) (- 1) else 0)"

text \<open>
  The result is 1 for a match, 0 for none and -1 for a malformed entry. The entry is delimited by
  white space, a comma or the end, which no conversion can pass.
\<close>

definition parse_match_net :: "string \<Rightarrow> usa \<Rightarrow> int" where
  "parse_match_net vec sa =
     (case scan_net vec of (q, slash, n) \<Rightarrow>
        if n > 0 \<and> n = length vec
        then (case q of (a, b, c, d) \<Rightarrow>
                if a < 256 \<and> b < 256 \<and> c < 256 \<and> d < 256 \<and> slash < 33
                then (case sa of
                        AF_INET ip \<Rightarrow> if ip AND net_mask slash = net_word q then 1 else 0
                      | AF_OTHER \<Rightarrow> 0)
                else -1)
        else -1)"

section \<open>The list\<close>

text \<open>The loop: \<open>None\<close> is the return of -1 for a malformed entry.\<close>

function acl_loop :: "string \<Rightarrow> usa \<Rightarrow> char \<Rightarrow> char option" where
  "acl_loop list sa allowed =
     (case next_value list of
        None \<Rightarrow> Some allowed
      | Some (vec, rest) \<Rightarrow>
          let flag = hd0 vec;
              matched = (if vec \<noteq> [] \<and> (flag = CHR ''+'' \<or> flag = CHR ''-'') then parse_match_net (tl vec) sa else -1)
          in if matched < 0 then None
             else acl_loop rest sa (if matched \<noteq> 0 then flag else allowed))"
  by pat_completeness auto
termination
  by (relation "measure (\<lambda>(list, sa, allowed). length list)") (auto dest: next_value_rest)

declare acl_loop.simps [simp del]

definition check_acl :: "string option \<Rightarrow> usa \<Rightarrow> int" where
  "check_acl acl sa =
     (case acl of
        None \<Rightarrow> 1
      | Some list \<Rightarrow>
          (case acl_loop list sa (CHR ''-'') of
             None \<Rightarrow> -1
           | Some allowed \<Rightarrow> if allowed = CHR ''+'' then 1 else 0))"

definition set_acl_option :: "string option \<Rightarrow> bool" where
  "set_acl_option acl = (check_acl acl (AF_INET 0) \<noteq> -1)"

section \<open>The loop as a fold over the entries\<close>

text \<open>A rule: its sign, its network and the length of the prefix.\<close>

type_synonym acl_rule = "bool \<times> 32 word \<times> nat"

definition rule_matches :: "32 word \<Rightarrow> acl_rule \<Rightarrow> bool" where
  "rule_matches ip r = (case r of (_, net, m) \<Rightarrow> drop_bit (32 - m) ip = drop_bit (32 - m) net)"

text \<open>A network is valid if the bits behind its prefix are 0.\<close>

definition rule_wf :: "acl_rule \<Rightarrow> bool" where
  "rule_wf r = (case r of (_, net, m) \<Rightarrow> m \<le> 32 \<and> take_bit (32 - m) net = 0)"

definition quad :: "32 word \<Rightarrow> nat \<times> nat \<times> nat \<times> nat" where
  "quad w = (unat (drop_bit 24 w), unat (take_bit 8 (drop_bit 16 w)), unat (take_bit 8 (drop_bit 8 w)), unat (take_bit 8 w))"

definition quad_text :: "nat \<times> nat \<times> nat \<times> nat \<Rightarrow> string" where
  "quad_text q = (case q of (a, b, c, d) \<Rightarrow>
     show_nat a @ ''.'' @ show_nat b @ ''.'' @ show_nat c @ ''.'' @ show_nat d)"

definition rule_text :: "acl_rule \<Rightarrow> string" where
  "rule_text r = (case r of (allow, net, m) \<Rightarrow>
     (if allow then CHR ''+'' else CHR ''-'') # quad_text (quad net) @ ''/'' @ show_nat m)"

fun acl_text :: "acl_rule list \<Rightarrow> string" where
  "acl_text [] = []"
| "acl_text [r] = rule_text r"
| "acl_text (r # rs) = rule_text r @ '','' @ acl_text rs"

lemma net_word_quad: "net_word (quad w) = w"
proof -
  have "push_bit 24 (drop_bit 24 w) OR push_bit 16 (take_bit 8 (drop_bit 16 w)) OR
      push_bit 8 (take_bit 8 (drop_bit 8 w)) OR take_bit 8 w = w"
  proof (rule bit_word_eqI)
    fix n :: nat
    assume "n < LENGTH(32)"
    then consider "n < 8" | "8 \<le> n" "n < 16" | "16 \<le> n" "n < 24" | "24 \<le> n" "n < 32" by fastforce
    then show "bit (push_bit 24 (drop_bit 24 w) OR push_bit 16 (take_bit 8 (drop_bit 16 w)) OR
      push_bit 8 (take_bit 8 (drop_bit 8 w)) OR take_bit 8 w) n = bit w n"
      by cases (auto simp: bit_simps)
  qed
  then show ?thesis by (simp add: net_word_def quad_def)
qed

lemma quad_bounds: "(a, b, c, d) = quad w \<Longrightarrow> a < 256 \<and> b < 256 \<and> c < 256 \<and> d < 256"
proof -
  have t: "unat (take_bit 8 x) < 256" for x :: "32 word"
    unfolding unsigned_take_bit_eq by (simp add: take_bit_eq_mod)
  have "unat w < 2 ^ 32" using unsigned_less [of w] by simp
  then have "unat (drop_bit 24 w) < 256"
    by (subst unsigned_drop_bit_eq) (simp add: take_bit_eq_mod drop_bit_eq_div less_mult_imp_div_less)
  then show "(a, b, c, d) = quad w \<Longrightarrow> ?thesis" using t by (simp add: quad_def)
qed

lemma mask_eq_iff:
  assumes m: "m \<le> 32" and n: "take_bit (32 - m) net = 0"
  shows "ip AND net_mask m = net \<longleftrightarrow> drop_bit (32 - m) ip = drop_bit (32 - m) (net :: 32 word)"
proof (cases "m = 0")
  case True
  have "take_bit 32 net = net" by (rule bit_word_eqI) (simp add: bit_simps)
  then have "net = 0" using n True by simp
  moreover have "drop_bit 32 ip = 0" by (rule bit_word_eqI) (simp add: bit_simps)
  ultimately show ?thesis using True by (simp add: net_mask_def)
next
  case False
  let ?n = "32 - m"
  have mask: "ip AND net_mask m = push_bit ?n (drop_bit ?n ip)"
    using False by (intro bit_word_eqI) (auto simp: net_mask_def bit_simps)
  have net: "push_bit ?n (drop_bit ?n net) = net"
    using bits_ident [of ?n net] n by simp
  have "drop_bit ?n (push_bit ?n (drop_bit ?n w)) = drop_bit ?n w" for w :: "32 word"
    by (rule bit_word_eqI) (auto simp: bit_simps dest: bit_imp_le_length)
  with mask net show ?thesis by metis
qed

lemma scan_u_show: "n < 2 ^ 32 \<Longrightarrow> nondigit_start 10 r \<Longrightarrow> tolower (hd0 r) \<noteq> CHR ''x'' \<Longrightarrow> scan_u (show_nat n @ r) = Some (n, r)"
  using scan_number_show [of 10 r n] strtoul_show [of 10 r n] by (simp add: scan_u_def show_nat_def)

lemma delimiters:
  "nondigit_start 10 (CHR ''.'' # r)" "tolower (hd0 (CHR ''.'' # r)) \<noteq> CHR ''x''"
  "nondigit_start 10 (CHR ''/'' # r)" "tolower (hd0 (CHR ''/'' # r)) \<noteq> CHR ''x''"
  "nondigit_start 10 []" "tolower (hd0 []) \<noteq> CHR ''x''"
  by (simp_all add: nondigit_start_def digit_of_def ctype_simps tolower_def)

lemma scan_quad_text:
  assumes q: "q = (a, b, c, d)" "a < 256" "b < 256" "c < 256" "d < 256"
    and r: "nondigit_start 10 r" "tolower (hd0 r) \<noteq> CHR ''x''"
  shows "scan_quad (quad_text q @ r) = Some (q, r)"
proof -
  have s: "scan_u (show_nat n @ CHR ''.'' # x) = Some (n, CHR ''.'' # x)" if "n < 256" for n x
    using scan_u_show [OF _ delimiters(1,2)] that by simp
  have l: "scan_u (show_nat d @ r) = Some (d, r)" using scan_u_show [OF _ r] q(5) by simp
  show ?thesis using q l by (simp add: scan_quad_def quad_text_def s scan_char_def)
qed

lemma parse_match_net_rule:
  assumes "rule_wf (allow, net, m)"
  shows "parse_match_net (quad_text (quad net) @ ''/'' @ show_nat m) (AF_INET ip) = (if rule_matches ip (allow, net, m) then 1 else 0)"
proof -
  obtain a b c d where q: "quad net = (a, b, c, d)" by (metis prod_cases4)
  have bd: "a < 256" "b < 256" "c < 256" "d < 256" using quad_bounds [of a b c d net] q by auto
  have m: "m \<le> 32" "take_bit (32 - m) net = 0" using assms by (auto simp: rule_wf_def)
  have s1: "scan_quad (quad_text (quad net) @ CHR ''/'' # show_nat m) = Some (quad net, CHR ''/'' # show_nat m)"
    by (rule scan_quad_text [OF q bd delimiters(3,4)])
  have s2: "scan_u (show_nat m) = Some (m, [])" using scan_u_show [OF _ delimiters(5,6), of m] m(1) by simp
  have "scan_net (quad_text (quad net) @ ''/'' @ show_nat m) = (quad net, m, length (quad_text (quad net) @ ''/'' @ show_nat m))"
    using s1 s2 by (simp add: scan_net_def scan_char_def)
  moreover have "0 < length (quad_text (quad net) @ ''/'' @ show_nat m)" by simp
  ultimately show ?thesis
    using mask_eq_iff [OF m, of ip] net_word_quad [of net] bd m(1) q
    by (simp add: parse_match_net_def rule_matches_def)
qed


section \<open>The whole list\<close>

text \<open>The characters of a rule: no white space and no comma inside.\<close>

lemma show_nat_chars: "x \<in> set (show_nat n) \<Longrightarrow> x \<noteq> CHR '','' \<and> \<not> is_lws x"
proof -
  assume "x \<in> set (show_nat n)"
  then obtain d where d: "d < 10" "x = hex_digit d"
    using show_base_digits [of 10 x n] by (auto simp: show_nat_def)
  have "\<forall>d \<in> {0..<10}. hex_digit d \<noteq> CHR '','' \<and> \<not> is_lws (hex_digit d)"
    unfolding atLeastLessThan_upt by (simp add: hex_digit_def upt_rec is_lws_def)
  with d show ?thesis by auto
qed

lemma rule_text_chars: "x \<in> set (rule_text r) \<Longrightarrow> x \<noteq> CHR '','' \<and> \<not> is_lws x"
  using show_nat_chars
  by (cases r; cases "quad (fst (snd r))") (auto simp: rule_text_def quad_text_def is_lws_def split: if_splits)

lemma trim_plain:
  assumes "\<forall>x \<in> set s. \<not> is_lws x"
  shows "trim_lws s = s"
proof -
  have "dropWhile is_lws s = s" "dropWhile is_lws (rev s) = rev s"
    using assms hd_in_set [of s] hd_in_set [of "rev s"] by (auto simp: dropWhile_eq_self_iff)
  then show ?thesis by (simp add: trim_lws_def strip_end_def)
qed

lemma next_value_plain:
  assumes "v \<noteq> []" "\<forall>x \<in> set v. x \<noteq> CHR '','' \<and> \<not> is_lws x"
  shows "next_value v = Some (v, [])" "next_value (v @ CHR '','' # rest) = Some (v, rest)"
proof -
  have t: "trim_lws v = v" using assms by (intro trim_plain) simp
  have n: "memchr (CHR '','') v = None" using assms(2) by (auto simp: memchr_None_iff)
  show "next_value v = Some (v, [])" using n t assms(1) by (simp add: next_value_eq [of v])
  have "memchr (CHR '','') (v @ CHR '','' # rest) = Some (length v)"
    using assms(2) by (auto simp: memchr_Some_iff nth_append)
  then show "next_value (v @ CHR '','' # rest) = Some (v, rest)"
    using t assms(1) by (simp add: next_value_eq [of "v @ CHR '','' # rest"])
qed

definition flag_of :: "bool \<Rightarrow> char" where "flag_of allow = (if allow then CHR ''+'' else CHR ''-'')"

text \<open>The decision: the last rule that matches the address.\<close>

fun acl_decision :: "32 word \<Rightarrow> acl_rule list \<Rightarrow> bool \<Rightarrow> bool" where
  "acl_decision ip [] allowed = allowed"
| "acl_decision ip (r # rs) allowed = acl_decision ip rs (if rule_matches ip r then fst r else allowed)"

lemma rule_text_not_empty: "rule_text r \<noteq> []"
  by (cases r) (simp add: rule_text_def)

lemma acl_loop_rule:
  assumes "rule_wf r" "next_value list = Some (rule_text r, rest)"
  shows "acl_loop list (AF_INET ip) (flag_of a) = acl_loop rest (AF_INET ip) (flag_of (if rule_matches ip r then fst r else a))"
proof -
  obtain allow net m where r: "r = (allow, net, m)" by (cases r)
  have t: "rule_text r = flag_of allow # quad_text (quad net) @ ''/'' @ show_nat m" by (simp add: rule_text_def r flag_of_def)
  have "flag_of allow = CHR ''+'' \<or> flag_of allow = CHR ''-''" by (simp add: flag_of_def)
  then show ?thesis
    using parse_match_net_rule [of allow net m ip] assms(1)
    by (subst acl_loop.simps) (simp add: assms(2) t [unfolded r] r Let_def)
qed

lemma acl_loop_text:
  "\<forall>r \<in> set rs. rule_wf r \<Longrightarrow> acl_loop (acl_text rs) (AF_INET ip) (flag_of a) = Some (flag_of (acl_decision ip rs a))"
proof (induction rs arbitrary: a rule: acl_text.induct)
  case 1
  then show ?case by (simp add: acl_loop.simps next_value_eq)
next
  case (2 r)
  have "next_value (rule_text r) = Some (rule_text r, [])"
    by (rule next_value_plain) (use rule_text_chars rule_text_not_empty in auto)
  with 2 show ?case using acl_loop_rule [of r "rule_text r" "[]" ip a]
    by (simp add: acl_loop.simps [of "[]"] next_value_eq [of "[]"])
next
  case (3 r r2 rs)
  have "next_value (rule_text r @ CHR '','' # acl_text (r2 # rs)) = Some (rule_text r, acl_text (r2 # rs))"
    by (rule next_value_plain) (use rule_text_chars rule_text_not_empty in auto)
  with 3 show ?case using acl_loop_rule [of r _ "acl_text (r2 # rs)" ip a] by simp
qed

lemma acl_decision_last:
  "acl_decision ip rs a = (case filter (rule_matches ip) rs of [] \<Rightarrow> a | ms \<Rightarrow> fst (last ms))"
proof (induction rs arbitrary: a)
  case (Cons r rs)
  then show ?case by (auto split: list.splits)
qed simp

section \<open>Properties\<close>

text \<open>
  C28: the access control list decides as documented: of the rules that match the address the last
  one wins, and if there is a list and no rule matches, access is denied. A rule matches if the
  address has its prefix. Stated for lists of any number of rules as an administrator writes them.
\<close>

theorem check_acl_last_match:
  assumes "\<forall>r \<in> set rules. rule_wf r"
  shows "check_acl (Some (acl_text rules)) (AF_INET ip) =
    (case filter (rule_matches ip) rules of [] \<Rightarrow> 0 | ms \<Rightarrow> if fst (last ms) then 1 else 0)"
proof -
  have "acl_loop (acl_text rules) (AF_INET ip) (CHR ''-'') = Some (flag_of (acl_decision ip rules False))"
    using acl_loop_text [OF assms, of ip False] by (simp add: flag_of_def)
  then show ?thesis
    by (auto simp: check_acl_def acl_decision_last flag_of_def split: list.splits)
qed

lemma check_acl_last_match_witness:
  "check_acl (Some (acl_text [(True, 0xC0A80000, 16), (False, 0xC0A80100, 24)])) (AF_INET 0xC0A80105) = 0"
  using check_acl_last_match [of "[(True, 0xC0A80000, 16), (False, 0xC0A80100, 24)]" "0xC0A80105"]
  by (simp add: rule_wf_def rule_matches_def)

text \<open>
  A network with bits behind its prefix is accepted and matches no address at all: such a rule
  has no effect, although its text looks like a range around a host.
\<close>

lemma host_bits_never_match:
  assumes "scan_net vec = (q, m, n)" "m \<le> 32" "take_bit (32 - m) (net_word q) \<noteq> 0"
  shows "parse_match_net vec (AF_INET ip) \<noteq> 1"
proof -
  have "ip AND net_mask m \<noteq> net_word q"
  proof
    assume e: "ip AND net_mask m = net_word q"
    have "take_bit (32 - m) (ip AND net_mask m) = 0"
      by (rule bit_word_eqI) (auto simp: net_mask_def bit_simps)
    with e assms(3) show False by simp
  qed
  then show ?thesis using assms(1) by (cases q) (simp add: parse_match_net_def)
qed

end
