(* ===== verification/Handlers.thy ===== *)
theory Handlers
  imports Mg_Match "HOL-Library.Multiset"
begin

text \<open>
  The registry of URI handlers (\<open>src/civetweb.c\<close>, \<open>mg_set_handler_type\<close>, \<open>get_request_handler\<close>,
  \<open>release_handler_ref\<close>), a linked list that several threads use under a lock. The model's
  operations are the sections between lock and unlock; \<open>mg_set_handler_type\<close> waits for a handler
  in use by leaving its section and trying again. Handler functions and callback data are
  numbers; an entry has the address of its allocation.
\<close>

section \<open>State\<close>

datatype handler_type = REQUEST_HANDLER | WEBSOCKET_HANDLER | AUTH_HANDLER

record callbacks =
  request_cb :: "nat option"
  subprotocols :: "nat option"
  connect_cb :: "nat option"
  ready_cb :: "nat option"
  data_cb :: "nat option"
  close_cb :: "nat option"
  auth_cb :: "nat option"
  cbdata :: nat

record mg_handler_info =
  addr :: nat
  uri :: string
  handler_type :: handler_type
  cbs :: callbacks
  refcount :: "32 word"
  removing :: bool

definition no_callbacks :: callbacks where
  "no_callbacks = \<lparr> request_cb = None, subprotocols = None, connect_cb = None, ready_cb = None,
     data_cb = None, close_cb = None, auth_cb = None, cbdata = 0 \<rparr>"

section \<open>Setting and removing handlers\<close>

text \<open>The checks in front of the critical section.\<close>

definition handler_args_ok :: "handler_type \<Rightarrow> bool \<Rightarrow> callbacks \<Rightarrow> bool" where
  "handler_args_ok ty is_delete cb =
     (let no_ws = connect_cb cb = None \<and> ready_cb cb = None \<and> data_cb cb = None \<and> close_cb cb = None
      in case ty of
           WEBSOCKET_HANDLER \<Rightarrow> request_cb cb = None \<and> (is_delete \<or> \<not> no_ws) \<and> auth_cb cb = None
         | REQUEST_HANDLER \<Rightarrow> no_ws \<and> (is_delete \<or> request_cb cb \<noteq> None) \<and> auth_cb cb = None
         | AUTH_HANDLER \<Rightarrow> request_cb cb = None \<and> no_ws \<and> (is_delete \<or> auth_cb cb \<noteq> None))"

text \<open>The fields a handler of a type sets.\<close>

definition set_callbacks :: "handler_type \<Rightarrow> callbacks \<Rightarrow> callbacks \<Rightarrow> callbacks" where
  "set_callbacks ty new old =
     (case ty of
        REQUEST_HANDLER \<Rightarrow> old\<lparr> request_cb := request_cb new, cbdata := cbdata new \<rparr>
      | WEBSOCKET_HANDLER \<Rightarrow> old\<lparr> subprotocols := subprotocols new, connect_cb := connect_cb new,
            ready_cb := ready_cb new, data_cb := data_cb new, close_cb := close_cb new, cbdata := cbdata new \<rparr>
      | AUTH_HANDLER \<Rightarrow> old\<lparr> auth_cb := auth_cb new, cbdata := cbdata new \<rparr>)"

text \<open>The outcome of a critical section: finished, or unlock, sleep and try again.\<close>

datatype set_outcome = Set_Done "mg_handler_info list" | Set_Retry "mg_handler_info list"

definition is_entry :: "handler_type \<Rightarrow> string \<Rightarrow> mg_handler_info \<Rightarrow> bool" where
  "is_entry ty u rh \<longleftrightarrow> handler_type rh = ty \<and> uri rh = u"

fun set_existing :: "handler_type \<Rightarrow> string \<Rightarrow> bool \<Rightarrow> callbacks \<Rightarrow> mg_handler_info list \<Rightarrow> set_outcome option" where
  "set_existing ty u is_delete cb [] = None"
| "set_existing ty u is_delete cb (rh # rhs) =
     (if is_entry ty u rh
      then Some (if \<not> is_delete
                 then if ty = REQUEST_HANDLER \<and> refcount rh \<noteq> 0 then Set_Retry (rh # rhs)
                      else Set_Done (rh\<lparr> cbs := set_callbacks ty cb (cbs rh) \<rparr> # rhs)
                 else if ty = REQUEST_HANDLER \<and> refcount rh \<noteq> 0 then Set_Retry (rh\<lparr> removing := True \<rparr> # rhs)
                      else Set_Done rhs)
      else case set_existing ty u is_delete cb rhs of
             None \<Rightarrow> None
           | Some (Set_Done rhs') \<Rightarrow> Some (Set_Done (rh # rhs'))
           | Some (Set_Retry rhs') \<Rightarrow> Some (Set_Retry (rh # rhs')))"

text \<open>One critical section of \<open>mg_set_handler_type\<close>; \<open>fresh\<close> is the address of a new entry.\<close>

definition mg_set_handler_type ::
    "nat \<Rightarrow> string \<Rightarrow> handler_type \<Rightarrow> bool \<Rightarrow> callbacks \<Rightarrow> mg_handler_info list \<Rightarrow> set_outcome" where
  "mg_set_handler_type fresh u ty is_delete cb rhs =
     (if \<not> handler_args_ok ty is_delete cb then Set_Done rhs
      else case set_existing ty u is_delete cb rhs of
             Some r \<Rightarrow> r
           | None \<Rightarrow>
               if is_delete then Set_Done rhs
               else Set_Done (rhs @ [\<lparr> addr = fresh, uri = u, handler_type = ty,
                                       cbs = set_callbacks ty cb no_callbacks, refcount = 0, removing = False \<rparr>]))"

definition mg_set_request_handler :: "nat \<Rightarrow> string \<Rightarrow> nat option \<Rightarrow> nat \<Rightarrow> mg_handler_info list \<Rightarrow> set_outcome" where
  "mg_set_request_handler fresh u h data rhs =
     mg_set_handler_type fresh u REQUEST_HANDLER (h = None) (no_callbacks\<lparr> request_cb := h, cbdata := data \<rparr>) rhs"

definition mg_set_auth_handler :: "nat \<Rightarrow> string \<Rightarrow> nat option \<Rightarrow> nat \<Rightarrow> mg_handler_info list \<Rightarrow> set_outcome" where
  "mg_set_auth_handler fresh u h data rhs =
     mg_set_handler_type fresh u AUTH_HANDLER (h = None) (no_callbacks\<lparr> auth_cb := h, cbdata := data \<rparr>) rhs"

definition mg_set_websocket_handler_with_subprotocols ::
    "nat \<Rightarrow> string \<Rightarrow> nat option \<Rightarrow> nat option \<Rightarrow> nat option \<Rightarrow> nat option \<Rightarrow> nat option \<Rightarrow> nat \<Rightarrow>
     mg_handler_info list \<Rightarrow> set_outcome" where
  "mg_set_websocket_handler_with_subprotocols fresh u sub connect ready dat close data rhs =
     mg_set_handler_type fresh u WEBSOCKET_HANDLER
       (connect = None \<and> ready = None \<and> dat = None \<and> close = None)
       (no_callbacks\<lparr> subprotocols := sub, connect_cb := connect, ready_cb := ready, data_cb := dat,
                      close_cb := close, cbdata := data \<rparr>) rhs"

definition mg_set_websocket_handler ::
    "nat \<Rightarrow> string \<Rightarrow> nat option \<Rightarrow> nat option \<Rightarrow> nat option \<Rightarrow> nat option \<Rightarrow> nat \<Rightarrow>
     mg_handler_info list \<Rightarrow> set_outcome" where
  "mg_set_websocket_handler fresh u connect ready dat close data rhs =
     mg_set_websocket_handler_with_subprotocols fresh u None connect ready dat close data rhs"

section \<open>Looking up a handler\<close>

definition handler_matches :: "nat \<Rightarrow> string \<Rightarrow> mg_handler_info \<Rightarrow> bool" where
  "handler_matches step u rh =
     (if step = 0 then uri rh = u
      else if step = 1
      then length (uri rh) < length u \<and> u ! length (uri rh) = CHR ''/'' \<and> take (length (uri rh)) u = uri rh
      else match_prefix (Some (uri rh)) u > 0)"

text \<open>The search: the first match of the first step that has one.\<close>

definition find_handler :: "handler_type \<Rightarrow> string \<Rightarrow> mg_handler_info list \<Rightarrow> mg_handler_info option" where
  "find_handler ty u rhs =
     (let first = (\<lambda>step. find (\<lambda>rh. handler_type rh = ty \<and> handler_matches step u rh) rhs)
      in case first 0 of Some rh \<Rightarrow> Some rh
         | None \<Rightarrow> (case first 1 of Some rh \<Rightarrow> Some rh | None \<Rightarrow> first 2))"

definition update_entry :: "nat \<Rightarrow> (mg_handler_info \<Rightarrow> mg_handler_info) \<Rightarrow> mg_handler_info list \<Rightarrow> mg_handler_info list" where
  "update_entry a f rhs = map (\<lambda>rh. if addr rh = a then f rh else rh) rhs"

text \<open>The entry found is given back; a request handler is acquired, unless it is being removed.\<close>

definition get_request_handler ::
    "handler_type \<Rightarrow> string \<Rightarrow> mg_handler_info list \<Rightarrow> mg_handler_info option \<times> mg_handler_info list" where
  "get_request_handler ty u rhs =
     (case find_handler ty u rhs of
        None \<Rightarrow> (None, rhs)
      | Some rh \<Rightarrow>
          if ty = REQUEST_HANDLER
          then if removing rh then (None, rhs)
               else (Some rh, update_entry (addr rh) (\<lambda>r. r\<lparr> refcount := refcount r + 1 \<rparr>) rhs)
          else (Some rh, rhs))"

definition release_handler_ref :: "nat \<Rightarrow> mg_handler_info list \<Rightarrow> mg_handler_info list" where
  "release_handler_ref a rhs = update_entry a (\<lambda>r. r\<lparr> refcount := refcount r - 1 \<rparr>) rhs"

section \<open>Threads\<close>

text \<open>
  The system: the list and the entries the worker threads hold, one address for each use. A step
  is one critical section of some thread. A worker holds one entry at a time and their number is
  an \<open>unsigned int\<close>, so there are never \<open>2 ^ 32\<close> uses and the counters do not wrap.
\<close>

type_synonym registry = "mg_handler_info list \<times> nat multiset"

inductive registry_step :: "registry \<Rightarrow> registry \<Rightarrow> bool" where
  acquire: "get_request_handler REQUEST_HANDLER u rhs = (Some rh, rhs') \<Longrightarrow> size uses + 1 < 2 ^ 32 \<Longrightarrow>
     registry_step (rhs, uses) (rhs', add_mset (addr rh) uses)"
| release: "a \<in># uses \<Longrightarrow> registry_step (rhs, uses) (release_handler_ref a rhs, uses - {#a#})"
| set_done: "mg_set_handler_type fresh u ty is_delete cb rhs = Set_Done rhs' \<Longrightarrow> fresh \<notin> addr ` set rhs \<Longrightarrow>
     registry_step (rhs, uses) (rhs', uses)"
| set_retry: "mg_set_handler_type fresh u ty is_delete cb rhs = Set_Retry rhs' \<Longrightarrow>
     registry_step (rhs, uses) (rhs', uses)"

inductive registry_reach :: "registry \<Rightarrow> bool" where
  start: "registry_reach ([], {#})"
| step: "registry_reach s \<Longrightarrow> registry_step s s' \<Longrightarrow> registry_reach s'"

definition entry_key :: "mg_handler_info \<Rightarrow> handler_type \<times> string" where
  "entry_key rh = (handler_type rh, uri rh)"

text \<open>
  The invariant: addresses are unique, there is one entry for a type and URI, the counter of each
  entry is the number of its uses, and every use refers to an entry in the list.
\<close>

definition registry_ok :: "registry \<Rightarrow> bool" where
  "registry_ok s = (case s of (rhs, uses) \<Rightarrow>
     distinct (map addr rhs) \<and> distinct (map entry_key rhs) \<and>
     (\<forall>rh \<in> set rhs. unat (refcount rh) = count uses (addr rh) \<and> (handler_type rh \<noteq> REQUEST_HANDLER \<longrightarrow> refcount rh = 0)) \<and>
     size uses < 2 ^ 32 \<and> set_mset uses \<subseteq> addr ` set rhs)"


section \<open>The operations on the list\<close>

lemma set_existing_None: "set_existing ty u del cb rhs = None \<longleftrightarrow> (\<forall>rh \<in> set rhs. \<not> is_entry ty u rh)"
  by (induction rhs) (auto split: option.splits set_outcome.splits)

text \<open>What happens to the entry that exists.\<close>

definition entry_outcome :: "handler_type \<Rightarrow> bool \<Rightarrow> callbacks \<Rightarrow> mg_handler_info list \<Rightarrow> mg_handler_info \<Rightarrow> mg_handler_info list \<Rightarrow> set_outcome" where
  "entry_outcome ty del cb pre rh post =
     (if \<not> del
      then if ty = REQUEST_HANDLER \<and> refcount rh \<noteq> 0 then Set_Retry (pre @ rh # post)
           else Set_Done (pre @ rh\<lparr> cbs := set_callbacks ty cb (cbs rh) \<rparr> # post)
      else if ty = REQUEST_HANDLER \<and> refcount rh \<noteq> 0 then Set_Retry (pre @ rh\<lparr> removing := True \<rparr> # post)
           else Set_Done (pre @ post))"

lemma set_existing_Some:
  "set_existing ty u del cb rhs = Some r \<Longrightarrow>
     \<exists>pre rh post. rhs = pre @ rh # post \<and> is_entry ty u rh \<and> (\<forall>x \<in> set pre. \<not> is_entry ty u x) \<and>
       r = entry_outcome ty del cb pre rh post"
proof (induction rhs arbitrary: r)
  case (Cons rh rhs)
  show ?case
  proof (cases "is_entry ty u rh")
    case True
    then have "r = entry_outcome ty del cb [] rh rhs" using Cons.prems by (auto simp: entry_outcome_def)
    then show ?thesis using True by fastforce
  next
    case False
    then obtain r' where r': "set_existing ty u del cb rhs = Some r'" using Cons.prems by (auto split: option.splits)
    from Cons.IH [OF this] obtain pre x post where p: "rhs = pre @ x # post" "is_entry ty u x"
      "\<forall>y \<in> set pre. \<not> is_entry ty u y" "r' = entry_outcome ty del cb pre x post" by blast
    have "r = entry_outcome ty del cb (rh # pre) x post"
      using Cons.prems False r' p(4) by (auto simp: entry_outcome_def split: if_splits)
    then show ?thesis using p False by (metis append_Cons set_ConsD)
  qed
qed simp

text \<open>The three ways a critical section of \<open>mg_set_handler_type\<close> ends.\<close>

lemma mg_set_handler_type_cases [consumes 1, case_names refused existing absent added]:
  assumes "mg_set_handler_type fresh u ty del cb rhs = r"
  obtains "\<not> handler_args_ok ty del cb" "r = Set_Done rhs"
  | pre rh post where "handler_args_ok ty del cb" "rhs = pre @ rh # post" "is_entry ty u rh"
      "\<forall>x \<in> set pre. \<not> is_entry ty u x" "r = entry_outcome ty del cb pre rh post"
  | "handler_args_ok ty del cb" "del" "\<forall>x \<in> set rhs. \<not> is_entry ty u x" "r = Set_Done rhs"
  | "handler_args_ok ty del cb" "\<not> del" "\<forall>x \<in> set rhs. \<not> is_entry ty u x"
      "r = Set_Done (rhs @ [\<lparr> addr = fresh, uri = u, handler_type = ty,
             cbs = set_callbacks ty cb no_callbacks, refcount = 0, removing = False \<rparr>])"
proof (cases "handler_args_ok ty del cb")
  case False
  then show ?thesis using that(1) assms by (simp add: mg_set_handler_type_def)
next
  case ok: True
  show ?thesis
  proof (cases "set_existing ty u del cb rhs")
    case None
    then have n: "\<forall>x \<in> set rhs. \<not> is_entry ty u x" by (simp add: set_existing_None)
    show ?thesis using that(3,4) [OF ok] n None ok assms by (cases del) (simp_all add: mg_set_handler_type_def)
  next
    case (Some x)
    then have "r = x" using assms ok by (simp add: mg_set_handler_type_def)
    then show ?thesis using set_existing_Some [OF Some] that(2) [OF ok] by blast
  qed
qed

lemma update_entry_simps [simp]:
  assumes "\<And>r. addr (f r) = addr r"
  shows "map addr (update_entry a f rhs) = map addr rhs" "addr ` set (update_entry a f rhs) = addr ` set rhs"
proof -
  show m: "map addr (update_entry a f rhs) = map addr rhs" using assms by (simp add: update_entry_def)
  show "addr ` set (update_entry a f rhs) = addr ` set rhs" using arg_cong [OF m, of set] by simp
qed

lemma find_handler_in: "find_handler ty u rhs = Some rh \<Longrightarrow> rh \<in> set rhs \<and> handler_type rh = ty"
  by (auto simp: find_handler_def Let_def find_Some_iff in_set_conv_nth split: option.splits)

section \<open>The invariant\<close>

lemma distinct_entry: "distinct (map addr rhs) \<Longrightarrow> x \<in> set rhs \<Longrightarrow> y \<in> set rhs \<Longrightarrow> addr x = addr y \<Longrightarrow> x = y"
  by (auto simp: distinct_map inj_on_def)

text \<open>Counting: the entries' counters follow the multiset of uses.\<close>

lemma registry_ok_counters:
  assumes "registry_ok (rhs, uses)" "\<And>r. addr (f r) = addr r" "\<And>r. entry_key (f r) = entry_key r"
    and "\<And>rh. rh \<in> set rhs \<Longrightarrow> addr rh = a \<Longrightarrow> unat (refcount (f rh)) = count uses' a" "size uses' < 2 ^ 32"
    and "\<And>b. b \<noteq> a \<Longrightarrow> count uses' b = count uses b" "set_mset uses' \<subseteq> addr ` set rhs"
    and "\<exists>rh \<in> set rhs. addr rh = a \<and> handler_type rh = REQUEST_HANDLER"
  shows "registry_ok (update_entry a f rhs, uses')"
proof -
  have k: "map entry_key (update_entry a f rhs) = map entry_key rhs" using assms(3) by (auto simp: update_entry_def)
  have ht: "handler_type (f r) = handler_type r" for r using assms(3) [of r] by (simp add: entry_key_def)
  have "unat (refcount x) = count uses' (addr x) \<and> (handler_type x \<noteq> REQUEST_HANDLER \<longrightarrow> refcount x = 0)"
    if x: "x \<in> set (update_entry a f rhs)" for x
  proof -
    from x obtain rh where rh: "rh \<in> set rhs" "x = (if addr rh = a then f rh else rh)" by (auto simp: update_entry_def)
    show ?thesis
    proof (cases "addr rh = a")
      case True
      obtain r0 where "r0 \<in> set rhs" "addr r0 = a" "handler_type r0 = REQUEST_HANDLER" using assms(8) by blast
      then have "handler_type rh = REQUEST_HANDLER"
        using distinct_entry [of rhs rh r0] assms(1) rh(1) True by (auto simp: registry_ok_def)
      then show ?thesis using True rh assms(2,4) ht by simp
    next
      case False
      then show ?thesis using rh assms(1,6) by (auto simp: registry_ok_def)
    qed
  qed
  then have "\<forall>x \<in> set (update_entry a f rhs). unat (refcount x) = count uses' (addr x) \<and>
      (handler_type x \<noteq> REQUEST_HANDLER \<longrightarrow> refcount x = 0)" by blast
  moreover have "distinct (map addr (update_entry a f rhs))" "distinct (map entry_key (update_entry a f rhs))"
    "set_mset uses' \<subseteq> addr ` set (update_entry a f rhs)"
    using assms(1,2,7) k by (simp_all add: registry_ok_def)
  ultimately show ?thesis using assms(5) unfolding registry_ok_def prod.case by (intro conjI)
qed

lemma counter_steps:
  fixes w :: "32 word"
  shows "unat w < n \<Longrightarrow> n < 2 ^ 32 \<Longrightarrow> unat (w + 1) = unat w + 1" "unat w > 0 \<Longrightarrow> unat (w - 1) = unat w - 1"
  by (simp_all add: unat_word_ariths unat_gt_0 unat_minus_one)

lemma acquire_ok:
  assumes ok: "registry_ok (rhs, uses)" and n: "size uses + 1 < 2 ^ 32" and g: "get_request_handler REQUEST_HANDLER u rhs = (Some rh, rhs')"
  shows "registry_ok (rhs', add_mset (addr rh) uses)"
proof -
  have f: "find_handler REQUEST_HANDLER u rhs = Some rh" "rhs' = update_entry (addr rh) (\<lambda>r. r\<lparr> refcount := refcount r + 1 \<rparr>) rhs"
    using g by (auto simp: get_request_handler_def split: option.splits if_splits)
  note i = find_handler_in [OF f(1)]
  have c: "unat (refcount r + 1) = count (add_mset (addr rh) uses) (addr rh)" if r: "r \<in> set rhs" "addr r = addr rh" for r
  proof -
    have "unat (refcount r) = count uses (addr rh)" using ok r by (auto simp: registry_ok_def)
    moreover have "count uses (addr rh) \<le> size uses" by (rule count_le_size)
    ultimately have "unat (refcount r) < size uses + 1" by simp
    from counter_steps(1) [OF this n] show ?thesis using \<open>unat (refcount r) = count uses (addr rh)\<close> by simp
  qed
  show ?thesis unfolding f(2)
    by (rule registry_ok_counters [OF ok]) (use ok i c n in \<open>auto simp: entry_key_def registry_ok_def\<close>)
qed

lemma release_ok:
  assumes ok: "registry_ok (rhs, uses)" and a: "a \<in># uses"
  shows "registry_ok (release_handler_ref a rhs, uses - {#a#})"
proof -
  obtain rh where rh: "rh \<in> set rhs" "addr rh = a" using ok a by (auto simp: registry_ok_def)
  have p: "count uses a > 0" using a by simp
  moreover have "unat (refcount rh) = count uses a" "handler_type rh \<noteq> REQUEST_HANDLER \<longrightarrow> refcount rh = 0"
    using ok rh unfolding registry_ok_def prod.case by blast+
  ultimately have t: "handler_type rh = REQUEST_HANDLER" by (metis less_numeral_extra(3) unsigned_0)
  have c: "unat (refcount r - 1) = count (uses - {#a#}) a" if r: "r \<in> set rhs" "addr r = a" for r
  proof -
    have "unat (refcount r) = count uses a" using ok r by (auto simp: registry_ok_def)
    then show ?thesis using counter_steps(2) [of "refcount r"] p by simp
  qed
  have "size (uses - {#a#}) \<le> size uses" by (rule size_mset_mono) simp
  moreover have "size uses < 2 ^ 32" using ok by (simp add: registry_ok_def)
  ultimately have s: "size (uses - {#a#}) < 2 ^ 32" by (rule le_less_trans)
  show ?thesis unfolding release_handler_ref_def
    by (intro registry_ok_counters [OF ok] s) (use ok rh t c in \<open>auto simp: entry_key_def registry_ok_def dest: in_diffD\<close>)
qed

lemma set_ok:
  assumes ok: "registry_ok (rhs, uses)" and fresh: "fresh \<notin> addr ` set rhs \<or> mg_set_handler_type fresh u ty del cb rhs = Set_Retry rhs'"
    and s: "mg_set_handler_type fresh u ty del cb rhs = Set_Done rhs' \<or> mg_set_handler_type fresh u ty del cb rhs = Set_Retry rhs'"
  shows "registry_ok (rhs', uses)"
proof -
  obtain r where r: "mg_set_handler_type fresh u ty del cb rhs = r" "r = Set_Done rhs' \<or> r = Set_Retry rhs'" using s by blast
  from r(1) show ?thesis
  proof (cases rule: mg_set_handler_type_cases)
    case refused
    then show ?thesis using r(2) ok by auto
  next
    case (existing pre rh post)
    have c: "count uses (addr rh) = unat (refcount rh)" "handler_type rh = ty"
      using ok existing(2,3) by (simp_all add: registry_ok_def is_entry_def)
    have z: "ty \<noteq> REQUEST_HANDLER \<longrightarrow> refcount rh = 0" using ok existing(2) c(2) by (simp add: registry_ok_def)
    have "rhs' = pre @ rh # post \<or> rhs' = pre @ rh\<lparr> cbs := set_callbacks ty cb (cbs rh) \<rparr> # post \<or>
        rhs' = pre @ rh\<lparr> removing := True \<rparr> # post \<or> rhs' = pre @ post \<and> refcount rh = 0"
      using existing(5) r(2) z
      by (auto simp: entry_outcome_def split: if_splits)
    then show ?thesis
    proof (elim disjE conjE)
      assume e: "rhs' = pre @ post" "refcount rh = 0"
      then have "count uses (addr rh) = 0" using c(1) by simp
      then have "addr rh \<notin># uses" by (simp add: count_eq_zero_iff)
      then show ?thesis using ok existing(2) e by (auto simp: registry_ok_def)
    qed (use ok in \<open>simp_all add: existing(2) registry_ok_def entry_key_def\<close>)
  next
    case absent
    then show ?thesis using r(2) ok by auto
  next
    case added
    then have fresh: "fresh \<notin> addr ` set rhs" using fresh r(1) by auto
    have "count uses fresh = 0" using ok fresh by (auto simp: registry_ok_def count_eq_zero_iff)
    moreover have "(ty, u) \<notin> entry_key ` set rhs" using added(3) by (auto simp: is_entry_def entry_key_def)
    ultimately show ?thesis using added(4) r(2) ok fresh
      by (auto simp: registry_ok_def entry_key_def)
  qed
qed


lemma registry_step_ok: "registry_step s s' \<Longrightarrow> registry_ok s \<Longrightarrow> registry_ok s'"
  by (induction rule: registry_step.induct) (auto intro: acquire_ok release_ok set_ok)

lemma registry_reach_ok: "registry_reach s \<Longrightarrow> registry_ok s"
proof (induction rule: registry_reach.induct)
  case start
  then show ?case by (simp add: registry_ok_def)
next
  case (step s s')
  then show ?case by (blast intro: registry_step_ok)
qed

text \<open>What a critical section does to an entry that is in use.\<close>

lemma update_entry_kept:
  assumes "rh \<in> set rhs" "\<And>r. addr (f r) = addr r \<and> uri (f r) = uri r \<and> cbs (f r) = cbs r"
  shows "\<exists>rh' \<in> set (update_entry a f rhs). addr rh' = addr rh \<and> uri rh' = uri rh \<and> cbs rh' = cbs rh"
proof -
  have "(if addr rh = a then f rh else rh) \<in> set (update_entry a f rhs)" using assms(1) by (auto simp: update_entry_def)
  then show ?thesis using assms(2) by (intro bexI) auto
qed

lemma set_kept:
  assumes "mg_set_handler_type fresh u ty del cb rhs = Set_Done rhs' \<or> mg_set_handler_type fresh u ty del cb rhs = Set_Retry rhs'"
    and "rh \<in> set rhs" "refcount rh \<noteq> 0" "handler_type rh = REQUEST_HANDLER"
  shows "\<exists>rh' \<in> set rhs'. addr rh' = addr rh \<and> uri rh' = uri rh \<and> cbs rh' = cbs rh \<and> refcount rh' = refcount rh"
proof -
  obtain r where r: "mg_set_handler_type fresh u ty del cb rhs = r" "r = Set_Done rhs' \<or> r = Set_Retry rhs'" using assms(1) by blast
  from r(1) show ?thesis
  proof (cases rule: mg_set_handler_type_cases)
    case (existing pre x post)
    show ?thesis
    proof (cases "x = rh")
      case True
      then have "r = Set_Retry (pre @ rh # post) \<or> r = Set_Retry (pre @ rh\<lparr> removing := True \<rparr> # post)"
        using existing(3,5) assms(3,4) by (auto simp: entry_outcome_def is_entry_def)
      then show ?thesis using r(2) by auto
    next
      case False
      then have "rh \<in> set pre \<union> set post" using existing(2) assms(2) by auto
      then show ?thesis using existing(5) r(2) by (auto simp: entry_outcome_def split: if_splits)
    qed
  qed (use r(2) assms(2) in auto)
qed

section \<open>Properties\<close>

text \<open>
  C29: a handler in use is neither freed nor replaced. In every state that the threads can reach,
  and for every next step of any of them, an entry that some worker still holds stays in the list
  with its URI, its functions and its callback data; there is exactly one entry with its address.
\<close>

theorem handler_in_use_stable:
  assumes "registry_reach (rhs, uses)" "registry_step (rhs, uses) (rhs', uses')" "a \<in># uses"
  shows "\<exists>rh \<in> set rhs. addr rh = a \<and> unat (refcount rh) = count uses a \<and>
    (\<exists>rh' \<in> set rhs'. addr rh' = a \<and> uri rh' = uri rh \<and> cbs rh' = cbs rh) \<and> distinct (map addr rhs')"
proof -
  note ok = registry_reach_ok [OF assms(1)]
  have ok': "registry_ok (rhs', uses')" by (rule registry_step_ok [OF assms(2) ok])
  obtain rh where rh: "rh \<in> set rhs" "addr rh = a" using ok assms(3) by (auto simp: registry_ok_def)
  have "count uses a \<noteq> 0" using assms(3) by simp
  moreover have "unat (refcount rh) = count uses a" "handler_type rh \<noteq> REQUEST_HANDLER \<longrightarrow> refcount rh = 0"
    using ok rh unfolding registry_ok_def prod.case by blast+
  ultimately have c: "refcount rh \<noteq> 0" "handler_type rh = REQUEST_HANDLER" "unat (refcount rh) = count uses a"
    by (metis unsigned_0)+
  have "\<exists>rh' \<in> set rhs'. addr rh' = addr rh \<and> uri rh' = uri rh \<and> cbs rh' = cbs rh"
    using assms(2)
  proof (cases rule: registry_step.cases)
    case (acquire u x)
    then have "rhs' = update_entry (addr x) (\<lambda>r. r\<lparr> refcount := refcount r + 1 \<rparr>) rhs"
      by (auto simp: get_request_handler_def split: option.splits if_splits)
    then show ?thesis using update_entry_kept [OF rh(1)] by simp
  next
    case (release b)
    then show ?thesis unfolding release_handler_ref_def using update_entry_kept [OF rh(1)] by simp
  next
    case (set_done fresh u ty del cb)
    then show ?thesis using set_kept [OF _ rh(1) c(1,2)] by blast
  next
    case (set_retry fresh u ty del cb)
    then show ?thesis using set_kept [OF _ rh(1) c(1,2)] by blast
  qed
  then show ?thesis using rh c(3) ok' by (auto simp: registry_ok_def)
qed

definition example_entry :: mg_handler_info where
  "example_entry = \<lparr> addr = 7, uri = ''/a'', handler_type = REQUEST_HANDLER,
     cbs = no_callbacks\<lparr> request_cb := Some 3, cbdata := 5 \<rparr>, refcount = 0, removing = False \<rparr>"

lemma example_set: "mg_set_request_handler 7 ''/a'' (Some 3) 5 [] = Set_Done [example_entry]"
  by (simp add: mg_set_request_handler_def mg_set_handler_type_def handler_args_ok_def no_callbacks_def
      set_callbacks_def example_entry_def)

lemma example_reach: "registry_reach ([example_entry\<lparr> refcount := 1 \<rparr>], {#7#})"
proof -
  have "registry_step ([], {#}) ([example_entry], {#})"
    by (rule set_done [OF example_set [unfolded mg_set_request_handler_def]]) simp
  then have 1: "registry_reach ([example_entry], {#})" by (rule step [OF start])
  have "get_request_handler REQUEST_HANDLER ''/a'' [example_entry] = (Some example_entry, [example_entry\<lparr> refcount := 1 \<rparr>])"
    by (simp add: get_request_handler_def find_handler_def handler_matches_def update_entry_def) (simp add: example_entry_def)
  from acquire [OF this, of "{#}"] have "registry_step ([example_entry], {#}) ([example_entry\<lparr> refcount := 1 \<rparr>], {#7#})"
    by (simp add: example_entry_def)
  with 1 show ?thesis by (rule step)
qed

lemma handler_in_use_stable_witness:
  "\<exists>rh' \<in> set [example_entry\<lparr> refcount := 1, removing := True \<rparr>]. addr rh' = 7 \<and> cbs rh' = cbs example_entry"
proof -
  have "mg_set_handler_type 8 ''/a'' REQUEST_HANDLER True no_callbacks [example_entry\<lparr> refcount := 1 \<rparr>] =
      Set_Retry [example_entry\<lparr> refcount := 1, removing := True \<rparr>]"
    by (simp add: mg_set_handler_type_def handler_args_ok_def no_callbacks_def example_entry_def is_entry_def)
  then have "registry_step ([example_entry\<lparr> refcount := 1 \<rparr>], {#7#}) ([example_entry\<lparr> refcount := 1, removing := True \<rparr>], {#7#})"
    by (rule set_retry)
  from handler_in_use_stable [OF example_reach this, of 7] show ?thesis by auto
qed

text \<open>The exact search of \<open>find_handler\<close> as a map.\<close>

definition exact_entry :: "handler_type \<Rightarrow> string \<Rightarrow> mg_handler_info list \<Rightarrow> callbacks option" where
  "exact_entry ty u rhs = map_option cbs (find (\<lambda>rh. handler_type rh = ty \<and> handler_matches 0 u rh) rhs)"

lemma exact_entry_simps [simp]:
  "exact_entry ty u [] = None"
  "exact_entry ty u (rh # rhs) = (if is_entry ty u rh then Some (cbs rh) else exact_entry ty u rhs)"
  by (auto simp: exact_entry_def handler_matches_def is_entry_def)

lemma exact_entry_append: "exact_entry ty u (a @ b) = (case exact_entry ty u a of None \<Rightarrow> exact_entry ty u b | Some c \<Rightarrow> Some c)"
  by (induction a) auto

lemma exact_entry_None: "\<forall>x \<in> set rhs. \<not> is_entry ty u x \<Longrightarrow> exact_entry ty u rhs = None"
  by (induction rhs) auto

text \<open>
  C30: the registry is a map from type and URI to callbacks. When \<open>mg_set_handler_type\<close> finishes,
  the exact search for its URI finds the callbacks just set, or nothing after a removal, and the
  exact search for any other type or URI finds what it found before.
\<close>

theorem set_handler_updates_map:
  assumes "distinct (map entry_key rhs)" "handler_args_ok ty del cb"
    and "mg_set_handler_type fresh u ty del cb rhs = Set_Done rhs'"
  shows "exact_entry ty' u' rhs' =
    (if ty' = ty \<and> u' = u
     then if del then None
          else Some (set_callbacks ty cb (case exact_entry ty u rhs of None \<Rightarrow> no_callbacks | Some c \<Rightarrow> c))
     else exact_entry ty' u' rhs)"
  using assms(3)
proof (cases rule: mg_set_handler_type_cases)
  case refused
  then show ?thesis using assms(2) by simp
next
  case (existing pre rh post)
  have post: "\<forall>x \<in> set post. \<not> is_entry ty u x"
  proof
    fix x
    assume x: "x \<in> set post"
    have "entry_key rh \<notin> entry_key ` set post" using assms(1) existing(2) by simp
    then have "entry_key x \<noteq> entry_key rh" using x by (metis image_eqI)
    then show "\<not> is_entry ty u x" using existing(3) by (auto simp: is_entry_def entry_key_def)
  qed
  have rh: "is_entry ty' u' (rh\<lparr> cbs := c \<rparr>) = is_entry ty' u' rh" "is_entry ty' u' rh = (ty' = ty \<and> u' = u)" for c
    using existing(3) by (auto simp: is_entry_def)
  show ?thesis
    using existing(2-5) rh exact_entry_None [OF existing(4)] exact_entry_None [OF post]
    by (auto simp: entry_outcome_def exact_entry_append split: if_splits option.splits)
next
  case absent
  then show ?thesis using exact_entry_None by auto
next
  case added
  then show ?thesis using exact_entry_None [OF added(3)]
    by (auto simp: exact_entry_append is_entry_def split: option.splits)
qed

lemma set_handler_updates_map_witness: "exact_entry REQUEST_HANDLER ''/a'' [example_entry] = Some (cbs example_entry)"
  using set_handler_updates_map [OF _ _ example_set [unfolded mg_set_request_handler_def], of REQUEST_HANDLER "''/a''"]
  by (simp add: handler_args_ok_def no_callbacks_def example_entry_def set_callbacks_def)

end
