(* ===== verification/Sock_Queue.thy ===== *)
theory Sock_Queue
  imports Civet_Prelude "HOL-Library.Word" "HOL-Library.Multiset"
begin

text \<open>
  The queue of accepted sockets between the master thread and the workers (\<open>src/civetweb.c\<close>,
  \<open>produce_socket\<close> and \<open>consume_socket\<close> of a build without \<open>ALTERNATIVE_QUEUE\<close>): a ring buffer
  with counters that are wrapped now and then. A section is what a thread does between taking the
  mutex, or waking up in \<open>pthread_cond_wait\<close>, and releasing it; the stop flag does not change
  inside a section. A socket is a value of any type.
\<close>

section \<open>First-in first-out queues\<close>

text \<open>The contract of a bounded queue: a view as a list, an operation for each end.\<close>

locale fifo =
  fixes inv :: "'q \<Rightarrow> bool" and items :: "'q \<Rightarrow> 'a list" and full :: "'q \<Rightarrow> bool"
    and enq :: "'a \<Rightarrow> 'q \<Rightarrow> 'q" and deq :: "'q \<Rightarrow> ('a \<times> 'q) option"
  assumes enq_items: "inv q \<Longrightarrow> \<not> full q \<Longrightarrow> items (enq x q) = items q @ [x]"
    and enq_inv: "inv q \<Longrightarrow> \<not> full q \<Longrightarrow> inv (enq x q)"
    and deq_None: "inv q \<Longrightarrow> deq q = None \<longleftrightarrow> items q = []"
    and deq_items: "inv q \<Longrightarrow> deq q = Some (x, q') \<Longrightarrow> items q = x # items q'"
    and deq_inv: "inv q \<Longrightarrow> deq q = Some (x, q') \<Longrightarrow> inv q'"
begin

lemma enq_deq: "inv q \<Longrightarrow> \<not> full q \<Longrightarrow> \<exists>y q'. deq (enq x q) = Some (y, q') \<and> y = hd (items q @ [x])"
proof -
  assume q: "inv q" "\<not> full q"
  then have "deq (enq x q) \<noteq> None" using deq_None [OF enq_inv [OF q]] enq_items [OF q] by simp
  then obtain y q' where d: "deq (enq x q) = Some (y, q')" by auto
  with deq_items [OF enq_inv [OF q] d] enq_items [OF q] show ?thesis by (metis list.sel(1))
qed

text \<open>Any run of operations; a full queue refuses, an empty one gives nothing.\<close>

fun run :: "'a option list \<Rightarrow> 'q \<Rightarrow> 'a list \<times> 'a list \<times> 'q" where
  "run [] q = ([], [], q)"
| "run (Some x # ops) q =
     (if full q then run ops q else case run ops (enq x q) of (out, acc, q') \<Rightarrow> (out, x # acc, q'))"
| "run (None # ops) q =
     (case deq q of None \<Rightarrow> run ops q | Some (x, q1) \<Rightarrow> (case run ops q1 of (out, acc, q') \<Rightarrow> (x # out, acc, q')))"

lemma run_fifo: "run ops q = (out, acc, q') \<Longrightarrow> inv q \<Longrightarrow> inv q' \<and> out @ items q' = items q @ acc"
proof (induction ops q arbitrary: out acc q' rule: run.induct)
  case (2 x ops q)
  then show ?case using enq_inv [of q x] enq_items [of q x] by (auto split: if_splits prod.splits)
next
  case (3 ops q)
  then show ?case using deq_inv [of q] deq_items [of q] by (auto split: option.splits prod.splits)
qed simp

end

section \<open>The ring buffer\<close>

record 'a sock_queue =
  squeue :: "'a list"
  sq_size :: int
  sq_head :: int
  sq_tail :: int
  sq_blocked :: bool
  sq_stop :: bool
  idle_worker_thread_count :: "32 word"

function wrap_pointers :: "'a sock_queue \<Rightarrow> 'a sock_queue" where
  "wrap_pointers ctx =
     (if sq_tail ctx > sq_size ctx \<and> sq_size ctx > 0
      then wrap_pointers (ctx\<lparr> sq_tail := sq_tail ctx - sq_size ctx, sq_head := sq_head ctx - sq_size ctx \<rparr>)
      else ctx)"
  by pat_completeness auto
termination
  by (relation "measure (\<lambda>ctx. nat (sq_tail ctx))") auto

declare wrap_pointers.simps [simp del]

definition queue_full :: "'a sock_queue \<Rightarrow> bool" where
  "queue_full ctx \<longleftrightarrow> sq_head ctx - sq_tail ctx \<ge> sq_size ctx"

definition enqueue :: "'a \<Rightarrow> 'a sock_queue \<Rightarrow> 'a sock_queue" where
  "enqueue sp ctx =
     ctx\<lparr> squeue := (squeue ctx)[nat (sq_head ctx mod sq_size ctx) := sp], sq_head := sq_head ctx + 1 \<rparr>"

definition dequeue :: "'a sock_queue \<Rightarrow> ('a \<times> 'a sock_queue) option" where
  "dequeue ctx =
     (if sq_head ctx > sq_tail ctx
      then Some (squeue ctx ! nat (sq_tail ctx mod sq_size ctx), wrap_pointers (ctx\<lparr> sq_tail := sq_tail ctx + 1 \<rparr>))
      else None)"

text \<open>
  The section of the master: \<open>False\<close> means that it waits for \<open>sq_empty\<close>; when it wakes up it
  clears \<open>sq_blocked\<close> and goes on with \<open>woken\<close> set.
\<close>

definition produce_socket :: "bool \<Rightarrow> 'a \<Rightarrow> 'a sock_queue \<Rightarrow> bool \<times> 'a sock_queue" where
  "produce_socket woken sp ctx0 =
     (let ctx = (if woken then ctx0\<lparr> sq_blocked := False \<rparr> else ctx0)
      in if \<not> sq_stop ctx \<and> queue_full ctx then (False, ctx\<lparr> sq_blocked := True \<rparr>)
         else (True, if \<not> queue_full ctx then enqueue sp ctx else ctx))"

text \<open>
  The section of a worker: the first result is \<open>None\<close> if it waits for \<open>sq_full\<close>, otherwise the
  return value and the socket taken.
\<close>

definition consume_enter :: "bool \<Rightarrow> 'a sock_queue \<Rightarrow> 'a sock_queue" where
  "consume_enter preincremented ctx =
     (if preincremented then ctx else ctx\<lparr> idle_worker_thread_count := idle_worker_thread_count ctx + 1 \<rparr>)"

definition consume_socket :: "'a sock_queue \<Rightarrow> (bool \<times> 'a option) option \<times> 'a sock_queue" where
  "consume_socket ctx =
     (if sq_head ctx = sq_tail ctx \<and> \<not> sq_stop ctx then (None, ctx)
      else case (case dequeue ctx of None \<Rightarrow> (None, ctx) | Some (sp, ctx1) \<Rightarrow> (Some sp, ctx1)) of
             (sp, ctx1) \<Rightarrow>
               (Some (\<not> sq_stop ctx, sp), ctx1\<lparr> idle_worker_thread_count := idle_worker_thread_count ctx1 - 1 \<rparr>))"

section \<open>The ring buffer is a queue\<close>

text \<open>The counters are bounded, so no index leaves the array and no counter overflows.\<close>

definition queue_inv :: "'a sock_queue \<Rightarrow> bool" where
  "queue_inv q \<longleftrightarrow> 0 < sq_size q \<and> int (length (squeue q)) = sq_size q \<and>
     0 \<le> sq_tail q \<and> sq_tail q \<le> sq_size q \<and> sq_tail q \<le> sq_head q \<and> sq_head q \<le> sq_tail q + sq_size q"

definition queue_items :: "'a sock_queue \<Rightarrow> 'a list" where
  "queue_items q = map (\<lambda>i. squeue q ! nat ((sq_tail q + int i) mod sq_size q)) [0..<nat (sq_head q - sq_tail q)]"

lemma queue_items_cong:
  assumes "squeue q' = squeue q" "sq_size q' = sq_size q" "sq_head q' - sq_tail q' = sq_head q - sq_tail q"
    "sq_tail q' mod sq_size q = sq_tail q mod sq_size q"
  shows "queue_items q' = queue_items q"
proof -
  have "(sq_tail q' + i) mod sq_size q = (sq_tail q + i) mod sq_size q" for i
    using assms(4) by (metis mod_add_left_eq)
  then show ?thesis using assms(1-3) by (simp add: queue_items_def)
qed

lemma wrap_pointers_once:
  assumes "0 < sq_size q" "sq_tail q \<le> 2 * sq_size q"
  shows "wrap_pointers q = (if sq_tail q > sq_size q
     then q\<lparr> sq_tail := sq_tail q - sq_size q, sq_head := sq_head q - sq_size q \<rparr> else q)"
proof (cases "sq_tail q > sq_size q")
  case True
  have "wrap_pointers q = wrap_pointers (q\<lparr> sq_tail := sq_tail q - sq_size q, sq_head := sq_head q - sq_size q \<rparr>)"
    using True assms(1) by (subst wrap_pointers.simps) simp
  also have "\<dots> = q\<lparr> sq_tail := sq_tail q - sq_size q, sq_head := sq_head q - sq_size q \<rparr>"
    using assms by (subst wrap_pointers.simps) simp
  finally show ?thesis using True by simp
next
  case False
  then show ?thesis by (subst wrap_pointers.simps) simp
qed

lemma enqueue_items:
  assumes inv: "queue_inv q" and room: "\<not> queue_full q"
  shows "queue_items (enqueue x q) = queue_items q @ [x]"
proof -
  let ?n = "sq_size q" and ?k = "nat (sq_head q - sq_tail q)"
  have n: "0 < ?n" "sq_tail q \<le> sq_head q" "sq_head q - sq_tail q < ?n" "int (length (squeue q)) = ?n"
    using inv room by (auto simp: queue_inv_def queue_full_def)
  have k: "nat (sq_head q + 1 - sq_tail q) = Suc ?k" using n by simp
  have pos: "nat (sq_head q mod ?n) < length (squeue q)" using n by (simp add: nat_less_iff)
  have other: "nat ((sq_tail q + int i) mod ?n) \<noteq> nat (sq_head q mod ?n)" if "i < ?k" for i
  proof
    assume "nat ((sq_tail q + int i) mod ?n) = nat (sq_head q mod ?n)"
    then have "(sq_tail q + int i) mod ?n = sq_head q mod ?n" using n(1) by (simp add: nat_eq_iff)
    then have "?n dvd (sq_head q - (sq_tail q + int i))" by (simp add: mod_eq_dvd_iff eq_commute)
    moreover have "0 < sq_head q - (sq_tail q + int i)" "sq_head q - (sq_tail q + int i) < ?n" using that n by auto
    ultimately show False using zdvd_imp_le by fastforce
  qed
  have "(squeue q)[nat (sq_head q mod ?n) := x] ! nat ((sq_tail q + int ?k) mod ?n) = x"
    using n pos by simp
  moreover have "\<forall>i \<in> {0..<?k}. (squeue q)[nat (sq_head q mod ?n) := x] ! nat ((sq_tail q + int i) mod ?n) =
      squeue q ! nat ((sq_tail q + int i) mod ?n)"
    using other by (metis atLeastLessThan_iff nth_list_update_neq)
  ultimately show ?thesis
    using k by (simp add: queue_items_def enqueue_def)
qed

lemma enqueue_inv: "queue_inv q \<Longrightarrow> \<not> queue_full q \<Longrightarrow> queue_inv (enqueue x q)"
  by (simp add: queue_inv_def enqueue_def queue_full_def)

lemma dequeue_Some:
  assumes inv: "queue_inv q" and d: "dequeue q = Some (x, q')"
  shows "queue_inv q' \<and> queue_items q = x # queue_items q'"
proof -
  let ?q = "q\<lparr> sq_tail := sq_tail q + 1 \<rparr>"
  have lt: "sq_tail q < sq_head q" and x: "x = squeue q ! nat (sq_tail q mod sq_size q)" and q': "q' = wrap_pointers ?q"
    using d by (auto simp: dequeue_def split: if_splits)
  have b: "0 < sq_size q" "0 \<le> sq_tail q" "sq_tail q \<le> sq_size q" "sq_head q \<le> sq_tail q + sq_size q"
    using inv by (auto simp: queue_inv_def)
  have w: "q' = (if sq_tail ?q > sq_size ?q then ?q\<lparr> sq_tail := sq_tail ?q - sq_size ?q, sq_head := sq_head ?q - sq_size ?q \<rparr> else ?q)"
    unfolding q' by (rule wrap_pointers_once) (use b in auto)
  have inv': "queue_inv q'" using inv lt b by (auto simp: w queue_inv_def)
  have "queue_items q' = queue_items ?q" by (rule queue_items_cong) (auto simp: w)
  also have "x # \<dots> = queue_items q"
  proof -
    have "[0..<nat (sq_head q - sq_tail q)] = 0 # map Suc [0..<nat (sq_head q - (sq_tail q + 1))]"
      using lt by (metis (no_types, opaque_lifting) Suc_nat_eq_nat_zadd1 add.commute diff_add_cancel diff_diff_eq diff_ge_0_iff_ge
          map_Suc_upt upt_conv_Cons zero_less_Suc zless_imp_add1_zle)
    then show ?thesis by (simp add: queue_items_def x add.assoc add.commute [of 1])
  qed
  finally show ?thesis using inv' by simp
qed

lemma dequeue_None: "queue_inv q \<Longrightarrow> dequeue q = None \<longleftrightarrow> queue_items q = []"
  by (simp add: dequeue_def queue_items_def)

interpretation ring: fifo queue_inv queue_items queue_full enqueue dequeue
proof unfold_locales
  show "queue_inv q \<Longrightarrow> \<not> queue_full q \<Longrightarrow> queue_items (enqueue x q) = queue_items q @ [x]" for q :: "'a sock_queue" and x
    by (rule enqueue_items)
  show "queue_inv q \<Longrightarrow> \<not> queue_full q \<Longrightarrow> queue_inv (enqueue x q)" for q :: "'a sock_queue" and x
    by (rule enqueue_inv)
  show "queue_inv q \<Longrightarrow> dequeue q = None \<longleftrightarrow> queue_items q = []" for q :: "'a sock_queue"
    by (rule dequeue_None)
  show "queue_inv q \<Longrightarrow> dequeue q = Some (x, q') \<Longrightarrow> queue_items q = x # queue_items q'" for q q' :: "'a sock_queue" and x
    by (rule dequeue_Some [THEN conjunct2])
  show "queue_inv q \<Longrightarrow> dequeue q = Some (x, q') \<Longrightarrow> queue_inv q'" for q q' :: "'a sock_queue" and x
    by (rule dequeue_Some [THEN conjunct1])
qed

section \<open>Sections of the threads\<close>

text \<open>
  The server around the ring buffer: the socket with which the master waits in \<open>produce_socket\<close>,
  the sockets accepted so far, those handed to a worker that goes on to serve them, those a worker
  took but abandons because \<open>consume_socket\<close> returned 0, and those for which \<open>produce_socket\<close> came back
  without having moved the head of the buffer.
\<close>

record 'a server_queue =
  ring :: "'a sock_queue"
  waiting :: "'a option"
  accepted :: "'a list"
  handed :: "'a list"
  abandoned :: "'a list"
  refused :: "'a list"

text \<open>
  What happens next: the master accepts a socket, which it cannot do while it waits; it wakes up;
  a worker enters \<open>consume_socket\<close>, or runs its section; the server is told to stop.
\<close>

datatype 'a queue_event = Accept 'a | Wake | Enter bool | Consume | Stop

definition master_section :: "bool \<Rightarrow> 'a \<Rightarrow> 'a server_queue \<Rightarrow> 'a server_queue" where
  "master_section woken sp s =
     (case produce_socket woken sp (ring s) of
        (finished, q) \<Rightarrow>
          s\<lparr> ring := q, waiting := (if finished then None else Some sp),
             refused := (if finished \<and> sq_head q = sq_head (ring s) then refused s @ [sp] else refused s) \<rparr>)"

fun queue_step :: "'a queue_event \<Rightarrow> 'a server_queue \<Rightarrow> 'a server_queue" where
  "queue_step (Accept sp) s =
     (if waiting s = None then master_section False sp (s\<lparr> accepted := accepted s @ [sp] \<rparr>) else s)"
| "queue_step Wake s = (case waiting s of None \<Rightarrow> s | Some sp \<Rightarrow> master_section True sp s)"
| "queue_step (Enter pre) s = s\<lparr> ring := consume_enter pre (ring s) \<rparr>"
| "queue_step Consume s =
     (case consume_socket (ring s) of
        (Some (True, Some sp), q) \<Rightarrow> s\<lparr> ring := q, handed := handed s @ [sp] \<rparr>
      | (Some (False, Some sp), q) \<Rightarrow> s\<lparr> ring := q, abandoned := abandoned s @ [sp] \<rparr>
      | (_, q) \<Rightarrow> s\<lparr> ring := q \<rparr>)"
| "queue_step Stop s = s\<lparr> ring := (ring s)\<lparr> sq_stop := True \<rparr> \<rparr>"

lemma queue_flags [simp]:
  "queue_inv (q\<lparr> sq_blocked := b \<rparr>) = queue_inv q" "queue_items (q\<lparr> sq_blocked := b \<rparr>) = queue_items q"
  "queue_inv (q\<lparr> sq_stop := b \<rparr>) = queue_inv q" "queue_items (q\<lparr> sq_stop := b \<rparr>) = queue_items q"
  "queue_inv (q\<lparr> idle_worker_thread_count := k \<rparr>) = queue_inv q"
  "queue_items (q\<lparr> idle_worker_thread_count := k \<rparr>) = queue_items q"
  "queue_full (q\<lparr> sq_blocked := b \<rparr>) = queue_full q"
  by (simp_all add: queue_inv_def queue_items_def queue_full_def)

lemma produce_section:
  assumes "queue_inv q"
  shows "queue_inv (snd (produce_socket woken sp q)) \<and> sq_stop (snd (produce_socket woken sp q)) = sq_stop q \<and>
    (if queue_full q
     then fst (produce_socket woken sp q) = sq_stop q \<and> sq_head (snd (produce_socket woken sp q)) = sq_head q \<and>
       queue_items (snd (produce_socket woken sp q)) = queue_items q
     else fst (produce_socket woken sp q) \<and> sq_head (snd (produce_socket woken sp q)) = sq_head q + 1 \<and>
       queue_items (snd (produce_socket woken sp q)) = queue_items q @ [sp])"
  using assms ring.enq_inv [of "if woken then q\<lparr> sq_blocked := False \<rparr> else q" sp]
    ring.enq_items [of "if woken then q\<lparr> sq_blocked := False \<rparr> else q" sp]
  by (auto simp: produce_socket_def Let_def) (auto simp: enqueue_def)

lemma wrap_pointers_stop [simp]: "sq_stop (wrap_pointers q) = sq_stop q"
  by (induction q rule: wrap_pointers.induct) (subst wrap_pointers.simps, simp)

lemma dequeue_stop: "dequeue q = Some (sp, q') \<Longrightarrow> sq_stop q' = sq_stop q"
  by (auto simp: dequeue_def split: if_splits)

lemma consume_section:
  assumes "queue_inv q" "consume_socket q = (r, q')"
  shows "queue_inv q' \<and> sq_stop q' = sq_stop q \<and> queue_items q = (case r of Some (_, Some sp) \<Rightarrow> [sp] | _ \<Rightarrow> []) @ queue_items q' \<and>
    (\<forall>b x. r = Some (b, x) \<longrightarrow> b = (\<not> sq_stop q))"
proof (cases "dequeue q")
  case None
  then show ?thesis using assms by (auto simp: consume_socket_def split: if_splits)
next
  case (Some d)
  then obtain sp q1 where d: "dequeue q = Some (sp, q1)" by (cases d) auto
  then have "sq_head q \<noteq> sq_tail q" by (auto simp: dequeue_def split: if_splits)
  moreover have "sq_stop q1 = sq_stop q" using d dequeue_stop by metis
  ultimately show ?thesis using assms d ring.deq_items [OF assms(1) d] ring.deq_inv [OF assms(1) d]
    by (auto simp: consume_socket_def)
qed

definition waiting_list :: "'a server_queue \<Rightarrow> 'a list" where
  "waiting_list s = (case waiting s of None \<Rightarrow> [] | Some sp \<Rightarrow> [sp])"

text \<open>Every accepted socket is in one place; before the server stops, in the order of the queue.\<close>

definition server_inv :: "'a server_queue \<Rightarrow> bool" where
  "server_inv s \<longleftrightarrow> queue_inv (ring s) \<and>
     mset (accepted s) = mset (handed s) + mset (abandoned s) + mset (refused s) + mset (queue_items (ring s)) + mset (waiting_list s) \<and>
     (\<not> sq_stop (ring s) \<longrightarrow> handed s @ queue_items (ring s) @ waiting_list s = accepted s \<and> abandoned s = [] \<and> refused s = [])"

lemma master_section_inv:
  assumes "queue_inv (ring s)" "waiting_list s0 = [sp]" "server_inv s0" "ring s0 = ring s" "accepted s0 = accepted s"
    "handed s0 = handed s" "abandoned s0 = abandoned s" "refused s0 = refused s"
  shows "server_inv (master_section woken sp s)"
proof -
  obtain fin q where p: "produce_socket woken sp (ring s) = (fin, q)" by fastforce
  note q = produce_section [OF assms(1), of woken sp, unfolded p fst_conv snd_conv]
  show ?thesis
    using assms q by (cases "queue_full (ring s)"; cases "sq_stop (ring s)")
      (auto simp: server_inv_def master_section_def p waiting_list_def)
qed

lemma queue_step_inv:
  assumes i: "server_inv s"
  shows "server_inv (queue_step e s)"
proof (cases e)
  case (Accept sp)
  show ?thesis
  proof (cases "waiting s")
    case None
    define s0 where "s0 = s\<lparr> accepted := accepted s @ [sp], waiting := Some sp \<rparr>"
    have "server_inv s0" using i None by (auto simp: server_inv_def s0_def waiting_list_def)
    then have "server_inv (master_section False sp (s\<lparr> accepted := accepted s @ [sp] \<rparr>))"
      using i by (intro master_section_inv [of _ s0]) (simp_all add: s0_def waiting_list_def server_inv_def)
    then show ?thesis using Accept None by simp
  qed (use Accept i in simp)
next
  case Wake
  show ?thesis
  proof (cases "waiting s")
    case (Some sp)
    have "server_inv (master_section True sp s)"
      using i Some by (intro master_section_inv [of _ s]) (simp_all add: waiting_list_def server_inv_def)
    then show ?thesis using Wake Some by simp
  qed (use Wake i in simp)
next
  case (Enter pre)
  then show ?thesis using i by (auto simp: server_inv_def consume_enter_def waiting_list_def)
next
  case Consume
  obtain r q where c: "consume_socket (ring s) = (r, q)" by fastforce
  have qi: "queue_inv (ring s)" using i by (simp add: server_inv_def)
  note k = consume_section [OF qi c]
  show ?thesis
  proof (cases "\<exists>b sp. r = Some (b, Some sp)")
    case True
    then obtain b sp where r: "r = Some (b, Some sp)" by blast
    then show ?thesis using Consume c k i by (cases b) (auto simp: server_inv_def waiting_list_def)
  next
    case False
    then have "queue_step Consume s = s\<lparr> ring := q \<rparr>" "queue_items (ring s) = queue_items q"
      using c k by (auto split: option.splits prod.splits bool.splits)
    then show ?thesis using Consume k i by (auto simp: server_inv_def waiting_list_def)
  qed
next
  case Stop
  then show ?thesis using i by (auto simp: server_inv_def waiting_list_def)
qed

text \<open>An empty queue, as \<open>mg_start\<close> sets it up; the contents of the array do not matter.\<close>

definition empty_queue :: "'a list \<Rightarrow> 'a sock_queue" where
  "empty_queue buf = \<lparr> squeue = buf, sq_size = int (length buf), sq_head = 0, sq_tail = 0, sq_blocked = False,
     sq_stop = False, idle_worker_thread_count = 0 \<rparr>"

definition start_queue :: "'a list \<Rightarrow> 'a server_queue" where
  "start_queue buf = \<lparr> ring = empty_queue buf, waiting = None, accepted = [], handed = [], abandoned = [], refused = [] \<rparr>"

section \<open>Properties\<close>

text \<open>
  C31: until the server is stopped, the accepted sockets reach the workers in the order in which
  they were accepted, none lost and none twice. Whatever sections the threads execute, in any order,
  the sockets handed to workers, those in the ring buffer and the one the master waits with are
  exactly the sockets accepted. When the server stops, every socket is still in one place only: handed
  out, in the buffer, with the waiting master, taken by a worker that abandons it, or refused by
  the full buffer. The counters stay inside their bounds, so the array is not overrun although they are
  wrapped only from time to time.
\<close>

theorem socket_queue_fifo:
  assumes "s = fold queue_step es (start_queue buf)" "buf \<noteq> []"
  shows "(\<not> sq_stop (ring s) \<longrightarrow> handed s @ queue_items (ring s) @ waiting_list s = accepted s) \<and>
    mset (accepted s) = mset (handed s) + mset (abandoned s) + mset (refused s) + mset (queue_items (ring s)) + mset (waiting_list s) \<and>
    0 \<le> sq_tail (ring s) \<and> sq_tail (ring s) \<le> sq_head (ring s) \<and> sq_head (ring s) \<le> 2 * int (length (squeue (ring s))) \<and>
    length (queue_items (ring s)) \<le> length (squeue (ring s))"
proof -
  have "server_inv (start_queue buf)" using assms(2)
    by (auto simp: server_inv_def queue_inv_def start_queue_def empty_queue_def queue_items_def waiting_list_def)
  then have "server_inv (fold queue_step es (start_queue buf))" by (induction es arbitrary: buf rule: rev_induct) (simp_all add: queue_step_inv)
  then show ?thesis using assms(1) by (auto simp: server_inv_def queue_inv_def queue_items_def)
qed

definition queue_example :: "nat server_queue" where
  "queue_example = fold queue_step [Accept 1, Accept 2, Accept 3, Consume, Wake, Consume, Accept 4] (start_queue [0, 0])"

lemma socket_queue_fifo_witness:
  "\<not> sq_stop (ring queue_example) \<and> handed queue_example = [1, 2] \<and> [1, 2] @ queue_items (ring queue_example) @ waiting_list queue_example = [1, 2, 3, 4]"
proof -
  have e: "\<not> sq_stop (ring queue_example)" "handed queue_example = [1, 2]" "accepted queue_example = [1, 2, 3, 4]"
    by code_simp+
  show ?thesis using socket_queue_fifo [OF queue_example_def] e by simp
qed

text \<open>While the server stops, a worker that still finds a socket takes it out and returns 0.\<close>

lemma stopping_drops_socket:
  "sq_stop q \<Longrightarrow> dequeue q = Some (sp, q1) \<Longrightarrow>
     consume_socket q = (Some (False, Some sp), q1\<lparr> idle_worker_thread_count := idle_worker_thread_count q1 - 1 \<rparr>)"
  by (simp add: consume_socket_def)

end
