(* ===== verification/Hash_Blocks.thy ===== *)
theory Hash_Blocks
  imports Civet_Prelude "HOL-Library.Word"
begin

unbundle bit_operations_syntax

text \<open>
  What the hash functions of \<open>src/sha1.inl\<close> and \<open>src/md5.inl\<close> share: bytes and words, a message cut
  into blocks of 64 bytes, and the contract of a context that is fed piece by piece.
\<close>

section \<open>Bytes and words\<close>

type_synonym byte = "8 word"

definition rol :: "32 word \<Rightarrow> nat \<Rightarrow> 32 word" where
  "rol v bits = (push_bit bits v OR drop_bit (32 - bits) v)"

text \<open>The word at index \<open>i\<close> of an array of bytes, as a little-endian machine reads it.\<close>

definition le_word :: "byte list \<Rightarrow> nat \<Rightarrow> 32 word" where
  "le_word bs i = (ucast (bs ! (4 * i)) OR push_bit 8 (ucast (bs ! (4 * i + 1))) OR
     push_bit 16 (ucast (bs ! (4 * i + 2))) OR push_bit 24 (ucast (bs ! (4 * i + 3))))"

definition be_word :: "byte list \<Rightarrow> nat \<Rightarrow> 32 word" where
  "be_word bs i = (push_bit 24 (ucast (bs ! (4 * i))) OR push_bit 16 (ucast (bs ! (4 * i + 1))) OR
     push_bit 8 (ucast (bs ! (4 * i + 2))) OR ucast (bs ! (4 * i + 3)))"

lemma byte_high: "8 \<le> n \<Longrightarrow> \<not> bit (b :: byte) n"
  using bit_imp_le_length [of b n] by auto

lemma below_32:
  fixes n :: nat
  assumes "n < 32" "\<And>k. k < 8 \<Longrightarrow> P k" "\<And>k. k < 8 \<Longrightarrow> P (8 + k)" "\<And>k. k < 8 \<Longrightarrow> P (16 + k)" "\<And>k. k < 8 \<Longrightarrow> P (24 + k)"
  shows "P n"
  using assms(2) [of n] assms(3) [of "n - 8"] assms(4) [of "n - 16"] assms(5) [of "n - 24"] assms(1)
  by (cases "n < 8"; cases "n < 16"; cases "n < 24") auto

lemma below_8: "(k :: nat) < 8 \<Longrightarrow> k = 0 \<or> k = 1 \<or> k = 2 \<or> k = 3 \<or> k = 4 \<or> k = 5 \<or> k = 6 \<or> k = 7"
  by linarith

lemma byte_swap:
  "((rol (le_word bs i) 24 AND 0xFF00FF00) OR (rol (le_word bs i) 8 AND 0x00FF00FF)) = be_word bs i"
proof (rule bit_word_eqI)
  fix n assume "n < LENGTH(32)"
  then have "n < 32" by simp
  then show "bit ((rol (le_word bs i) 24 AND 0xFF00FF00) OR (rol (le_word bs i) 8 AND 0x00FF00FF)) n = bit (be_word bs i) n"
    unfolding rol_def le_word_def be_word_def
    by (rule below_32 [where n = n]) (auto dest!: below_8 simp: bit_simps byte_high)
qed

lemma take_bit_unat: "take_bit 32 (unat (w :: 32 word)) = unat w"
  using unsigned_less [of w, where 'a = nat] by (simp add: take_bit_nat_eq_self_iff)

lemma mask_byte: "(ucast (x AND 255 :: 32 word) :: byte) = ucast x"
proof -
  have m: "(255 :: 32 word) = mask 8" by (simp add: mask_eq_exp_minus_1)
  show ?thesis unfolding m by (rule bit_word_eqI) (auto simp: bit_simps)
qed

lemma byte_of: "(ucast (drop_bit k (w :: 32 word)) :: byte) = of_nat (unat w div 2 ^ k)"
proof -
  have "(ucast (drop_bit k w) :: byte) = of_nat (unat (drop_bit k w))" by simp
  also have "unat (drop_bit k w) = unat w div 2 ^ k" 
    unfolding unsigned_drop_bit_eq by (simp add: take_bit_unat drop_bit_eq_div)
  finally show ?thesis .
qed

section \<open>Blocks of a message\<close>

function blocks :: "'a list \<Rightarrow> 'a list list" where
  "blocks m = (if length m < 64 then [] else take 64 m # blocks (drop 64 m))"
  by pat_completeness auto
termination
  by (relation "measure length") auto

declare blocks.simps [simp del]

definition tail :: "'a list \<Rightarrow> 'a list" where
  "tail m = drop (64 * (length m div 64)) m"

lemma length_tail: "length (tail m) = length m mod 64"
  by (simp add: tail_def minus_mult_div_eq_mod)

lemma blocks_short [simp]: "length m < 64 \<Longrightarrow> blocks m = []"
  by (simp add: blocks.simps)

lemma tail_short [simp]: "length m < 64 \<Longrightarrow> tail m = m"
  by (simp add: tail_def)

lemma blocks_block: "length b = 64 \<Longrightarrow> blocks (b @ m) = b # blocks m"
  by (subst blocks.simps) simp

lemma tail_block: "length b = 64 \<Longrightarrow> tail (b @ m) = tail m"
  using div_add_self1 [of 64 "length m"] by (simp add: tail_def)

lemma block_induct [case_names Short Block]:
  assumes "\<And>m. length m < 64 \<Longrightarrow> P m" "\<And>b m. length b = 64 \<Longrightarrow> P m \<Longrightarrow> P (b @ m)"
  shows "P (m :: 'a list)"
proof (induction m rule: length_induct)
  case (1 m)
  show ?case
  proof (cases "length m < 64")
    case False
    then have "P (drop 64 m)" using 1 by simp
    with False show ?thesis using assms(2) [of "take 64 m" "drop 64 m"] by simp
  qed (rule assms(1))
qed

text \<open>Appending data: only the tail of what came before matters.\<close>

lemma blocks_append: "blocks (m @ d) = blocks m @ blocks (tail m @ d)"
  by (induction m rule: block_induct) (simp_all add: blocks_block tail_block)

lemma tail_append: "tail (m @ d) = tail (tail m @ d)"
  by (induction m rule: block_induct) (simp_all add: blocks_block tail_block)

section \<open>The number of bits\<close>

definition bit_count :: "32 word \<Rightarrow> 32 word \<Rightarrow> nat" where
  "bit_count c0 c1 = unat c0 + 2 ^ 32 * unat c1"

lemma add_with_carry:
  fixes x y :: "32 word"
  shows "(x + y < x) = (2 ^ 32 \<le> unat x + unat y)" "(x + y < y) = (2 ^ 32 \<le> unat x + unat y)"
    "unat (x + y) = (unat x + unat y) mod 2 ^ 32"
proof -
  have s: "unat (x + y) = (unat x + unat y) mod 2 ^ 32" by (simp add: unat_word_ariths)
  have "unat x < 2 ^ 32" "unat y < 2 ^ 32" using unsigned_less [of x] unsigned_less [of y] by simp_all
  then show "(x + y < x) = (2 ^ 32 \<le> unat x + unat y)" "(x + y < y) = (2 ^ 32 \<le> unat x + unat y)"
    by (auto simp: word_less_nat_alt s mod_if)
  show "unat (x + y) = (unat x + unat y) mod 2 ^ 32" by (rule s)
qed

lemma two_digits: "0 < B \<Longrightarrow> (a + B * b) mod (B * B) = B * ((b + a div B) mod B) + a mod B" for a b B :: nat
  by (simp add: mod_mult2_eq add.commute)

lemma bit_count_add:
  assumes "unat x = 8 * n mod 2 ^ 32" "unat y = 8 * n div 2 ^ 32 mod 2 ^ 32"
  shows "bit_count (c0 + x) (c1 + (if c0 + x < c0 then 1 else 0) + y) = (bit_count c0 c1 + 8 * n) mod 2 ^ 64"
proof -
  let ?B = "2 ^ 32 :: nat" and ?q = "8 * n div 2 ^ 32"
  have n: "8 * n = unat x + ?B * ?q" unfolding assms(1) by (rule mod_mult_div_eq [symmetric])
  have "unat c0 < ?B" "unat x < ?B" using unsigned_less [of c0] unsigned_less [of x] by simp_all
  then have carry: "(unat c0 + unat x) div ?B = (if c0 + x < c0 then 1 else 0)"
    by (auto simp: add_with_carry div_nat_eqI)
  have "unat (c1 + (if c0 + x < c0 then 1 else 0) + y) = (unat c1 + (unat c0 + unat x) div ?B + ?q) mod ?B"
    using carry by (simp add: unat_word_ariths assms(2) mod_simps split: if_splits)
  moreover have "bit_count c0 c1 + 8 * n = unat c0 + unat x + ?B * (unat c1 + ?q)"
    unfolding bit_count_def by (subst n) (simp add: algebra_simps)
  moreover note two_digits [of ?B "unat c0 + unat x" "unat c1 + ?q"]
  ultimately show ?thesis
    by (simp add: bit_count_def add_with_carry add_ac)
qed

lemma word_lengths:
  assumes "n < 2 ^ 32"
  shows "unat (push_bit 3 (of_nat n :: 32 word)) = 8 * n mod 2 ^ 32" "unat (drop_bit 29 (of_nat n :: 32 word)) = 8 * n div 2 ^ 32 mod 2 ^ 32"
    "unat (of_nat n :: 32 word) = n"
proof -
  have n: "unat (of_nat n :: 32 word) = n" using assms by (simp add: unat_of_nat)
  then show "unat (of_nat n :: 32 word) = n" .
  show "unat (push_bit 3 (of_nat n :: 32 word)) = 8 * n mod 2 ^ 32"
    by (simp add: push_bit_eq_mult unat_word_ariths n mult.commute)
  have "8 * n div 2 ^ 32 = n div 2 ^ 29" by simp
  moreover have "n div 2 ^ 29 < 2 ^ 32" using assms by (simp add: div_less_iff_less_mult)
  moreover have "unat (drop_bit 29 (of_nat n :: 32 word)) = drop_bit 29 (take_bit 32 n)"
    unfolding unsigned_drop_bit_eq n by simp
  ultimately show "unat (drop_bit 29 (of_nat n :: 32 word)) = 8 * n div 2 ^ 32 mod 2 ^ 32"
    using assms by (simp add: drop_bit_eq_div take_bit_nat_eq_self)
qed

lemma count_bytes:
  assumes "bit_count c0 c1 = 8 * n mod 2 ^ 64"
  shows "unat c0 div 8 mod 64 = n mod 64" "unat (drop_bit 3 c0 AND 63) = n mod 64"
proof -
  have "unat c0 = bit_count c0 c1 mod 2 ^ 32"
    using unsigned_less [of c0, where 'a = nat] by (simp add: bit_count_def)
  also have "\<dots> = 8 * n mod (8 * 2 ^ 29)" unfolding assms by (simp add: mod_mod_cancel)
  finally show c0: "unat c0 div 8 mod 64 = n mod 64" unfolding mod_mult_mult1 by (simp add: mod_mod_cancel)
  have m: "(63 :: 32 word) = mask 6" by (simp add: mask_eq_exp_minus_1)
  have "unat (drop_bit 3 c0 AND 63) = take_bit 6 (drop_bit 3 (unat c0))"
    unfolding m take_bit_eq_mask [symmetric] unsigned_take_bit_eq unsigned_drop_bit_eq by (simp add: take_bit_unat)
  then show "unat (drop_bit 3 c0 AND 63) = n mod 64" using c0 by (simp add: take_bit_eq_mod drop_bit_eq_div)
qed

text \<open>The counter as bytes.\<close>

definition word_bytes :: "32 word \<Rightarrow> byte list" where
  "word_bytes w = [ucast (drop_bit 24 w), ucast (drop_bit 16 w), ucast (drop_bit 8 w), ucast w]"

definition be_bytes64 :: "nat \<Rightarrow> byte list" where
  "be_bytes64 n = map (\<lambda>i. of_nat (n div 256 ^ (7 - i))) [0..<8]"

lemma counter_bytes:
  "map (\<lambda>i. of_nat ((unat c0 + 2 ^ 32 * unat c1) div 256 ^ (7 - i)) :: byte) [0..<8] =
   [ucast (drop_bit 24 (c1 :: 32 word)), ucast (drop_bit 16 c1), ucast (drop_bit 8 c1), ucast c1,
    ucast (drop_bit 24 (c0 :: 32 word)), ucast (drop_bit 16 c0), ucast (drop_bit 8 c0), ucast c0]"
proof -
  have c0: "unat c0 < 2 ^ 32" using unsigned_less [of c0, where 'a = nat] by simp
  have high: "(unat c0 + 2 ^ 32 * unat c1) div (2 ^ 32 * k) = unat c1 div k" for k
    using c0 by (simp add: div_mult2_eq)
  have low: "(of_nat ((unat c0 + 2 ^ 32 * unat c1) div 2 ^ k) :: byte) = of_nat (unat c0 div 2 ^ k)" if "k \<le> 24" for k
  proof -
    have "(2 :: nat) ^ k * 2 ^ (24 - k) = 2 ^ 24" using that by (simp flip: power_add)
    then have e: "(2 :: nat) ^ 32 = 2 ^ k * (2 ^ (24 - k) * 256)" by simp
    have "unat c0 + 2 ^ 32 * unat c1 = unat c0 + 2 ^ k * (2 ^ (24 - k) * 256 * unat c1)"
      unfolding e by simp
    then have "(unat c0 + 2 ^ 32 * unat c1) div 2 ^ k = unat c0 div 2 ^ k + 256 * (2 ^ (24 - k) * unat c1)"
      by (simp only: div_mult_self2) simp
    moreover have "(of_nat (256 * x) :: byte) = 0" for x unfolding word_of_nat_eq_0_iff by simp
    ultimately show ?thesis by (simp only: of_nat_add add_0_right)
  qed
  have "[0..<8] = [0, 1, 2, 3, 4, 5, 6, 7]" by (simp add: upt_rec)
  then show ?thesis using high [of "2 ^ 24"] high [of "2 ^ 16"] high [of "2 ^ 8"] high [of 1] low [of 24] low [of 16] low [of 8] low [of 0]
      byte_of [of 24] byte_of [of 16] byte_of [of 8] byte_of [of 0] by simp
qed

section \<open>Contexts\<close>

text \<open>
  The contract: \<open>repr c m\<close> says that the context \<open>c\<close> has taken in the message \<open>m\<close>; \<open>fits d\<close> are the
  pieces the update accepts.
\<close>

locale hash_context =
  fixes repr :: "'c \<Rightarrow> byte list \<Rightarrow> bool" and fits :: "byte list \<Rightarrow> bool" and update :: "byte list \<Rightarrow> 'c \<Rightarrow> 'c"
  assumes repr_update: "repr c m \<Longrightarrow> fits d \<Longrightarrow> repr (update d c) (m @ d)"
begin

lemma repr_updates: "repr c m \<Longrightarrow> list_all fits ds \<Longrightarrow> repr (fold update ds c) (m @ concat ds)"
  proof (induction ds arbitrary: c m)
  case (Cons d ds)
  then have "repr (update d c) (m @ d)" by (simp add: repr_update)
  with Cons.IH [OF this] Cons.prems show ?case by simp
qed simp

end

end
