(* ===== verification/Sha1.thy ===== *)
theory Sha1
  imports Hash_Blocks
begin

unbundle bit_operations_syntax

text \<open>
  SHA-1 of \<open>src/sha1.inl\<close>, as a little-endian machine executes it: the unrolled rounds over five
  registers in turn and a schedule that is expanded in place, the context with its buffer and bit
  counter. It is compared with the algorithm of FIPS 180.
\<close>

section \<open>One block\<close>

datatype sha_op = R0 | R1 | R2 | R3 | R4

definition blk0 :: "nat \<Rightarrow> 32 word list \<Rightarrow> 32 word \<times> 32 word list" where
  "blk0 i block =
     (let v = (rol (block ! i) 24 AND 0xFF00FF00) OR (rol (block ! i) 8 AND 0x00FF00FF) in (v, block[i := v]))"

definition blk :: "nat \<Rightarrow> 32 word list \<Rightarrow> 32 word \<times> 32 word list" where
  "blk i block =
     (let v = rol (block ! ((i + 13) AND 15) XOR block ! ((i + 8) AND 15) XOR block ! ((i + 2) AND 15) XOR
                   block ! (i AND 15)) 1
      in (v, block[i AND 15 := v]))"

definition sha_mix :: "sha_op \<Rightarrow> 32 word \<Rightarrow> 32 word \<Rightarrow> 32 word \<Rightarrow> 32 word" where
  "sha_mix op w x y =
     (case op of R0 \<Rightarrow> (w AND (x XOR y)) XOR y | R1 \<Rightarrow> (w AND (x XOR y)) XOR y | R2 \<Rightarrow> w XOR x XOR y
       | R3 \<Rightarrow> ((w OR x) AND y) OR (w AND x) | R4 \<Rightarrow> w XOR x XOR y)"

definition sha_const :: "sha_op \<Rightarrow> 32 word" where
  "sha_const op =
     (case op of R0 \<Rightarrow> 0x5A827999 | R1 \<Rightarrow> 0x5A827999 | R2 \<Rightarrow> 0x6ED9EBA1 | R3 \<Rightarrow> 0x8F1BBCDC | R4 \<Rightarrow> 0xCA62C1D6)"

text \<open>A macro call: the operation, the registers of \<open>v w x y z\<close> (\<open>a\<close> to \<open>e\<close> are 0 to 4) and \<open>i\<close>.\<close>

type_synonym sha_call = "sha_op \<times> nat \<times> nat \<times> nat \<times> nat \<times> nat \<times> nat"

definition sha_round :: "sha_call \<Rightarrow> 32 word list \<times> 32 word list \<Rightarrow> 32 word list \<times> 32 word list" where
  "sha_round call st =
     (case call of (op, v, w, x, y, z, i) \<Rightarrow> case st of (r, block) \<Rightarrow>
        case (if op = R0 then blk0 i block else blk i block) of (b, block') \<Rightarrow>
          let r1 = r[z := r ! z + (sha_mix op (r ! w) (r ! x) (r ! y) + b + sha_const op + rol (r ! v) 5)]
          in (r1[w := rol (r1 ! w) 30], block'))"

definition sha_calls :: "sha_call list" where
  "sha_calls = [
     (R0, 0, 1, 2, 3, 4, 0), (R0, 4, 0, 1, 2, 3, 1), (R0, 3, 4, 0, 1, 2, 2), (R0, 2, 3, 4, 0, 1, 3),
     (R0, 1, 2, 3, 4, 0, 4), (R0, 0, 1, 2, 3, 4, 5), (R0, 4, 0, 1, 2, 3, 6), (R0, 3, 4, 0, 1, 2, 7),
     (R0, 2, 3, 4, 0, 1, 8), (R0, 1, 2, 3, 4, 0, 9), (R0, 0, 1, 2, 3, 4, 10), (R0, 4, 0, 1, 2, 3, 11),
     (R0, 3, 4, 0, 1, 2, 12), (R0, 2, 3, 4, 0, 1, 13), (R0, 1, 2, 3, 4, 0, 14), (R0, 0, 1, 2, 3, 4, 15),
     (R1, 4, 0, 1, 2, 3, 16), (R1, 3, 4, 0, 1, 2, 17), (R1, 2, 3, 4, 0, 1, 18), (R1, 1, 2, 3, 4, 0, 19),
     (R2, 0, 1, 2, 3, 4, 20), (R2, 4, 0, 1, 2, 3, 21), (R2, 3, 4, 0, 1, 2, 22), (R2, 2, 3, 4, 0, 1, 23),
     (R2, 1, 2, 3, 4, 0, 24), (R2, 0, 1, 2, 3, 4, 25), (R2, 4, 0, 1, 2, 3, 26), (R2, 3, 4, 0, 1, 2, 27),
     (R2, 2, 3, 4, 0, 1, 28), (R2, 1, 2, 3, 4, 0, 29), (R2, 0, 1, 2, 3, 4, 30), (R2, 4, 0, 1, 2, 3, 31),
     (R2, 3, 4, 0, 1, 2, 32), (R2, 2, 3, 4, 0, 1, 33), (R2, 1, 2, 3, 4, 0, 34), (R2, 0, 1, 2, 3, 4, 35),
     (R2, 4, 0, 1, 2, 3, 36), (R2, 3, 4, 0, 1, 2, 37), (R2, 2, 3, 4, 0, 1, 38), (R2, 1, 2, 3, 4, 0, 39),
     (R3, 0, 1, 2, 3, 4, 40), (R3, 4, 0, 1, 2, 3, 41), (R3, 3, 4, 0, 1, 2, 42), (R3, 2, 3, 4, 0, 1, 43),
     (R3, 1, 2, 3, 4, 0, 44), (R3, 0, 1, 2, 3, 4, 45), (R3, 4, 0, 1, 2, 3, 46), (R3, 3, 4, 0, 1, 2, 47),
     (R3, 2, 3, 4, 0, 1, 48), (R3, 1, 2, 3, 4, 0, 49), (R3, 0, 1, 2, 3, 4, 50), (R3, 4, 0, 1, 2, 3, 51),
     (R3, 3, 4, 0, 1, 2, 52), (R3, 2, 3, 4, 0, 1, 53), (R3, 1, 2, 3, 4, 0, 54), (R3, 0, 1, 2, 3, 4, 55),
     (R3, 4, 0, 1, 2, 3, 56), (R3, 3, 4, 0, 1, 2, 57), (R3, 2, 3, 4, 0, 1, 58), (R3, 1, 2, 3, 4, 0, 59),
     (R4, 0, 1, 2, 3, 4, 60), (R4, 4, 0, 1, 2, 3, 61), (R4, 3, 4, 0, 1, 2, 62), (R4, 2, 3, 4, 0, 1, 63),
     (R4, 1, 2, 3, 4, 0, 64), (R4, 0, 1, 2, 3, 4, 65), (R4, 4, 0, 1, 2, 3, 66), (R4, 3, 4, 0, 1, 2, 67),
     (R4, 2, 3, 4, 0, 1, 68), (R4, 1, 2, 3, 4, 0, 69), (R4, 0, 1, 2, 3, 4, 70), (R4, 4, 0, 1, 2, 3, 71),
     (R4, 3, 4, 0, 1, 2, 72), (R4, 2, 3, 4, 0, 1, 73), (R4, 1, 2, 3, 4, 0, 74), (R4, 0, 1, 2, 3, 4, 75),
     (R4, 4, 0, 1, 2, 3, 76), (R4, 3, 4, 0, 1, 2, 77), (R4, 2, 3, 4, 0, 1, 78), (R4, 1, 2, 3, 4, 0, 79)]"

definition SHA1_Transform :: "32 word list \<Rightarrow> byte list \<Rightarrow> 32 word list" where
  "SHA1_Transform st buffer =
     (let block = map (le_word buffer) [0..<16]; r = fst (fold sha_round sha_calls (st, block)) in map2 (+) st r)"

section \<open>The algorithm of the standard\<close>

fun schedule :: "byte list \<Rightarrow> nat \<Rightarrow> 32 word" where
  "schedule M t =
     (if t < 16 then be_word M t
      else rol (schedule M (t - 3) XOR schedule M (t - 8) XOR schedule M (t - 14) XOR schedule M (t - 16)) 1)"

declare schedule.simps [simp del]

definition fips_f :: "nat \<Rightarrow> 32 word \<Rightarrow> 32 word \<Rightarrow> 32 word \<Rightarrow> 32 word" where
  "fips_f t x y z =
     (if t < 20 then (x AND y) XOR (NOT x AND z) else if t < 40 then x XOR y XOR z
      else if t < 60 then (x AND y) XOR (x AND z) XOR (y AND z) else x XOR y XOR z)"

definition fips_K :: "nat \<Rightarrow> 32 word" where
  "fips_K t = (if t < 20 then 0x5A827999 else if t < 40 then 0x6ED9EBA1 else if t < 60 then 0x8F1BBCDC else 0xCA62C1D6)"

type_synonym registers = "32 word \<times> 32 word \<times> 32 word \<times> 32 word \<times> 32 word"

definition fips_step :: "byte list \<Rightarrow> nat \<Rightarrow> registers \<Rightarrow> registers" where
  "fips_step M t r =
     (case r of (a, b, c, d, e) \<Rightarrow> (rol a 5 + fips_f t b c d + e + fips_K t + schedule M t, a, rol b 30, c, d))"

definition fips_block :: "registers \<Rightarrow> byte list \<Rightarrow> registers" where
  "fips_block h M =
     (case h of (h0, h1, h2, h3, h4) \<Rightarrow> case fold (fips_step M) [0..<80] h of (a, b, c, d, e) \<Rightarrow>
        (h0 + a, h1 + b, h2 + c, h3 + d, h4 + e))"

section \<open>The rounds\<close>

lemma sha_mix_fips:
  "sha_mix (if t < 16 then R0 else if t < 20 then R1 else if t < 40 then R2 else if t < 60 then R3 else R4) x y z = fips_f t x y z"
  by (rule bit_word_eqI) (auto simp: sha_mix_def fips_f_def bit_simps)

lemma sha_const_fips:
  "sha_const (if t < 16 then R0 else if t < 20 then R1 else if t < 40 then R2 else if t < 60 then R3 else R4) = fips_K t"
  by (simp add: sha_const_def fips_K_def)

text \<open>The 80 macro calls follow one scheme.\<close>

definition call_scheme :: "nat \<Rightarrow> sha_call" where
  "call_scheme t =
     (if t < 16 then R0 else if t < 20 then R1 else if t < 40 then R2 else if t < 60 then R3 else R4,
      4 * t mod 5, (4 * t + 1) mod 5, (4 * t + 2) mod 5, (4 * t + 3) mod 5, (4 * t + 4) mod 5, t)"

lemma sha_calls_scheme: "sha_calls = map call_scheme [0..<80]"
  by code_simp

text \<open>
  After \<open>t\<close> calls the registers have turned \<open>t\<close> places, and the array holds the sixteen words of
  the schedule that are needed next, not yet swapped where they were not used.
\<close>

definition turned :: "nat \<Rightarrow> 32 word list \<Rightarrow> registers" where
  "turned t r = (r ! (4 * t mod 5), r ! ((4 * t + 1) mod 5), r ! ((4 * t + 2) mod 5), r ! ((4 * t + 3) mod 5), r ! ((4 * t + 4) mod 5))"

definition window :: "byte list \<Rightarrow> nat \<Rightarrow> 32 word list \<Rightarrow> bool" where
  "window M t block \<longleftrightarrow> length block = 16 \<and> (\<forall>i<t. t \<le> i + 16 \<longrightarrow> block ! (i mod 16) = schedule M i) \<and>
     (\<forall>i<16. t \<le> i \<longrightarrow> block ! i = le_word M i)"

lemma and_15: "(n :: nat) AND 15 = n mod 16"
  using take_bit_eq_mask [of 4 n] by (simp add: take_bit_eq_mod mask_eq_exp_minus_1)

lemma back_16: "16 \<le> t \<Longrightarrow> k \<le> 16 \<Longrightarrow> (t + (16 - k)) mod 16 = (t - k) mod 16" for t k :: nat
  using mod_add_self2 [of "t - k" 16] by (simp add: add.commute)

lemma turn_mod_5: "(4 * t + k) mod 5 = (4 * (t mod 5) + k) mod 5" for t k :: nat
  by (metis mod_add_left_eq mod_mult_right_eq)

lemma window_first:
  assumes "window M t block" "t < 16"
  shows "blk0 t block = (schedule M t, block[t := schedule M t])" "window M (Suc t) (block[t := schedule M t])"
proof -
  have "block ! t = le_word M t" using assms by (simp add: window_def)
  then show "blk0 t block = (schedule M t, block[t := schedule M t])"
    using assms(2) by (simp add: blk0_def Let_def byte_swap schedule.simps [of M t])
  show "window M (Suc t) (block[t := schedule M t])"
    using assms by (auto simp: window_def nth_list_update less_Suc_eq)
qed

lemma window_next:
  assumes "window M t block" "16 \<le> t"
  shows "blk t block = (schedule M t, block[t mod 16 := schedule M t])" "window M (Suc t) (block[t mod 16 := schedule M t])"
proof -
  have w: "block ! (i mod 16) = schedule M i" if "i < t" "t \<le> i + 16" for i
    using assms(1) that by (simp add: window_def)
  have shift: "(t + 13) mod 16 = (t - 3) mod 16" "(t + 8) mod 16 = (t - 8) mod 16" "(t + 2) mod 16 = (t - 14) mod 16"
    "t mod 16 = (t - 16) mod 16"
    using back_16 [OF assms(2), of 3] back_16 [OF assms(2), of 8] back_16 [OF assms(2), of 14] back_16 [OF assms(2), of 16]
    by (simp_all only: le_numeral_simps numeral_le_iff le_num_simps simp_thms) simp_all
  have "block ! ((t + 13) mod 16) = schedule M (t - 3)" "block ! ((t + 8) mod 16) = schedule M (t - 8)"
    "block ! ((t + 2) mod 16) = schedule M (t - 14)" "block ! (t mod 16) = schedule M (t - 16)"
    unfolding shift using assms(2) by (simp_all add: w)
  then show "blk t block = (schedule M t, block[t mod 16 := schedule M t])"
    using assms(2) by (simp add: blk_def Let_def and_15 schedule.simps [of M t])
  have ne: "t mod 16 \<noteq> i mod 16" if "i < t" "Suc t \<le> i + 16" for i
  proof
    assume "t mod 16 = i mod 16"
    then have "16 dvd t - i" using mod_eq_dvd_iff_nat [of i t 16] that by simp
    then show False using that by (auto dest: dvd_imp_le)
  qed
  show "window M (Suc t) (block[t mod 16 := schedule M t])"
    using assms by (auto simp: window_def nth_list_update less_Suc_eq dest: ne)
qed

lemma turn_registers:
  assumes "length r = 5"
  shows "let r1 = r[(4 * t + 4) mod 5 := x]; r2 = r1[(4 * t + 1) mod 5 := rol (r1 ! ((4 * t + 1) mod 5)) 30]
    in length r2 = 5 \<and> turned (Suc t) r2 = (x, r ! (4 * t mod 5), rol (r ! ((4 * t + 1) mod 5)) 30, r ! ((4 * t + 2) mod 5), r ! ((4 * t + 3) mod 5))"
proof -
  obtain a b c d e where r: "r = [a, b, c, d, e]"
    using assms by (auto simp: length_Suc_conv numeral_eq_Suc)
  have step: "4 * Suc t mod 5 = (4 * (t mod 5) + 4) mod 5" "(4 * t + k) mod 5 = (4 * (t mod 5) + k) mod 5"
    "(4 * Suc t + k) mod 5 = (4 * (t mod 5) + (4 + k)) mod 5" "4 * t mod 5 = 4 * (t mod 5) mod 5" for k
    using turn_mod_5 [of t 4] turn_mod_5 [of t k] turn_mod_5 [of t "4 + k"] turn_mod_5 [of t 0] by (simp_all add: add_ac)
  have "t mod 5 \<in> {0, 1, 2, 3, 4}" by auto
  then show ?thesis unfolding r turned_def step by (auto simp: Let_def)
qed

lemma sha_round_step:
  assumes "length r = 5" "window M t block"
  shows "\<exists>r' block'. sha_round (call_scheme t) (r, block) = (r', block') \<and> length r' = 5 \<and> window M (Suc t) block' \<and>
    turned (Suc t) r' = fips_step M t (turned t r)"
proof -
  let ?op = "if t < 16 then R0 else if t < 20 then R1 else if t < 40 then R2 else if t < 60 then R3 else R4"
  obtain block' where b: "(if ?op = R0 then blk0 t block else blk t block) = (schedule M t, block')" "window M (Suc t) block'"
    using window_first [OF assms(2)] window_next [OF assms(2)] by (cases "t < 16") auto
  define x where "x = r ! ((4 * t + 4) mod 5) + (sha_mix ?op (r ! ((4 * t + 1) mod 5)) (r ! ((4 * t + 2) mod 5)) (r ! ((4 * t + 3) mod 5)) +
      schedule M t + sha_const ?op + rol (r ! (4 * t mod 5)) 5)"
  have "x = rol (r ! (4 * t mod 5)) 5 + fips_f t (r ! ((4 * t + 1) mod 5)) (r ! ((4 * t + 2) mod 5)) (r ! ((4 * t + 3) mod 5)) +
      r ! ((4 * t + 4) mod 5) + fips_K t + schedule M t"
    by (simp only: x_def sha_mix_fips sha_const_fips) (simp add: add_ac)
  moreover have "sha_round (call_scheme t) (r, block) =
      (let r1 = r[(4 * t + 4) mod 5 := x] in r1[(4 * t + 1) mod 5 := rol (r1 ! ((4 * t + 1) mod 5)) 30], block')"
    unfolding sha_round_def call_scheme_def prod.case b(1) x_def Let_def ..
  ultimately show ?thesis
    using turn_registers [OF assms(1), of t x] b(2) by (simp add: Let_def fips_step_def turned_def)
qed

lemma sha_rounds:
  assumes "length r = 5" "window M 0 block"
  shows "\<exists>r' block'. fold sha_round (map call_scheme [0..<n]) (r, block) = (r', block') \<and> length r' = 5 \<and> window M n block' \<and>
    turned n r' = fold (fips_step M) [0..<n] (turned 0 r)"
proof (induction n)
  case (Suc n)
  then obtain r' block' where f: "fold sha_round (map call_scheme [0..<n]) (r, block) = (r', block')" "length r' = 5"
    "window M n block'" "turned n r' = fold (fips_step M) [0..<n] (turned 0 r)" by blast
  from sha_round_step [OF f(2,3)] f(1,4) show ?case by auto
qed (use assms in simp)

definition registers_of :: "32 word list \<Rightarrow> registers" where
  "registers_of st = (st ! 0, st ! 1, st ! 2, st ! 3, st ! 4)"

lemma length_Transform [simp]: "length st = 5 \<Longrightarrow> length (SHA1_Transform st M) = 5"
proof -
  assume st: "length st = 5"
  have "window M 0 (map (le_word M) [0..<16])" by (simp add: window_def)
  from sha_rounds [OF st this, of 80] st show ?thesis
    by (auto simp: SHA1_Transform_def Let_def sha_calls_scheme)
qed

lemma Transform_fips:
  assumes "length st = 5"
  shows "registers_of (SHA1_Transform st M) = fips_block (registers_of st) M"
proof -
  have "window M 0 (map (le_word M) [0..<16])" by (simp add: window_def)
  from sha_rounds [OF assms this, of 80] obtain r block where
    "fold sha_round sha_calls (st, map (le_word M) [0..<16]) = (r, block)" "length r = 5"
    "turned 80 r = fold (fips_step M) [0..<80] (turned 0 st)" by (auto simp: sha_calls_scheme)
  moreover have "turned 80 r = registers_of r" "turned 0 st = registers_of st"
    by (simp_all add: turned_def registers_of_def; simp add: numeral_eq_Suc)+
  ultimately have "fold (fips_step M) [0..<80] (registers_of st) = registers_of r" "length r = 5"
    "SHA1_Transform st M = map2 (+) st r" by (simp_all add: SHA1_Transform_def)
  then show ?thesis using assms by (simp add: fips_block_def registers_of_def)
qed

section \<open>The context\<close>

record sha_ctx =
  sha_state :: "32 word list"
  sha_count0 :: "32 word"
  sha_count1 :: "32 word"
  sha_buffer :: "byte list"

definition SHA1_Init :: "sha_ctx \<Rightarrow> sha_ctx" where
  "SHA1_Init context =
     context\<lparr> sha_state := [0x67452301, 0xEFCDAB89, 0x98BADCFE, 0x10325476, 0xC3D2E1F0],
              sha_count0 := 0, sha_count1 := 0 \<rparr>"

text \<open>The loop over the complete blocks of the data, from index \<open>i\<close>.\<close>

function sha_loop :: "byte list \<Rightarrow> nat \<Rightarrow> 32 word list \<Rightarrow> nat \<times> 32 word list" where
  "sha_loop data i st =
     (if i + 63 < length data then sha_loop data (i + 64) (SHA1_Transform st (take 64 (drop i data))) else (i, st))"
  by pat_completeness auto
termination
  by (relation "measure (\<lambda>(data, i, st). length data - i)") auto

declare sha_loop.simps [simp del]

text \<open>
  The sum \<open>j + len\<close> is one of 32 bit words. Where the first branch is taken it did not wrap, and the
  index of the loop stays below \<open>len\<close>, so it is a natural number here. Bytes that are stored behind
  the end of the buffer make the list longer than 64.
\<close>

definition SHA1_Update :: "byte list \<Rightarrow> sha_ctx \<Rightarrow> sha_ctx" where
  "SHA1_Update data context =
     (let len = of_nat (length data) :: 32 word;
          j0 = sha_count0 context;
          c0 = j0 + push_bit 3 len;
          c1 = sha_count1 context + (if c0 < j0 then 1 else 0) + drop_bit 29 len;
          j = drop_bit 3 j0 AND 63;
          (i, st, buf, j') =
            (if j + len > 63
             then let i = 64 - unat j;
                      buf = take (unat j) (sha_buffer context) @ take i data;
                      (i', st) = sha_loop data i (SHA1_Transform (sha_state context) buf)
                  in (i', st, buf, 0)
             else (0, sha_state context, sha_buffer context, unat j))
      in context\<lparr> sha_state := st, sha_count0 := c0, sha_count1 := c1,
                  sha_buffer := take j' buf @ drop i data @ drop (j' + (length data - i)) buf \<rparr>)"

lemma and_504: "unat (w AND 504 :: 32 word) = 8 * (unat w div 8 mod 64)"
proof -
  have m: "(504 :: 32 word) = push_bit 3 (mask 6)" by (simp add: mask_eq_exp_minus_1)
  have "(w AND 504 :: 32 word) = push_bit 3 (take_bit 6 (drop_bit 3 w))"
    unfolding m by (rule bit_word_eqI) (auto simp: bit_simps)
  then have "unat (w AND 504) = take_bit 32 (push_bit 3 (take_bit 6 (drop_bit 3 (unat w))))"
    by (simp only: unsigned_push_bit_eq unsigned_take_bit_eq unsigned_drop_bit_eq) (simp add: take_bit_unat)
  moreover have "unat w div 8 mod 64 < 64" by simp
  ultimately show ?thesis
    by (simp add: unsigned_push_bit_eq unsigned_take_bit_eq unsigned_drop_bit_eq take_bit_eq_mod drop_bit_eq_div push_bit_eq_mult)
qed

lemma byte_count_step: "unat (w + 8 :: 32 word) div 8 mod 64 = Suc (unat w div 8 mod 64) mod 64"
proof -
  have "unat (w + 8) div 8 = (unat w + 8) div 8 mod 536870912"
    using mod_mult2_eq [of "unat w + 8" 8 536870912] by (simp add: unat_word_ariths)
  moreover have "(unat w + 8) div 8 = Suc (unat w div 8)" using div_add_self2 [of 8 "unat w"] by simp
  ultimately show ?thesis by (simp add: mod_mod_cancel mod_Suc_eq)
qed

lemma count0_Update [simp]:
  "sha_count0 (SHA1_Update data c) = sha_count0 c + push_bit 3 (of_nat (length data))"
  by (simp add: SHA1_Update_def Let_def split: prod.splits)

lemma pad_measure:
  fixes x :: nat
  assumes "x < 64" "x \<noteq> 56"
  shows "(120 - x) mod 64 = Suc ((120 - Suc x mod 64) mod 64)"
proof -
  consider "x < 56" | "56 < x" "x < 63" | "x = 63" using assms by linarith
  then show ?thesis
    using mod_add_self2 [of "56 - x" 64] mod_add_self2 [of "55 - x" 64] by cases (simp_all add: mod_less)
qed

lemma count1_Update [simp]:
  "sha_count1 (SHA1_Update data c) = sha_count1 c +
     (if sha_count0 c + push_bit 3 (of_nat (length data)) < sha_count0 c then 1 else 0) + drop_bit 29 (of_nat (length data))"
  by (simp add: SHA1_Update_def Let_def split: prod.splits)

text \<open>Zeros are appended until eight bytes are left in the block.\<close>

function sha_pad :: "sha_ctx \<Rightarrow> sha_ctx" where
  "sha_pad context =
     (if sha_count0 context AND 504 \<noteq> 448 then sha_pad (SHA1_Update [0] context) else context)"
  by pat_completeness auto
termination
proof (relation "measure (\<lambda>c. (120 - unat (sha_count0 c) div 8 mod 64) mod 64)")
  fix c :: sha_ctx assume "sha_count0 c AND 504 \<noteq> 448"
  then have "unat (sha_count0 c AND 504) \<noteq> unat (448 :: 32 word)" by (simp only: word_unat_eq_iff simp_thms)
  then have "unat (sha_count0 c) div 8 mod 64 \<noteq> 56" by (simp add: and_504)
  moreover have "unat (sha_count0 (SHA1_Update [0] c)) div 8 mod 64 = Suc (unat (sha_count0 c) div 8 mod 64) mod 64"
    using byte_count_step [of "sha_count0 c"] by (simp add: push_bit_eq_mult)
  ultimately show "(SHA1_Update [0] c, c) \<in> measure (\<lambda>c. (120 - unat (sha_count0 c) div 8 mod 64) mod 64)"
    using pad_measure [of "unat (sha_count0 c) div 8 mod 64"] by simp
qed simp

declare sha_pad.simps [simp del]

definition SHA1_DIGEST_SIZE :: nat where
  "SHA1_DIGEST_SIZE = 20"

definition SHA1_Final :: "sha_ctx \<Rightarrow> byte list \<times> sha_ctx" where
  "SHA1_Final context =
     (let finalcount = map (\<lambda>i. ucast (drop_bit ((3 - (i AND 3)) * 8)
            (if i \<ge> 4 then sha_count0 context else sha_count1 context) AND 255) :: byte) [0..<8];
          context1 = SHA1_Update finalcount (sha_pad (SHA1_Update [0x80] context));
          digest = map (\<lambda>i. ucast (drop_bit ((3 - (i AND 3)) * 8) (sha_state context1 ! drop_bit 2 i) AND 255)) [0..<SHA1_DIGEST_SIZE]
      in (digest, context1\<lparr> sha_state := replicate 5 0, sha_count0 := 0, sha_count1 := 0, sha_buffer := replicate 64 0 \<rparr>))"

section \<open>What a context stands for\<close>

text \<open>The context has taken in the message \<open>m\<close>: all complete blocks are in the state, the rest is in the buffer.\<close>

definition SHA1_H0 :: "32 word list" where
  "SHA1_H0 = [0x67452301, 0xEFCDAB89, 0x98BADCFE, 0x10325476, 0xC3D2E1F0]"

definition sha_repr :: "sha_ctx \<Rightarrow> byte list \<Rightarrow> bool" where
  "sha_repr c m \<longleftrightarrow> sha_state c = foldl SHA1_Transform SHA1_H0 (blocks m) \<and>
     length (sha_buffer c) = 64 \<and> take (length m mod 64) (sha_buffer c) = tail m \<and>
     bit_count (sha_count0 c) (sha_count1 c) = 8 * length m mod 2 ^ 64"

definition sha_fits :: "byte list \<Rightarrow> bool" where
  "sha_fits d \<longleftrightarrow> length d + 64 \<le> 2 ^ 32"

lemma sha_repr_Init: "length (sha_buffer c) = 64 \<Longrightarrow> sha_repr (SHA1_Init c) []"
  by (simp add: sha_repr_def SHA1_Init_def SHA1_H0_def bit_count_def)

lemma sha_loop_blocks:
  "i \<le> length data \<Longrightarrow> sha_loop data i st = (length data - length (drop i data) mod 64, foldl SHA1_Transform st (blocks (drop i data)))"
proof (induction data i st rule: sha_loop.induct)
  case (1 data i st)
  show ?case
  proof (cases "i + 63 < length data")
    case True
    then have "drop i data = take 64 (drop i data) @ drop (i + 64) data"
      using append_take_drop_id [of 64 "drop i data"] by (simp add: add.commute)
    then have "blocks (drop i data) = take 64 (drop i data) # blocks (drop (i + 64) data)"
      using blocks_block [of "take 64 (drop i data)" "drop (i + 64) data"] True by simp
    moreover have "(length data - i) mod 64 = (length data - (i + 64)) mod 64"
      using True mod_add_self2 [of "length data - (i + 64)" 64] by simp
    ultimately show ?thesis using 1 True by (simp add: sha_loop.simps [of data i])
  qed (use 1 in \<open>simp add: sha_loop.simps [of data i]\<close>)
qed

lemma sha_repr_Update:
  assumes r: "sha_repr c m" and d: "sha_fits d"
  shows "sha_repr (SHA1_Update d c) (m @ d)"
proof -
  let ?len = "of_nat (length d) :: 32 word" and ?j = "length m mod 64"
  have len: "length d < 2 ^ 32" "?j + length d < 2 ^ 32" using d by (auto simp: sha_fits_def)
  note w = word_lengths [OF len(1)]
  have c: "sha_state c = foldl SHA1_Transform SHA1_H0 (blocks m)" "length (sha_buffer c) = 64"
    "take ?j (sha_buffer c) = tail m" "bit_count (sha_count0 c) (sha_count1 c) = 8 * length m mod 2 ^ 64"
    using r by (simp_all add: sha_repr_def)
  have j: "unat (drop_bit 3 (sha_count0 c) AND 63) = ?j" by (rule count_bytes(2) [OF c(4)])
  have sum: "unat ((drop_bit 3 (sha_count0 c) AND 63) + ?len) = ?j + length d"
    using len(2) by (simp add: unat_word_ariths j w(3))
  have count: "bit_count (sha_count0 (SHA1_Update d c)) (sha_count1 (SHA1_Update d c)) = 8 * length (m @ d) mod 2 ^ 64"
    using bit_count_add [OF w(1,2), of "sha_count0 c" "sha_count1 c"]
    unfolding count0_Update count1_Update c(4) by (simp add: mod_simps)
  show ?thesis
  proof (cases "63 < ?j + length d")
    case True
    define first where "first = tail m @ take (64 - ?j) d"
    define rest where "rest = drop (64 - ?j) d"
    have first: "length first = 64" "m @ d = m @ take (64 - ?j) d @ rest" using True by (auto simp: first_def rest_def length_tail)
    have "tail m @ d = first @ rest" by (simp add: first_def rest_def)
    then have b: "blocks (m @ d) = blocks m @ first # blocks rest" "tail (m @ d) = tail rest"
      using blocks_append [of m d] tail_append [of m d] blocks_block [OF first(1)] tail_block [OF first(1)] by simp_all
    have k: "length rest \<le> length d" "length d - (length d - length rest mod 64) = length rest mod 64"
      "drop (length d - length rest mod 64) d = tail rest"
    proof -
      show k: "length rest \<le> length d" by (simp add: rest_def)
      have "length rest mod 64 \<le> length rest" by (rule mod_less_eq_dividend)
      with k show "length d - (length d - length rest mod 64) = length rest mod 64" by linarith
      show "drop (length d - length rest mod 64) d = tail rest"
      proof -
        have "length d = length rest + (64 - ?j)" using True by (simp add: rest_def)
        then have "length d - length rest mod 64 = 64 * (length rest div 64) + (64 - ?j)"
          using mult_div_mod_eq [of 64 "length rest"] by linarith
        then show ?thesis by (simp add: tail_def rest_def)
      qed
    qed
    have "63 < (drop_bit 3 (sha_count0 c) AND 63) + ?len" using True sum by (simp add: word_less_nat_alt)
    moreover have "sha_loop d (64 - ?j) st = (length d - length rest mod 64, foldl SHA1_Transform st (blocks rest))" for st
      using True sha_loop_blocks [of "64 - ?j" d st] by (simp add: rest_def)
    ultimately have u: "sha_state (SHA1_Update d c) = foldl SHA1_Transform SHA1_H0 (blocks (m @ d))"
      "sha_buffer (SHA1_Update d c) = tail (m @ d) @ drop (length rest mod 64) first"
      using k by (simp_all add: SHA1_Update_def Let_def j c(1,3) b first_def [symmetric])
    moreover have "length (m @ d) mod 64 = length rest mod 64" using b(2) length_tail [of "m @ d"] length_tail [of rest] by simp
    ultimately show ?thesis using count first(1) by (simp add: sha_repr_def length_tail b(2))
  next
    case False
    have "\<not> 63 < (drop_bit 3 (sha_count0 c) AND 63) + ?len" using False sum by (simp add: word_less_nat_alt)
    then have u: "sha_state (SHA1_Update d c) = sha_state c"
      "sha_buffer (SHA1_Update d c) = tail m @ d @ drop (?j + length d) (sha_buffer c)"
      by (simp_all add: SHA1_Update_def Let_def j c(3))
    have "blocks (m @ d) = blocks m" "tail (m @ d) = tail m @ d"
      using False blocks_append [of m d] tail_append [of m d] by (simp_all add: length_tail)
    moreover have "length (m @ d) mod 64 = ?j + length d" using calculation(2) length_tail [of "m @ d"] length_tail [of m] by simp
    ultimately show ?thesis using count u c(1,2) False by (simp add: sha_repr_def length_tail)
  qed
qed

interpretation sha: hash_context sha_repr sha_fits SHA1_Update
  by unfold_locales (rule sha_repr_Update)

section \<open>The digest\<close>

text \<open>The padding of the standard and the digest of a whole message.\<close>

definition fips_pad :: "byte list \<Rightarrow> byte list" where
  "fips_pad m = 0x80 # replicate (nat ((55 - int (length m)) mod 64)) 0 @ be_bytes64 (8 * length m)"

definition fips_sha1 :: "byte list \<Rightarrow> byte list" where
  "fips_sha1 m =
     (case foldl fips_block (0x67452301, 0xEFCDAB89, 0x98BADCFE, 0x10325476, 0xC3D2E1F0) (blocks (m @ fips_pad m)) of
        (a, b, c, d, e) \<Rightarrow> concat (map word_bytes [a, b, c, d, e]))"

lemma pad_done:
  assumes "sha_repr c m"
  shows "sha_count0 c AND 504 = 448 \<longleftrightarrow> length m mod 64 = 56"
proof -
  have "unat (sha_count0 c) div 8 mod 64 = length m mod 64"
    using count_bytes(1) assms unfolding sha_repr_def by blast
  then have "unat (sha_count0 c AND 504) = 8 * (length m mod 64)" by (simp add: and_504)
  then show ?thesis by (simp add: word_unat_eq_iff)
qed

lemma sha_pad_zeros:
  "sha_repr c m \<Longrightarrow> sha_repr (sha_pad c) (m @ replicate ((120 - length m mod 64) mod 64) 0)"
proof (induction "(120 - length m mod 64) mod 64" arbitrary: c m rule: less_induct)
  case less
  show ?case
  proof (cases "length m mod 64 = 56")
    case True
    then show ?thesis using less.prems pad_done [OF less.prems] by (simp add: sha_pad.simps [of c])
  next
    case False
    have r: "sha_repr (SHA1_Update [0] c) (m @ [0])" by (rule sha_repr_Update [OF less.prems]) (simp add: sha_fits_def)
    have n: "(120 - length m mod 64) mod 64 = Suc ((120 - length (m @ [0]) mod 64) mod 64)"
    proof -
      have l: "length (m @ [0]) mod 64 = Suc (length m mod 64) mod 64" by (metis length_append_singleton mod_Suc_eq)
      have "length m mod 64 < 64" by simp
      from pad_measure [OF this False] show ?thesis unfolding l .
    qed
    have lt: "(120 - length (m @ [0]) mod 64) mod 64 < (120 - length m mod 64) mod 64"
      unfolding n by (rule lessI)
    have "sha_pad c = sha_pad (SHA1_Update [0] c)" using False pad_done [OF less.prems] by (simp add: sha_pad.simps [of c])
    with less.hyps [OF lt r] show ?thesis unfolding n by simp
  qed
qed

lemma digest_bytes:
  assumes "length st = 5"
  shows "map (\<lambda>i. ucast (drop_bit ((3 - (i AND 3)) * 8) (st ! drop_bit 2 i) AND 255) :: byte) [0..<20] =
    concat (map word_bytes st)"
proof -
  obtain a b c d e where st: "st = [a, b, c, d, e]"
    using assms by (auto simp: length_Suc_conv numeral_eq_Suc)
  have "[0..<20] = [0, 1, 2, 3, 4, 5, 6, 7, 8, 9, 10, 11, 12, 13, 14, 15, 16, 17, 18, 19]" by (simp add: upt_rec)
  then show ?thesis unfolding st by (simp add: mask_byte word_bytes_def)
qed

lemma count_digits:
  "map (\<lambda>i. ucast (drop_bit ((3 - (i AND 3)) * 8) (if i \<ge> 4 then c0 else c1) AND 255) :: byte) [0..<8]
    = word_bytes c1 @ word_bytes c0"
proof -
  have "[0..<8] = [0, 1, 2, 3, 4, 5, 6, 7]" by (simp add: upt_rec)
  then show ?thesis by (simp add: mask_byte word_bytes_def)
qed

lemma Transforms_fips:
  "length st = 5 \<Longrightarrow> length (foldl SHA1_Transform st bs) = 5 \<and>
     registers_of (foldl SHA1_Transform st bs) = foldl fips_block (registers_of st) bs"
  by (induction bs arbitrary: st) (simp_all add: Transform_fips)

lemma pad_length: "(120 - length (m @ [x]) mod 64) mod 64 = nat ((55 - int (length m)) mod 64)"
proof -
  have "Suc (length m) mod 64 \<le> 120" using mod_less_divisor [of 64 "Suc (length m)"] by linarith
  then have "int ((120 - Suc (length m) mod 64) mod 64) = (120 - int (Suc (length m)) mod 64) mod 64"
    by (simp add: zmod_int of_nat_diff)
  also have "\<dots> = (120 - int (Suc (length m))) mod 64" by (rule mod_diff_right_eq)
  also have "120 - int (Suc (length m)) = (55 - int (length m)) + 64" by simp
  also have "\<dots> mod 64 = (55 - int (length m)) mod 64" by (rule mod_add_self2)
  finally show ?thesis by simp
qed

lemma SHA1_Final_digest:
  assumes c: "sha_repr c m" and len: "length m < 2 ^ 61"
  shows "fst (SHA1_Final c) = fips_sha1 m"
proof -
  let ?zeros = "replicate (nat ((55 - int (length m)) mod 64)) (0 :: byte)"
  let ?count = "word_bytes (sha_count1 c) @ word_bytes (sha_count0 c)"
  have "8 * length m = unat (sha_count0 c) + 2 ^ 32 * unat (sha_count1 c)"
    using c len by (simp add: sha_repr_def bit_count_def)
  then have count: "?count = be_bytes64 (8 * length m)"
    using counter_bytes [of "sha_count0 c" "sha_count1 c"] by (simp add: be_bytes64_def word_bytes_def)
  have "sha_repr (SHA1_Update [0x80] c) (m @ [0x80])"
    by (rule sha_repr_Update [OF c]) (simp add: sha_fits_def)
  from sha_pad_zeros [OF this] have "sha_repr (sha_pad (SHA1_Update [0x80] c)) ((m @ [0x80]) @ ?zeros)"
    unfolding pad_length .
  then have r: "sha_repr (SHA1_Update ?count (sha_pad (SHA1_Update [0x80] c))) (((m @ [0x80]) @ ?zeros) @ ?count)"
    by (rule sha_repr_Update) (simp add: sha_fits_def word_bytes_def)
  let ?st = "foldl SHA1_Transform SHA1_H0 (blocks (m @ fips_pad m))"
  have st: "sha_state (SHA1_Update ?count (sha_pad (SHA1_Update [0x80] c))) = ?st"
    using r by (simp add: sha_repr_def fips_pad_def count)
  have h: "length ?st = 5" "registers_of ?st = foldl fips_block (registers_of SHA1_H0) (blocks (m @ fips_pad m))"
    using Transforms_fips [of SHA1_H0 "blocks (m @ fips_pad m)"] by (simp_all add: SHA1_H0_def)
  then obtain x0 x1 x2 x3 x4 where x: "?st = [x0, x1, x2, x3, x4]"
    by (auto simp: length_Suc_conv numeral_eq_Suc)
  have "fst (SHA1_Final c) = concat (map word_bytes ?st)"
    unfolding SHA1_Final_def Let_def count_digits st SHA1_DIGEST_SIZE_def fst_conv by (rule digest_bytes [OF h(1)])
  also have "\<dots> = fips_sha1 m"
    using h(2) [symmetric] unfolding x by (simp add: fips_sha1_def registers_of_def SHA1_H0_def)
  finally show ?thesis .
qed

section \<open>Properties\<close>

text \<open>
  C32: the incremental context computes SHA-1. Whatever pieces a message is fed in (each shorter than
  4 GB), the digest is that of the standard for the whole message: the unrolled rounds over turning
  registers and the schedule in place compute the compression function, and the buffer, the counter
  with its carry and the padding loop cut the message into the right blocks.
\<close>

theorem sha1_correct:
  assumes "list_all sha_fits ds" "length (concat ds) < 2 ^ 61" "length (sha_buffer c) = 64"
  shows "fst (SHA1_Final (fold SHA1_Update ds (SHA1_Init c))) = fips_sha1 (concat ds)"
  using SHA1_Final_digest [OF sha.repr_updates [OF sha_repr_Init [OF assms(3)] assms(1)]] assms(2) by simp

lemma sha1_correct_witness:
  "fst (SHA1_Final (fold SHA1_Update [replicate 70 97, [98, 99], []]
     (SHA1_Init \<lparr> sha_state = [], sha_count0 = 7, sha_count1 = 0, sha_buffer = replicate 64 0 \<rparr>))) =
   fips_sha1 (replicate 70 97 @ [98, 99])"
  using sha1_correct [of "[replicate 70 97, [98, 99], []]"] by (simp add: sha_fits_def)

text \<open>A length close to $2^{32}$ makes \<open>j + len\<close> wrap: everything is copied to the buffer.\<close>

lemma SHA1_Update_overflow:
  assumes "length d + 1 = 2 ^ 32" "sha_repr c m" "length m mod 64 = 1"
  shows "length (sha_buffer (SHA1_Update d c)) > 64"
proof -
  have "unat (drop_bit 3 (sha_count0 c) AND 63) = 1"
    using count_bytes(2) [of "sha_count0 c" "sha_count1 c" "length m"] assms(2,3) by (simp add: sha_repr_def)
  then have j: "drop_bit 3 (sha_count0 c) AND 63 = (1 :: 32 word)" by (simp add: word_unat_eq_iff)
  have "of_nat (length d + 1) = (0 :: 32 word)" unfolding assms(1) word_of_nat_eq_0_iff by simp
  then have "(1 :: 32 word) + of_nat (length d) = 0" by (simp add: add.commute)
  moreover have "length d > 64" using assms(1) by simp
  ultimately show ?thesis by (simp add: SHA1_Update_def Let_def j)
qed

end
