(* ===== verification/Md5.thy ===== *)
theory Md5
  imports Hash_Blocks
begin

unbundle bit_operations_syntax

text \<open>
  MD5 of \<open>src/md5.inl\<close>: the unrolled operations over four registers, the context with its buffer and
  bit counter. It is compared with the algorithm of RFC 1321.
\<close>

section \<open>One block\<close>

definition T_MASK :: "32 word" where
  "T_MASK = NOT 0"

text \<open>The macros \<open>T1\<close> to \<open>T64\<close>.\<close>

definition md5_T :: "32 word list" where
  "md5_T = [
     T_MASK XOR 0x28955b87, T_MASK XOR 0x173848a9, 0x242070db, T_MASK XOR 0x3e423111,
     T_MASK XOR 0x0a83f050, 0x4787c62a, T_MASK XOR 0x57cfb9ec, T_MASK XOR 0x02b96afe,
     0x698098d8, T_MASK XOR 0x74bb0850, T_MASK XOR 0x0000a44e, T_MASK XOR 0x76a32841,
     0x6b901122, T_MASK XOR 0x02678e6c, T_MASK XOR 0x5986bc71, 0x49b40821,
     T_MASK XOR 0x09e1da9d, T_MASK XOR 0x3fbf4cbf, 0x265e5a51, T_MASK XOR 0x16493855,
     T_MASK XOR 0x29d0efa2, 0x02441453, T_MASK XOR 0x275e197e, T_MASK XOR 0x182c0437,
     0x21e1cde6, T_MASK XOR 0x3cc8f829, T_MASK XOR 0x0b2af278, 0x455a14ed,
     T_MASK XOR 0x561c16fa, T_MASK XOR 0x03105c07, 0x676f02d9, T_MASK XOR 0x72d5b375,
     T_MASK XOR 0x0005c6bd, T_MASK XOR 0x788e097e, 0x6d9d6122, T_MASK XOR 0x021ac7f3,
     T_MASK XOR 0x5b4115bb, 0x4bdecfa9, T_MASK XOR 0x0944b49f, T_MASK XOR 0x4140438f,
     0x289b7ec6, T_MASK XOR 0x155ed805, T_MASK XOR 0x2b10cf7a, 0x04881d05,
     T_MASK XOR 0x262b2fc6, T_MASK XOR 0x1924661a, 0x1fa27cf8, T_MASK XOR 0x3b53a99a,
     T_MASK XOR 0x0bd6ddbb, 0x432aff97, T_MASK XOR 0x546bdc58, T_MASK XOR 0x036c5fc6,
     0x655b59c3, T_MASK XOR 0x70f3336d, T_MASK XOR 0x00100b82, T_MASK XOR 0x7a7ba22e,
     0x6fa87e4f, T_MASK XOR 0x01d3191f, T_MASK XOR 0x5cfebceb, 0x4e0811a1,
     T_MASK XOR 0x08ac817d, T_MASK XOR 0x42c50dca, 0x2ad7d2bb, T_MASK XOR 0x14792c6e]"

datatype md5_fun = Md5_F | Md5_G | Md5_H | Md5_I

definition md5_F :: "32 word \<Rightarrow> 32 word \<Rightarrow> 32 word \<Rightarrow> 32 word" where
  "md5_F x y z = (x AND y) OR (NOT x AND z)"

definition md5_G :: "32 word \<Rightarrow> 32 word \<Rightarrow> 32 word \<Rightarrow> 32 word" where
  "md5_G x y z = (x AND z) OR (y AND NOT z)"

definition md5_H :: "32 word \<Rightarrow> 32 word \<Rightarrow> 32 word \<Rightarrow> 32 word" where
  "md5_H x y z = x XOR y XOR z"

definition md5_I :: "32 word \<Rightarrow> 32 word \<Rightarrow> 32 word \<Rightarrow> 32 word" where
  "md5_I x y z = y XOR (x OR NOT z)"

definition md5_mix :: "md5_fun \<Rightarrow> 32 word \<Rightarrow> 32 word \<Rightarrow> 32 word \<Rightarrow> 32 word" where
  "md5_mix f = (case f of Md5_F \<Rightarrow> md5_F | Md5_G \<Rightarrow> md5_G | Md5_H \<Rightarrow> md5_H | Md5_I \<Rightarrow> md5_I)"

text \<open>A macro call \<open>SET\<close>: the function, the registers (\<open>a\<close> to \<open>d\<close> are 0 to 3), \<open>k\<close>, \<open>s\<close> and the number of the constant.\<close>

type_synonym md5_call = "md5_fun \<times> nat \<times> nat \<times> nat \<times> nat \<times> nat \<times> nat \<times> nat"

definition md5_set :: "32 word list \<Rightarrow> md5_call \<Rightarrow> 32 word list \<Rightarrow> 32 word list" where
  "md5_set X call r =
     (case call of (f, a, b, c, d, k, s, i) \<Rightarrow>
        let t = r ! a + md5_mix f (r ! b) (r ! c) (r ! d) + X ! k + md5_T ! (i - 1) in r[a := rol t s + r ! b])"

definition md5_calls :: "md5_call list" where
  "md5_calls = [
     (Md5_F, 0, 1, 2, 3, 0, 7, 1), (Md5_F, 3, 0, 1, 2, 1, 12, 2), (Md5_F, 2, 3, 0, 1, 2, 17, 3), (Md5_F, 1, 2, 3, 0, 3, 22, 4),
     (Md5_F, 0, 1, 2, 3, 4, 7, 5), (Md5_F, 3, 0, 1, 2, 5, 12, 6), (Md5_F, 2, 3, 0, 1, 6, 17, 7), (Md5_F, 1, 2, 3, 0, 7, 22, 8),
     (Md5_F, 0, 1, 2, 3, 8, 7, 9), (Md5_F, 3, 0, 1, 2, 9, 12, 10), (Md5_F, 2, 3, 0, 1, 10, 17, 11), (Md5_F, 1, 2, 3, 0, 11, 22, 12),
     (Md5_F, 0, 1, 2, 3, 12, 7, 13), (Md5_F, 3, 0, 1, 2, 13, 12, 14), (Md5_F, 2, 3, 0, 1, 14, 17, 15), (Md5_F, 1, 2, 3, 0, 15, 22, 16),
     (Md5_G, 0, 1, 2, 3, 1, 5, 17), (Md5_G, 3, 0, 1, 2, 6, 9, 18), (Md5_G, 2, 3, 0, 1, 11, 14, 19), (Md5_G, 1, 2, 3, 0, 0, 20, 20),
     (Md5_G, 0, 1, 2, 3, 5, 5, 21), (Md5_G, 3, 0, 1, 2, 10, 9, 22), (Md5_G, 2, 3, 0, 1, 15, 14, 23), (Md5_G, 1, 2, 3, 0, 4, 20, 24),
     (Md5_G, 0, 1, 2, 3, 9, 5, 25), (Md5_G, 3, 0, 1, 2, 14, 9, 26), (Md5_G, 2, 3, 0, 1, 3, 14, 27), (Md5_G, 1, 2, 3, 0, 8, 20, 28),
     (Md5_G, 0, 1, 2, 3, 13, 5, 29), (Md5_G, 3, 0, 1, 2, 2, 9, 30), (Md5_G, 2, 3, 0, 1, 7, 14, 31), (Md5_G, 1, 2, 3, 0, 12, 20, 32),
     (Md5_H, 0, 1, 2, 3, 5, 4, 33), (Md5_H, 3, 0, 1, 2, 8, 11, 34), (Md5_H, 2, 3, 0, 1, 11, 16, 35), (Md5_H, 1, 2, 3, 0, 14, 23, 36),
     (Md5_H, 0, 1, 2, 3, 1, 4, 37), (Md5_H, 3, 0, 1, 2, 4, 11, 38), (Md5_H, 2, 3, 0, 1, 7, 16, 39), (Md5_H, 1, 2, 3, 0, 10, 23, 40),
     (Md5_H, 0, 1, 2, 3, 13, 4, 41), (Md5_H, 3, 0, 1, 2, 0, 11, 42), (Md5_H, 2, 3, 0, 1, 3, 16, 43), (Md5_H, 1, 2, 3, 0, 6, 23, 44),
     (Md5_H, 0, 1, 2, 3, 9, 4, 45), (Md5_H, 3, 0, 1, 2, 12, 11, 46), (Md5_H, 2, 3, 0, 1, 15, 16, 47), (Md5_H, 1, 2, 3, 0, 2, 23, 48),
     (Md5_I, 0, 1, 2, 3, 0, 6, 49), (Md5_I, 3, 0, 1, 2, 7, 10, 50), (Md5_I, 2, 3, 0, 1, 14, 15, 51), (Md5_I, 1, 2, 3, 0, 5, 21, 52),
     (Md5_I, 0, 1, 2, 3, 12, 6, 53), (Md5_I, 3, 0, 1, 2, 3, 10, 54), (Md5_I, 2, 3, 0, 1, 10, 15, 55), (Md5_I, 1, 2, 3, 0, 1, 21, 56),
     (Md5_I, 0, 1, 2, 3, 8, 6, 57), (Md5_I, 3, 0, 1, 2, 15, 10, 58), (Md5_I, 2, 3, 0, 1, 6, 15, 59), (Md5_I, 1, 2, 3, 0, 13, 21, 60),
     (Md5_I, 0, 1, 2, 3, 4, 6, 61), (Md5_I, 3, 0, 1, 2, 11, 10, 62), (Md5_I, 2, 3, 0, 1, 2, 15, 63), (Md5_I, 1, 2, 3, 0, 9, 21, 64)]"

definition md5_process :: "32 word list \<Rightarrow> byte list \<Rightarrow> 32 word list" where
  "md5_process abcd data =
     (let X = map (le_word data) [0..<16]; r = fold (md5_set X) md5_calls abcd in map2 (+) abcd r)"

section \<open>The algorithm of the RFC\<close>

text \<open>The table of the RFC: the integer part of $2^{32} |\sin i|$.\<close>

definition rfc_T :: "32 word list" where
  "rfc_T = [
     0xd76aa478, 0xe8c7b756, 0x242070db, 0xc1bdceee, 0xf57c0faf, 0x4787c62a,
     0xa8304613, 0xfd469501, 0x698098d8, 0x8b44f7af, 0xffff5bb1, 0x895cd7be,
     0x6b901122, 0xfd987193, 0xa679438e, 0x49b40821, 0xf61e2562, 0xc040b340,
     0x265e5a51, 0xe9b6c7aa, 0xd62f105d, 0x02441453, 0xd8a1e681, 0xe7d3fbc8,
     0x21e1cde6, 0xc33707d6, 0xf4d50d87, 0x455a14ed, 0xa9e3e905, 0xfcefa3f8,
     0x676f02d9, 0x8d2a4c8a, 0xfffa3942, 0x8771f681, 0x6d9d6122, 0xfde5380c,
     0xa4beea44, 0x4bdecfa9, 0xf6bb4b60, 0xbebfbc70, 0x289b7ec6, 0xeaa127fa,
     0xd4ef3085, 0x04881d05, 0xd9d4d039, 0xe6db99e5, 0x1fa27cf8, 0xc4ac5665,
     0xf4292244, 0x432aff97, 0xab9423a7, 0xfc93a039, 0x655b59c3, 0x8f0ccc92,
     0xffeff47d, 0x85845dd1, 0x6fa87e4f, 0xfe2ce6e0, 0xa3014314, 0x4e0811a1,
     0xf7537e82, 0xbd3af235, 0x2ad7d2bb, 0xeb86d391]"

lemma md5_T_rfc: "md5_T = rfc_T"
  by (simp add: md5_T_def rfc_T_def T_MASK_def)

definition rfc_f :: "nat \<Rightarrow> 32 word \<Rightarrow> 32 word \<Rightarrow> 32 word \<Rightarrow> 32 word" where
  "rfc_f i x y z =
     (if i < 16 then (x AND y) OR (NOT x AND z) else if i < 32 then (z AND x) OR (NOT z AND y)
      else if i < 48 then x XOR y XOR z else y XOR (x OR NOT z))"

definition rfc_index :: "nat \<Rightarrow> nat" where
  "rfc_index i = (if i < 16 then i else if i < 32 then (5 * i + 1) mod 16 else if i < 48 then (3 * i + 5) mod 16 else 7 * i mod 16)"

definition rfc_shift :: "nat \<Rightarrow> nat" where
  "rfc_shift i =
     (if i < 16 then [7, 12, 17, 22] else if i < 32 then [5, 9, 14, 20] else if i < 48 then [4, 11, 16, 23] else [6, 10, 15, 21])
       ! (i mod 4)"

type_synonym registers4 = "32 word \<times> 32 word \<times> 32 word \<times> 32 word"

definition rfc_step :: "byte list \<Rightarrow> nat \<Rightarrow> registers4 \<Rightarrow> registers4" where
  "rfc_step M i r =
     (case r of (a, b, c, d) \<Rightarrow>
        (d, b + rol (a + rfc_f i b c d + le_word M (rfc_index i) + rfc_T ! i) (rfc_shift i), b, c))"

definition rfc_block :: "registers4 \<Rightarrow> byte list \<Rightarrow> registers4" where
  "rfc_block h M =
     (case h of (h0, h1, h2, h3) \<Rightarrow> case fold (rfc_step M) [0..<64] h of (a, b, c, d) \<Rightarrow> (h0 + a, h1 + b, h2 + c, h3 + d))"

section \<open>The operations\<close>

definition md5_scheme :: "nat \<Rightarrow> md5_call" where
  "md5_scheme i =
     (if i < 16 then Md5_F else if i < 32 then Md5_G else if i < 48 then Md5_H else Md5_I,
      3 * i mod 4, (3 * i + 1) mod 4, (3 * i + 2) mod 4, (3 * i + 3) mod 4, rfc_index i, rfc_shift i, Suc i)"

lemma md5_calls_scheme: "md5_calls = map md5_scheme [0..<64]"
  by code_simp

lemma md5_mix_rfc:
  "md5_mix (if i < 16 then Md5_F else if i < 32 then Md5_G else if i < 48 then Md5_H else Md5_I) x y z = rfc_f i x y z"
  by (simp add: md5_mix_def md5_F_def md5_G_def md5_H_def md5_I_def rfc_f_def ac_simps)

definition turned4 :: "nat \<Rightarrow> 32 word list \<Rightarrow> registers4" where
  "turned4 t r = (r ! (3 * t mod 4), r ! ((3 * t + 1) mod 4), r ! ((3 * t + 2) mod 4), r ! ((3 * t + 3) mod 4))"

lemma turn_mod_4: "(3 * t + k) mod 4 = (3 * (t mod 4) + k) mod 4" for t k :: nat
  by (metis mod_add_left_eq mod_mult_right_eq)

lemma turn_registers4:
  assumes "length r = 4"
  shows "turned4 (Suc t) (r[3 * t mod 4 := x]) = (r ! ((3 * t + 3) mod 4), x, r ! ((3 * t + 1) mod 4), r ! ((3 * t + 2) mod 4))"
proof -
  obtain a b c d where r: "r = [a, b, c, d]"
    using assms by (auto simp: length_Suc_conv numeral_eq_Suc)
  have step: "3 * Suc t mod 4 = (3 * (t mod 4) + 3) mod 4" "(3 * t + k) mod 4 = (3 * (t mod 4) + k) mod 4"
    "(3 * Suc t + k) mod 4 = (3 * (t mod 4) + (3 + k)) mod 4" "3 * t mod 4 = 3 * (t mod 4) mod 4" for k
    using turn_mod_4 [of t 3] turn_mod_4 [of t k] turn_mod_4 [of t "3 + k"] turn_mod_4 [of t 0] by (simp_all add: add_ac)
  have "t mod 4 \<in> {0, 1, 2, 3}" by auto
  then show ?thesis unfolding r turned4_def step by auto
qed

lemma rfc_index_less: "rfc_index i < 16"
  by (simp add: rfc_index_def)

lemma md5_set_step:
  assumes "length r = 4"
  shows "length (md5_set (map (le_word M) [0..<16]) (md5_scheme t) r) = 4 \<and>
    turned4 (Suc t) (md5_set (map (le_word M) [0..<16]) (md5_scheme t) r) = rfc_step M t (turned4 t r)"
proof -
  define x where "x = r ! ((3 * t + 1) mod 4) + rol (r ! (3 * t mod 4) +
      rfc_f t (r ! ((3 * t + 1) mod 4)) (r ! ((3 * t + 2) mod 4)) (r ! ((3 * t + 3) mod 4)) +
      le_word M (rfc_index t) + rfc_T ! t) (rfc_shift t)"
  have "md5_set (map (le_word M) [0..<16]) (md5_scheme t) r = r[3 * t mod 4 := x]"
    unfolding md5_set_def md5_scheme_def prod.case Let_def md5_mix_rfc
    using rfc_index_less [of t] by (simp add: x_def md5_T_rfc add.commute)
  then show ?thesis using turn_registers4 [OF assms, of t x] assms by (simp add: rfc_step_def turned4_def x_def)
qed

lemma md5_sets:
  assumes "length r = 4"
  shows "length (fold (md5_set (map (le_word M) [0..<16])) (map md5_scheme [0..<n]) r) = 4 \<and>
    turned4 n (fold (md5_set (map (le_word M) [0..<16])) (map md5_scheme [0..<n]) r) = fold (rfc_step M) [0..<n] (turned4 0 r)"
  by (induction n) (simp_all add: assms md5_set_step)

definition registers4_of :: "32 word list \<Rightarrow> registers4" where
  "registers4_of st = (st ! 0, st ! 1, st ! 2, st ! 3)"

lemma process_rfc:
  assumes "length st = 4"
  shows "length (md5_process st M) = 4 \<and> registers4_of (md5_process st M) = rfc_block (registers4_of st) M"
proof -
  define r where "r = fold (md5_set (map (le_word M) [0..<16])) md5_calls st"
  have "length r = 4" "turned4 64 r = fold (rfc_step M) [0..<64] (turned4 0 st)"
    using md5_sets [OF assms, of M 64] by (simp_all add: r_def md5_calls_scheme)
  moreover have "turned4 64 r = registers4_of r" "turned4 0 st = registers4_of st"
    by (simp_all add: turned4_def registers4_of_def; simp add: numeral_eq_Suc)+
  ultimately have "fold (rfc_step M) [0..<64] (registers4_of st) = registers4_of r" "length r = 4"
    "md5_process st M = map2 (+) st r" by (simp_all add: md5_process_def r_def)
  then show ?thesis using assms by (simp add: rfc_block_def registers4_of_def)
qed

section \<open>The context\<close>

record md5_state =
  md5_count0 :: "32 word"
  md5_count1 :: "32 word"
  md5_abcd :: "32 word list"
  md5_buf :: "byte list"

definition md5_init :: "md5_state \<Rightarrow> md5_state" where
  "md5_init pms =
     pms\<lparr> md5_count0 := 0, md5_count1 := 0,
          md5_abcd := [0x67452301, T_MASK XOR 0x10325476, T_MASK XOR 0x67452301, 0x10325476] \<rparr>"

text \<open>The loop over the complete blocks: the rest of the data and the state.\<close>

function md5_loop :: "byte list \<Rightarrow> 32 word list \<Rightarrow> byte list \<times> 32 word list" where
  "md5_loop p abcd = (if length p \<ge> 64 then md5_loop (drop 64 p) (md5_process abcd (take 64 p)) else (p, abcd))"
  by pat_completeness auto
termination
  by (relation "measure (\<lambda>(p, abcd). length p)") auto

declare md5_loop.simps [simp del]

text \<open>The counter of bits, kept in two words.\<close>

definition md5_add_count :: "nat \<Rightarrow> md5_state \<Rightarrow> md5_state" where
  "md5_add_count nbytes pms =
     (let nbits = of_nat (8 * nbytes);
          c1 = md5_count1 pms + of_nat (nbytes div 2 ^ 29);
          c0 = md5_count0 pms + nbits
      in pms\<lparr> md5_count0 := c0, md5_count1 := (if c0 < nbits then c1 + 1 else c1) \<rparr>)"

text \<open>The full blocks and the rest behind an initial partial block.\<close>

definition md5_full_blocks :: "byte list \<Rightarrow> md5_state \<Rightarrow> md5_state" where
  "md5_full_blocks p pms =
     (case md5_loop p (md5_abcd pms) of
        (p', abcd) \<Rightarrow> pms\<lparr> md5_abcd := abcd, md5_buf := p' @ drop (length p') (md5_buf pms) \<rparr>)"

definition md5_append :: "byte list \<Rightarrow> md5_state \<Rightarrow> md5_state" where
  "md5_append data pms =
     (let nbytes = length data; offset = unat (drop_bit 3 (md5_count0 pms) AND 63)
      in if nbytes = 0 then pms
         else
           let pms1 = md5_add_count nbytes pms
           in if offset \<noteq> 0
              then let copy = (if offset + nbytes > 64 then 64 - offset else nbytes);
                       buf = take offset (md5_buf pms1) @ take copy data @ drop (offset + copy) (md5_buf pms1);
                       pms2 = pms1\<lparr> md5_buf := buf \<rparr>
                   in if offset + copy < 64 then pms2
                      else md5_full_blocks (drop copy data) (pms2\<lparr> md5_abcd := md5_process (md5_abcd pms2) buf \<rparr>)
              else md5_full_blocks data pms1)"

definition md5_finish :: "md5_state \<Rightarrow> byte list \<times> md5_state" where
  "md5_finish pms =
     (let pad = 0x80 # replicate 63 0;
          data = map (\<lambda>i. ucast (drop_bit (push_bit 3 (i AND 3)) (if drop_bit 2 i = 0 then md5_count0 pms else md5_count1 pms)) :: byte) [0..<8];
          pms1 = md5_append (take (unat ((55 - drop_bit 3 (md5_count0 pms)) AND 63) + 1) pad) pms;
          pms2 = md5_append data pms1
      in (map (\<lambda>i. ucast (drop_bit (push_bit 3 (i AND 3)) (md5_abcd pms2 ! drop_bit 2 i))) [0..<16], pms2))"

section \<open>What a context stands for\<close>

definition md5_H0 :: "32 word list" where
  "md5_H0 = [0x67452301, 0xefcdab89, 0x98badcfe, 0x10325476]"

definition md5_repr :: "md5_state \<Rightarrow> byte list \<Rightarrow> bool" where
  "md5_repr c m \<longleftrightarrow> md5_abcd c = foldl md5_process md5_H0 (blocks m) \<and>
     length (md5_buf c) = 64 \<and> take (length m mod 64) (md5_buf c) = tail m \<and>
     bit_count (md5_count0 c) (md5_count1 c) = 8 * length m mod 2 ^ 64"

lemma md5_repr_init: "length (md5_buf c) = 64 \<Longrightarrow> md5_repr (md5_init c) []"
  by (simp add: md5_repr_def md5_init_def md5_H0_def bit_count_def T_MASK_def)

lemma md5_loop_blocks: "md5_loop p st = (tail p, foldl md5_process st (blocks p))"
proof (induction p arbitrary: st rule: block_induct)
  case (Block b m)
  then show ?case by (subst md5_loop.simps) (simp add: blocks_block tail_block)
qed (simp add: md5_loop.simps)

lemma md5_add_count_sum:
  "bit_count (md5_count0 (md5_add_count n c)) (md5_count1 (md5_add_count n c)) = (bit_count (md5_count0 c) (md5_count1 c) + 8 * n) mod 2 ^ 64"
proof -
  let ?x = "of_nat (8 * n) :: 32 word" and ?y = "of_nat (n div 2 ^ 29) :: 32 word"
  have "unat ?x = 8 * n mod 2 ^ 32" "unat ?y = 8 * n div 2 ^ 32 mod 2 ^ 32"
    unfolding unat_of_nat by simp_all
  from bit_count_add [OF this, of "md5_count0 c" "md5_count1 c"] show ?thesis
    using add_with_carry(1,2) [of "md5_count0 c" ?x] by (auto simp: md5_add_count_def Let_def add_ac split: if_splits)
qed

lemma full_blocks_repr:
  assumes "md5_abcd c = foldl md5_process md5_H0 bs" "length (md5_buf c) = 64"
    "blocks m = bs @ blocks p" "tail m = tail p" "bit_count (md5_count0 c) (md5_count1 c) = 8 * length m mod 2 ^ 64"
  shows "md5_repr (md5_full_blocks p c) m"
proof -
  have "length m mod 64 = length p mod 64" using assms(4) length_tail [of m] length_tail [of p] by simp
  then show ?thesis using assms by (simp add: md5_repr_def md5_full_blocks_def md5_loop_blocks length_tail)
qed

lemma md5_repr_append:
  assumes r: "md5_repr c m"
  shows "md5_repr (md5_append d c) (m @ d)"
proof (cases "d = []")
  case True
  then show ?thesis using r by (simp add: md5_append_def)
next
  case False
  let ?j = "length m mod 64" and ?c = "md5_add_count (length d) c"
  have c: "md5_abcd c = foldl md5_process md5_H0 (blocks m)" "length (md5_buf c) = 64"
    "take ?j (md5_buf c) = tail m" "bit_count (md5_count0 c) (md5_count1 c) = 8 * length m mod 2 ^ 64"
    using r by (simp_all add: md5_repr_def)
  have j: "unat (drop_bit 3 (md5_count0 c) AND 63) = ?j" by (rule count_bytes(2) [OF c(4)])
  have same: "md5_abcd ?c = md5_abcd c" "md5_buf ?c = md5_buf c" by (simp_all add: md5_add_count_def Let_def)
  have count: "bit_count (md5_count0 ?c) (md5_count1 ?c) = 8 * length (m @ d) mod 2 ^ 64"
    unfolding md5_add_count_sum c(4) by (simp add: mod_simps)
  note app = blocks_append [of m d] tail_append [of m d]
  consider "?j = 0" | "?j \<noteq> 0" "?j + length d < 64" | "?j \<noteq> 0" "64 \<le> ?j + length d" by linarith
  then show ?thesis
  proof cases
    case 1
    then have "tail m = []" using length_tail [of m] by simp
    then have "md5_repr (md5_full_blocks d ?c) (m @ d)"
      using full_blocks_repr [of ?c "blocks m" "m @ d" d] app c(1,2) count by (simp add: same)
    then show ?thesis using 1 False by (simp add: md5_append_def Let_def j)
  next
    case 2
    have "blocks (m @ d) = blocks m" "tail (m @ d) = tail m @ d" using 2 app by (simp_all add: length_tail)
    moreover have "length (m @ d) mod 64 = ?j + length d" using calculation(2) length_tail [of "m @ d"] length_tail [of m] by simp
    ultimately show ?thesis using 2 False c count by (simp add: md5_append_def Let_def j md5_repr_def same length_tail)
  next
    case 3
    define first where "first = tail m @ take (64 - ?j) d"
    have first: "length first = 64" "tail m @ d = first @ drop (64 - ?j) d" using 3 by (auto simp: first_def length_tail)
    have b: "blocks (m @ d) = (blocks m @ [first]) @ blocks (drop (64 - ?j) d)" "tail (m @ d) = tail (drop (64 - ?j) d)"
      using app blocks_block [OF first(1)] tail_block [OF first(1)] by (simp_all add: first(2))
    have copy: "(if ?j + length d > 64 then 64 - ?j else length d) = 64 - ?j" using 3 by auto
    have "?j \<le> 64" using mod_less_divisor [of 64 "length m"] by linarith
    then have "md5_append d c = md5_full_blocks (drop (64 - ?j) d) (?c\<lparr> md5_buf := first, md5_abcd := md5_process (md5_abcd c) first \<rparr>)"
      using 3 False c(2,3) unfolding md5_append_def Let_def j copy by (simp add: same first_def)
    then show ?thesis
      using full_blocks_repr [of "?c\<lparr> md5_buf := first, md5_abcd := md5_process (md5_abcd c) first \<rparr>" "blocks m @ [first]" "m @ d"]
        b count c(1) first(1) by simp
  qed
qed

interpretation md5: hash_context md5_repr "\<lambda>_. True" md5_append
  by unfold_locales (rule md5_repr_append)

section \<open>The digest\<close>

definition rfc_pad :: "byte list \<Rightarrow> byte list" where
  "rfc_pad m = 0x80 # replicate (nat ((55 - int (length m)) mod 64)) 0 @ rev (be_bytes64 (8 * length m))"

definition rfc_md5 :: "byte list \<Rightarrow> byte list" where
  "rfc_md5 m =
     (case foldl rfc_block (0x67452301, 0xefcdab89, 0x98badcfe, 0x10325476) (blocks (m @ rfc_pad m)) of
        (a, b, c, d) \<Rightarrow> concat (map (\<lambda>w. rev (word_bytes w)) [a, b, c, d]))"

lemma md5_count_digits:
  "map (\<lambda>i. ucast (drop_bit (push_bit 3 (i AND 3)) (if drop_bit 2 i = 0 then c0 else c1)) :: byte) [0..<8] =
     rev (word_bytes c1 @ word_bytes c0)"
proof -
  have "[0..<8] = [0, 1, 2, 3, 4, 5, 6, 7]" by (simp add: upt_rec)
  then show ?thesis by (simp add: word_bytes_def)
qed

lemma md5_digest_bytes:
  assumes "length st = 4"
  shows "map (\<lambda>i. ucast (drop_bit (push_bit 3 (i AND 3)) (st ! drop_bit 2 i)) :: byte) [0..<16] =
    concat (map (\<lambda>w. rev (word_bytes w)) st)"
proof -
  obtain a b c d where st: "st = [a, b, c, d]"
    using assms by (auto simp: length_Suc_conv numeral_eq_Suc)
  have "[0..<16] = [0, 1, 2, 3, 4, 5, 6, 7, 8, 9, 10, 11, 12, 13, 14, 15]" by (simp add: upt_rec)
  then show ?thesis unfolding st by (simp add: word_bytes_def)
qed

lemma processes_rfc:
  "length st = 4 \<Longrightarrow> length (foldl md5_process st bs) = 4 \<and>
     registers4_of (foldl md5_process st bs) = foldl rfc_block (registers4_of st) bs"
  by (induction bs arbitrary: st) (simp_all add: process_rfc)

lemma md5_pad_length:
  assumes "bit_count c0 c1 = 8 * n mod 2 ^ 64"
  shows "unat ((55 - drop_bit 3 c0) AND 63) = nat ((55 - int n) mod 64)"
proof -
  let ?v = "drop_bit 3 c0"
  have m: "(63 :: 32 word) = mask 6" by (simp add: mask_eq_exp_minus_1)
  have "unat ?v = unat c0 div 8"
    unfolding unsigned_drop_bit_eq by (simp add: take_bit_unat drop_bit_eq_div)
  then have v: "uint ?v mod 64 = int n mod 64"
    using count_bytes(1) [OF assms] by (metis of_nat_mod of_nat_numeral uint_nat)
  have "uint ((55 - ?v) AND 63) = take_bit 6 (uint (55 - ?v))"
    unfolding m take_bit_eq_mask [symmetric] unsigned_take_bit_eq ..
  also have "\<dots> = (55 - uint ?v) mod 2 ^ 32 mod 64" by (simp add: take_bit_eq_mod uint_word_ariths)
  also have "\<dots> = (55 - uint ?v) mod 64" by (simp add: mod_mod_cancel)
  also have "\<dots> = (55 - int n) mod 64" using v by (metis mod_diff_right_eq)
  finally show ?thesis by (metis nat_uint_eq)
qed

lemma md5_finish_digest:
  assumes c: "md5_repr c m" and len: "length m < 2 ^ 61"
  shows "fst (md5_finish c) = rfc_md5 m"
proof -
  let ?k = "nat ((55 - int (length m)) mod 64)"
  let ?zeros = "replicate ?k (0 :: byte)"
  let ?count = "rev (word_bytes (md5_count1 c) @ word_bytes (md5_count0 c))"
  have "8 * length m = unat (md5_count0 c) + 2 ^ 32 * unat (md5_count1 c)"
    using c len by (simp add: md5_repr_def bit_count_def)
  then have count: "?count = rev (be_bytes64 (8 * length m))"
    using counter_bytes [of "md5_count0 c" "md5_count1 c"] by (simp add: be_bytes64_def word_bytes_def)
  have k: "unat ((55 - drop_bit 3 (md5_count0 c)) AND 63) = ?k"
    by (rule md5_pad_length [of _ "md5_count1 c"]) (use c in \<open>simp add: md5_repr_def\<close>)
  have "?k \<le> 63" by simp
  then have pad: "take (?k + 1) (0x80 # replicate 63 0) = 0x80 # ?zeros" by (simp add: min_def)
  have r: "md5_repr (md5_append ?count (md5_append (0x80 # ?zeros) c)) ((m @ 0x80 # ?zeros) @ ?count)"
    by (intro md5_repr_append c)
  let ?st = "foldl md5_process md5_H0 (blocks (m @ rfc_pad m))"
  have st: "md5_abcd (md5_append ?count (md5_append (0x80 # ?zeros) c)) = ?st"
    using r unfolding count rfc_pad_def md5_repr_def by simp
  have h: "length ?st = 4" "registers4_of ?st = foldl rfc_block (registers4_of md5_H0) (blocks (m @ rfc_pad m))"
    using processes_rfc [of md5_H0 "blocks (m @ rfc_pad m)"] by (simp_all add: md5_H0_def)
  then obtain x0 x1 x2 x3 where x: "?st = [x0, x1, x2, x3]"
    by (auto simp: length_Suc_conv numeral_eq_Suc)
  have "fst (md5_finish c) = concat (map (\<lambda>w. rev (word_bytes w)) ?st)"
    unfolding md5_finish_def Let_def md5_count_digits k pad st fst_conv by (rule md5_digest_bytes [OF h(1)])
  also have "\<dots> = rfc_md5 m"
    using h(2) [symmetric] unfolding x by (simp add: rfc_md5_def registers4_of_def md5_H0_def)
  finally show ?thesis .
qed

section \<open>Properties\<close>

text \<open>
  C33: the incremental context computes MD5. Whatever pieces a message is fed in, the digest is that
  of RFC 1321 for the whole message; the 64 macro calls, the constants given by their complements and
  the padding by masking are those of the algorithm.
\<close>

theorem md5_correct:
  assumes "length (concat ds) < 2 ^ 61" "length (md5_buf c) = 64"
  shows "fst (md5_finish (fold md5_append ds (md5_init c))) = rfc_md5 (concat ds)"
  using md5_finish_digest [OF md5.repr_updates [OF md5_repr_init [OF assms(2)]]] assms(1) by (simp add: list_all_iff)

lemma md5_correct_witness:
  "fst (md5_finish (fold md5_append [replicate 70 97, [98, 99], []]
     (md5_init \<lparr> md5_count0 = 7, md5_count1 = 0, md5_abcd = [], md5_buf = replicate 64 0 \<rparr>))) =
   rfc_md5 (replicate 70 97 @ [98, 99])"
  using md5_correct [of "[replicate 70 97, [98, 99], []]"] by simp

end
