(* ===== verification/Passwords.thy ===== *)
theory Passwords
  imports Md5
begin

text \<open>
  The passwords file (\<open>src/civetweb.c\<close>, \<open>bin2str\<close>, \<open>mg_md5\<close> and \<open>mg_modify_passwords_file_ha1\<close>,
  \<open>mg_modify_passwords_file\<close>): a text file with a line \<open>user:domain:hash\<close> for each user. A file is
  its contents; how the calls of the operating system end is an argument.
\<close>

section \<open>Hashes of strings\<close>

definition bin2str :: "byte list \<Rightarrow> string" where
  "bin2str p = concat (map (\<lambda>b. [hex_digit (unat (drop_bit 4 b)), hex_digit (unat (b AND 0x0f))]) p)"

definition string_bytes :: "string \<Rightarrow> byte list" where
  "string_bytes s = map of_char s"

text \<open>The arguments end with the first null pointer; \<open>ctx\<close> is a local variable without initial value.\<close>

definition mg_md5 :: "string option list \<Rightarrow> string" where
  "mg_md5 args =
     (let ctx = md5_init \<lparr> md5_count0 = 0, md5_count1 = 0, md5_abcd = [], md5_buf = replicate 64 0 \<rparr>;
          strings = map the (takeWhile (\<lambda>p. p \<noteq> None) args)
      in bin2str (fst (md5_finish (fold (\<lambda>p. md5_append (string_bytes p)) strings ctx))))"

lemma mg_md5_concat:
  assumes "length (concat ss) < 2 ^ 61"
  shows "mg_md5 (map Some ss @ None # args) = bin2str (rfc_md5 (string_bytes (concat ss)))"
proof -
  have "length (concat (map string_bytes ss)) = length (concat ss)" by (induction ss) (simp_all add: string_bytes_def)
  moreover have "takeWhile (\<lambda>p. p \<noteq> None) (map Some ss @ None # args) = map Some ss" by (induction ss) simp_all
  moreover have "fold (\<lambda>p. md5_append (string_bytes p)) ss c = fold md5_append (map string_bytes ss) c" for c
    by (simp add: fold_map comp_def)
  moreover have "concat (map string_bytes ss) = string_bytes (concat ss)" by (induction ss) (simp_all add: string_bytes_def)
  ultimately show ?thesis
    using md5_finish_digest [OF md5.repr_updates [OF md5_repr_init], of _ "map string_bytes ss"] assms
    by (simp add: mg_md5_def Let_def list_all_iff comp_def)
qed

lemma bin2str_chars: "c \<in> set (bin2str p) \<Longrightarrow> c \<in> set ''0123456789abcdef''"
proof -
  have "hex_digit n \<in> set ''0123456789abcdef''" if "n < 16" for n
    unfolding hex_digit_def by (rule nth_mem) (use that in simp)
  moreover have "unat (drop_bit 4 b :: byte) < 16" "unat (b AND 0x0f :: byte) < 16" for b :: byte
  proof -
    have "unat b < 256" by simp
    then show "unat (drop_bit 4 b) < 16" by (simp add: unat_byte_drop less_mult_imp_div_less)
    have m: "(0x0f :: byte) = mask 4" by (simp add: mask_eq_exp_minus_1)
    show "unat (b AND 0x0f) < 16" unfolding m take_bit_eq_mask [symmetric] unsigned_take_bit_eq by (simp add: take_bit_eq_mod)
  qed
  moreover assume "c \<in> set (bin2str p)"
  ultimately show ?thesis by (auto simp: bin2str_def)
qed

lemma length_bin2str: "length (bin2str p) = 2 * length p"
  by (induction p) (simp_all add: bin2str_def)

lemma length_mg_md5: "length (mg_md5 args) = 32"
  by (simp add: mg_md5_def Let_def length_bin2str md5_finish_def)

section \<open>Lines of a file\<close>

text \<open>\<open>fgets\<close> with a buffer of \<open>n\<close> characters: the line with its end and the rest of the file.\<close>

definition fgets :: "nat \<Rightarrow> string \<Rightarrow> (string \<times> string) option" where
  "fgets n s =
     (if s = [] then None
      else case memchr (CHR 0x0A) (take (n - 1) s) of
             Some i \<Rightarrow> Some (take (Suc i) s, drop (Suc i) s)
           | None \<Rightarrow> Some (take (n - 1) s, drop (n - 1) s))"

lemma fgets_rest: "n > 1 \<Longrightarrow> fgets n s = Some (line, rest) \<Longrightarrow> length rest < length s"
proof -
  assume n: "n > 1" and f: "fgets n s = Some (line, rest)"
  then have s: "0 < length s" by (auto simp: fgets_def split: if_splits)
  consider i where "rest = drop (Suc i) s" | "rest = drop (n - 1) s"
    using f by (auto simp: fgets_def split: if_splits option.splits)
  then show ?thesis using s n by cases (cases s; simp)+
qed

text \<open>The conversions \<open>%255[^:]\<close> and \<open>%255s\<close> of \<open>sscanf\<close>.\<close>

definition scan_until_colon :: "string \<Rightarrow> (string \<times> string) option" where
  "scan_until_colon s =
     (let w = take 255 (takeWhile (\<lambda>c. c \<noteq> CHR '':'') s) in if w = [] then None else Some (w, drop (length w) s))"

definition scan_word :: "string \<Rightarrow> string option" where
  "scan_word s =
     (let w = take 255 (takeWhile (\<lambda>c. \<not> isspace c) (dropWhile isspace s)) in if w = [] then None else Some w)"

definition scan_entry :: "string \<Rightarrow> (string \<times> string \<times> string) option" where
  "scan_entry line =
     (case scan_until_colon line of
        Some (u, CHR '':'' # r) \<Rightarrow>
          (case scan_until_colon r of
             Some (d, CHR '':'' # r') \<Rightarrow> (case scan_word r' of Some h \<Rightarrow> Some (u, d, h) | None \<Rightarrow> None)
           | _ \<Rightarrow> None)
      | _ \<Rightarrow> None)"

definition entry_line :: "string \<Rightarrow> string \<Rightarrow> string \<Rightarrow> string" where
  "entry_line u d h = u @ '':'' @ d @ '':'' @ h @ [CHR 0x0A]"

section \<open>Changing a file\<close>

text \<open>The outcome of the calls of the operating system.\<close>

record io_results =
  io_read :: bool
  io_create :: bool
  io_chmod :: bool
  io_write :: bool
  io_close :: bool

text \<open>
  The loop over the lines of the old file: the new text, and whether the user was found. The size of
  the buffer is \<open>temp_buf_len\<close>.
\<close>

function copy_entries :: "int \<Rightarrow> string \<Rightarrow> string \<Rightarrow> string option \<Rightarrow> string \<Rightarrow> string \<Rightarrow> bool \<Rightarrow> string \<times> bool" where
  "copy_entries temp_buf_len user domain ha1 content temp_file found =
     (case fgets 512 content of
        None \<Rightarrow> (temp_file, found)
      | Some (line, rest) \<Rightarrow>
          if \<not> int (length temp_file) + 600 < temp_buf_len then (temp_file, found)
          else case scan_entry (cstr line) of
                 None \<Rightarrow> copy_entries temp_buf_len user domain ha1 rest temp_file found
               | Some (u, d, h) \<Rightarrow>
                   if u = user \<and> d = domain
                   then copy_entries temp_buf_len user domain ha1 rest
                          (case ha1 of
                             Some new \<Rightarrow> if \<not> found then temp_file @ entry_line user domain new else temp_file
                           | None \<Rightarrow> temp_file) True
                   else copy_entries temp_buf_len user domain ha1 rest (temp_file @ entry_line u d h) found)"
  by pat_completeness auto
termination
  by (relation "measure (\<lambda>(n, u, d, h, content, t, f). length content)") (auto dest!: fgets_rest [rotated])

declare copy_entries.simps [simp del]

text \<open>A name of at most 255 characters without control characters.\<close>

definition name_ok :: "string \<Rightarrow> bool" where
  "name_ok s \<longleftrightarrow> (\<forall>c \<in> set (take 255 s). \<not> iscntrl c) \<and> length s \<le> 255"

definition PATH_MAX :: nat where
  "PATH_MAX = 4096"

text \<open>
  The result and the file afterwards; \<open>None\<close> is a file that does not exist. The contents are what the
  code writes; after a failed \<open>fwrite\<close>, \<open>fprintf\<close> or \<open>fclose\<close> less of it may be on disk. A new entry of less
  than six characters counts as not written. The code keeps 600 characters free for an entry and does
  not check the length of \<open>ha1\<close>; the model is for hashes that fit.
\<close>

definition mg_modify_passwords_file_ha1 ::
    "io_results \<Rightarrow> string option \<Rightarrow> string option \<Rightarrow> string option \<Rightarrow> string option \<Rightarrow> string option \<Rightarrow> int \<times> string option" where
  "mg_modify_passwords_file_ha1 io file fname0 domain0 user0 ha1' =
     (let ha1 = (if ha1' = Some [] then None else ha1')
      in case (fname0, domain0, user0) of
           (Some fname, Some domain, Some user) \<Rightarrow>
             if CHR '':'' \<in> set user \<or> CHR '':'' \<in> set domain then (0, file)
             else if \<not> name_ok user \<or> \<not> name_ok domain then (0, file)
             else if length fname \<ge> PATH_MAX then (0, file)
             else if file \<noteq> None \<and> (length (the file) > 10485760 \<or> \<not> io_read io) then (0, file)
             else
               let (temp_file, found) =
                     (case file of
                        None \<Rightarrow> ([], False)
                      | Some content \<Rightarrow> copy_entries (int (length content) + 1024) user domain ha1 content [] False);
                   added = (case ha1 of Some new \<Rightarrow> if \<not> found then entry_line user domain new else [] | None \<Rightarrow> [])
               in if \<not> io_create io then (0, file)
                  else (if io_chmod io \<and> (temp_file = [] \<and> added = [] \<or> io_write io) \<and> (added = [] \<or> length added \<ge> 6) \<and> io_close io
                        then 1 else 0, Some (temp_file @ added))
         | _ \<Rightarrow> (0, file))"

definition mg_modify_passwords_file ::
    "io_results \<Rightarrow> string option \<Rightarrow> string option \<Rightarrow> string option \<Rightarrow> string option \<Rightarrow> string option \<Rightarrow> int \<times> string option" where
  "mg_modify_passwords_file io file fname domain user pass =
     (case (fname, domain, user) of
        (Some f, Some d, Some u) \<Rightarrow>
          if pass = None \<or> pass = Some [] then mg_modify_passwords_file_ha1 io file fname domain user None
          else mg_modify_passwords_file_ha1 io file fname domain user
                 (Some (mg_md5 [user, Some '':'', domain, Some '':'', pass, None]))
      | _ \<Rightarrow> (0, file))"

section \<open>A table of users\<close>

text \<open>
  A well-formed file is the rendering of a list of entries that fit into the line buffer of 512
  characters. It stands for a map from user and domain to the hash.
\<close>

type_synonym pw_entry = "string \<times> string \<times> string"

definition field_ok :: "string \<Rightarrow> bool" where
  "field_ok s \<longleftrightarrow> s \<noteq> [] \<and> length s \<le> 255 \<and> (\<forall>c \<in> set s. c \<noteq> CHR '':'' \<and> \<not> iscntrl c)"

definition hash_ok :: "string \<Rightarrow> bool" where
  "hash_ok h \<longleftrightarrow> h \<noteq> [] \<and> length h \<le> 255 \<and> (\<forall>c \<in> set h. \<not> isspace c \<and> \<not> iscntrl c)"

definition entry_ok :: "pw_entry \<Rightarrow> bool" where
  "entry_ok e = (case e of (u, d, h) \<Rightarrow> field_ok u \<and> field_ok d \<and> hash_ok h \<and> length u + length d + length h + 3 \<le> 511)"

definition render :: "pw_entry list \<Rightarrow> string" where
  "render es = concat (map (\<lambda>(u, d, h). entry_line u d h) es)"

definition users :: "pw_entry list \<Rightarrow> string \<times> string \<Rightarrow> string option" where
  "users es = map_of (map (\<lambda>(u, d, h). ((u, d), h)) es)"

lemma render_simps [simp]:
  "render [] = []" "render ((u, d, h) # es) = entry_line u d h @ render es" "render (es @ fs) = render es @ render fs"
  by (simp_all add: render_def)

lemma control_chars: "iscntrl NUL" "iscntrl (CHR 0x0A)"
  by (simp_all add: ctype_simps)

lemma field_clean: "field_ok s \<Longrightarrow> CHR 0x0A \<notin> set s \<and> NUL \<notin> set s"
  using control_chars unfolding field_ok_def by metis

lemma hash_clean: "hash_ok s \<Longrightarrow> CHR 0x0A \<notin> set s \<and> NUL \<notin> set s"
  using control_chars unfolding hash_ok_def by metis

lemma entry_line_chars:
  assumes "entry_ok (u, d, h)"
  shows "length (entry_line u d h) \<le> 511" "wf_cstr (entry_line u d h)" "CHR 0x0A \<notin> set (butlast (entry_line u d h))"
proof -
  have w: "entry_line u d h = (u @ '':'' @ d @ '':'' @ h) @ [CHR 0x0A]" by (simp add: entry_line_def)
  have n: "NUL \<notin> set u \<union> set d \<union> set h" "CHR 0x0A \<notin> set u \<union> set d \<union> set h"
    using assms field_clean [of u] field_clean [of d] hash_clean [of h] by (simp_all add: entry_ok_def)
  then show "wf_cstr (entry_line u d h)" by (simp add: w wf_cstr_def)
  have "CHR 0x0A \<notin> set (u @ '':'' @ d @ '':'' @ h)" using n(2) by simp
  then show "CHR 0x0A \<notin> set (butlast (entry_line u d h))" unfolding w butlast_snoc .
  show "length (entry_line u d h) \<le> 511" using assms by (simp add: entry_ok_def entry_line_def)
qed

lemma fgets_line:
  assumes "l = w @ [CHR 0x0A]" "CHR 0x0A \<notin> set w" "length l < n"
  shows "fgets n (l @ r) = Some (l, r)"
proof -
  have "memchr (CHR 0x0A) (take (n - 1) (l @ r)) = Some (length w)"
    using assms by (auto simp: memchr_Some_iff nth_append take_append)
  then show ?thesis using assms by (simp add: fgets_def)
qed

lemma scan_until_colon_field: "field_ok u \<Longrightarrow> scan_until_colon (u @ CHR '':'' # r) = Some (u, CHR '':'' # r)"
proof -
  assume u: "field_ok u"
  then have "takeWhile (\<lambda>c. c \<noteq> CHR '':'') (u @ CHR '':'' # r) = u"
    by (subst takeWhile_append2) (auto simp: field_ok_def)
  then show ?thesis using u by (simp add: scan_until_colon_def field_ok_def)
qed

lemma scan_word_hash:
  assumes h: "hash_ok h" and r: "r = [] \<or> r = [CHR 0x0A]"
  shows "scan_word (h @ r) = Some h"
proof -
  have "dropWhile isspace (h @ r) = h @ r" using h by (cases h) (auto simp: hash_ok_def)
  moreover have "takeWhile (\<lambda>c. \<not> isspace c) (h @ r) = h"
    using h r by (subst takeWhile_append2) (auto simp: hash_ok_def ctype_simps)
  ultimately show ?thesis using h unfolding scan_word_def Let_def by (simp add: hash_ok_def)
qed

lemma scan_entry_line: "entry_ok (u, d, h) \<Longrightarrow> scan_entry (cstr (entry_line u d h)) = Some (u, d, h)"
  using entry_line_chars(2) [of u d h]
  by (simp add: cstr_wf entry_ok_def scan_entry_def entry_line_def scan_until_colon_field scan_word_hash)

lemma fgets_entry: "entry_ok (u, d, h) \<Longrightarrow> fgets 512 (entry_line u d h @ r) = Some (entry_line u d h, r)"
  using entry_line_chars [of u d h] by (intro fgets_line [of _ "butlast (entry_line u d h)"]) (auto simp: entry_line_def butlast_append)

text \<open>The table after the change; entries of the user behind the first one are dropped.\<close>

fun change_entries :: "string \<Rightarrow> string \<Rightarrow> string option \<Rightarrow> bool \<Rightarrow> pw_entry list \<Rightarrow> pw_entry list" where
  "change_entries user domain ha1 found [] = (if found then [] else case ha1 of Some new \<Rightarrow> [(user, domain, new)] | None \<Rightarrow> [])"
| "change_entries user domain ha1 found ((u, d, h) # es) =
     (if u = user \<and> d = domain
      then (if found then [] else case ha1 of Some new \<Rightarrow> [(user, domain, new)] | None \<Rightarrow> []) @
           change_entries user domain ha1 True es
      else (u, d, h) # change_entries user domain ha1 found es)"

lemma users_simps [simp]:
  "users [] = Map.empty" "users ((u, d, h) # es) = (users es)((u, d) \<mapsto> h)"
  by (simp_all add: users_def)

lemma users_append: "users (es @ fs) = users fs ++ users es"
  by (simp add: users_def)

text \<open>The change of the table is a map update.\<close>

lemma users_change_found: "users (change_entries user domain ha1 True es) = (users es)((user, domain) := None)"
  by (induction user domain ha1 "True" es rule: change_entries.induct) (auto simp: fun_eq_iff)

lemma users_change: "users (change_entries user domain ha1 False es) = (users es)((user, domain) := ha1)"
  by (induction user domain ha1 "False" es rule: change_entries.induct)
    (auto simp: fun_eq_iff users_change_found users_append split: option.splits)

text \<open>The loop over the lines of a rendered file computes it; the buffer is large enough.\<close>

lemma copy_entries_render:
  assumes "list_all entry_ok es" "length temp + length (render es) + (if found then 0 else K) + 600 < n" "\<And>h. ha1 = Some h \<Longrightarrow> length h \<le> K"
  shows "case copy_entries (int n) user domain ha1 (render es) temp found of
      (t, f) \<Rightarrow> t @ (case ha1 of Some new \<Rightarrow> if \<not> f then entry_line user domain new else [] | None \<Rightarrow> []) =
        temp @ render (change_entries user domain ha1 found es)"
  using assms(1,2)
proof (induction es arbitrary: temp found)
  case Nil
  then show ?case by (subst copy_entries.simps) (simp add: fgets_def split: option.splits)
next
  case (Cons e es)
  obtain u d h where e: "e = (u, d, h)" by (cases e)
  have ok: "entry_ok (u, d, h)" "list_all entry_ok es" using Cons.prems(1) e by simp_all
  have room: "int (length temp) + 600 < int n" using Cons.prems(2) by simp
  have len: "length (entry_line u d x) = length u + length d + length x + 3" for x by (simp add: entry_line_def)
  define add where "add = (case ha1 of Some new \<Rightarrow> if \<not> found then entry_line user domain new else [] | None \<Rightarrow> [])"
  have step: "copy_entries (int n) user domain ha1 (render (e # es)) temp found =
      (if u = user \<and> d = domain then copy_entries (int n) user domain ha1 (render es) (temp @ add) True
       else copy_entries (int n) user domain ha1 (render es) (temp @ entry_line u d h) found)"
    using room by (subst copy_entries.simps) (simp add: e fgets_entry [OF ok(1)] scan_entry_line [OF ok(1)] add_def split: option.splits)
  show ?case
  proof (cases "u = user \<and> d = domain")
    case True
    have "length add \<le> length (entry_line u d h) + (if found then 0 else K)"
      using assms(3) True by (auto simp: add_def entry_line_def split: option.splits)
    then have "length (temp @ add) + length (render es) + (if True then 0 else K) + 600 < n" using Cons.prems(2) by (simp add: e)
    note ih = Cons.IH [OF ok(2) this]
    obtain t f where tf: "copy_entries (int n) user domain ha1 (render es) (temp @ add) True = (t, f)" by fastforce
    have "render (change_entries user domain ha1 found (e # es)) = add @ render (change_entries user domain ha1 True es)"
      using True by (simp add: e add_def split: option.splits)
    then show ?thesis using ih unfolding step if_P [OF True] tf by simp
  next
    case False
    have "length (temp @ entry_line u d h) + length (render es) + (if found then 0 else K) + 600 < n" using Cons.prems(2) by (simp add: e)
    note ih = Cons.IH [OF ok(2) this]
    obtain t f where tf: "copy_entries (int n) user domain ha1 (render es) (temp @ entry_line u d h) found = (t, f)" by fastforce
    have "render (change_entries user domain ha1 found (e # es)) = entry_line u d h @ render (change_entries user domain ha1 found es)"
      using False by (auto simp: e)
    then show ?thesis using ih unfolding step if_not_P [OF False] tf by simp
  qed
qed

section \<open>Properties\<close>

lemma mg_md5_hash_ok: "hash_ok (mg_md5 args)"
proof -
  have "mg_md5 args \<noteq> []" using length_mg_md5 [of args] by auto
  moreover have "\<not> isspace c \<and> \<not> iscntrl c" if "c \<in> set (mg_md5 args)" for c
  proof -
    have "c \<in> set ''0123456789abcdef''" using that unfolding mg_md5_def Let_def by (rule bin2str_chars)
    then show ?thesis by (auto simp: ctype_simps)
  qed
  ultimately show ?thesis by (simp add: hash_ok_def length_mg_md5)
qed

lemma field_names: "field_ok u \<Longrightarrow> name_ok u \<and> CHR '':'' \<notin> set u"
  by (auto simp: field_ok_def name_ok_def dest: in_set_takeD)

lemma entry_line_length:
  assumes "field_ok u" "field_ok d"
  shows "h \<noteq> [] \<Longrightarrow> 6 \<le> length (entry_line u d h)"
  using assms by (cases u; cases d; cases h) (simp_all add: field_ok_def entry_line_def)

lemma modify_rendered:
  assumes "list_all entry_ok es" "field_ok user" "field_ok domain" "\<And>h. ha1 = Some h \<Longrightarrow> h \<noteq> [] \<and> length h \<le> 255"
    "length fname < PATH_MAX" "length (render es) \<le> 10485760"
    "io_read io \<and> io_create io \<and> io_chmod io \<and> io_write io \<and> io_close io"
  shows "mg_modify_passwords_file_ha1 io (Some (render es)) (Some fname) (Some domain) (Some user) ha1 =
    (1, Some (render (change_entries user domain ha1 False es)))"
proof -
  obtain t f where tf: "copy_entries (int (length (render es) + 1024)) user domain ha1 (render es) [] False = (t, f)" by fastforce
  have "t @ (case ha1 of Some new \<Rightarrow> if \<not> f then entry_line user domain new else [] | None \<Rightarrow> []) =
      render (change_entries user domain ha1 False es)"
    using copy_entries_render [of es "[]" False 255 "length (render es) + 1024" ha1 user domain] assms(1,4) tf by simp
  moreover have "(if ha1 = Some [] then None else ha1) = ha1" using assms(4) by auto
  moreover have "6 \<le> length (entry_line user domain h)" if "ha1 = Some h" for h
    using entry_line_length [OF assms(2,3), of h] assms(4) [OF that] by simp
  ultimately show ?thesis
    using tf assms(5-7) field_names [OF assms(2)] field_names [OF assms(3)]
    assms(4) by (cases ha1) (auto simp: mg_modify_passwords_file_ha1_def Let_def)
qed

text \<open>
  C34: changing a password is an update of the table of users. For a file that holds a list of
  entries, each of which fits into the line buffer, the new file holds the entries with the hash of
  the user changed, added or removed; all other users keep theirs.
\<close>

theorem modify_passwords_updates_map:
  assumes "list_all entry_ok es" "field_ok user" "field_ok domain" "\<And>h. ha1 = Some h \<Longrightarrow> h \<noteq> [] \<and> length h \<le> 255"
    "length fname < PATH_MAX" "length (render es) \<le> 10485760"
    "io_read io \<and> io_create io \<and> io_chmod io \<and> io_write io \<and> io_close io"
  shows "\<exists>es'. mg_modify_passwords_file_ha1 io (Some (render es)) (Some fname) (Some domain) (Some user) ha1 = (1, Some (render es')) \<and>
    users es' = (users es)((user, domain) := ha1)"
  using modify_rendered [OF assms] users_change by blast

lemma modify_passwords_updates_map_witness:
  "\<exists>es'. mg_modify_passwords_file_ha1 \<lparr> io_read = True, io_create = True, io_chmod = True, io_write = True, io_close = True \<rparr>
     (Some (render [(''jo'', ''home'', ''11''), (''al'', ''home'', ''22'')])) (Some ''pw'') (Some ''home'') (Some ''jo'') (Some ''33'') =
       (1, Some (render es')) \<and>
     users es' = (users [(''jo'', ''home'', ''11''), (''al'', ''home'', ''22'')])((''jo'', ''home'') := Some ''33'')"
  by (rule modify_passwords_updates_map)
    (simp_all add: entry_ok_def field_ok_def hash_ok_def PATH_MAX_def entry_line_def ctype_simps)

text \<open>
  A line of more than 511 characters, which the checks of the arguments allow, is read in two pieces:
  the next change of any other user cuts the hash of this one.
\<close>

lemma long_entry_truncated:
  assumes "field_ok u" "field_ok d" "hash_ok h" "CHR '':'' \<notin> set h" "length u + length d + length h + 3 > 511"
    "length u + length d < 509" "u \<noteq> user" "1200 < n"
  shows "copy_entries n user domain ha1 (entry_line u d h) [] False = (entry_line u d (take (509 - (length u + length d)) h), False)"
proof -
  define k where "k = 509 - (length u + length d)"
  have k: "0 < k" "k < length h + 1" "length u + length d + k = 509" using assms(5,6) by (auto simp: k_def)
  have lf: "CHR 0x0A \<notin> set u" "CHR 0x0A \<notin> set d" "CHR 0x0A \<notin> set h" "NUL \<notin> set u" "NUL \<notin> set d" "NUL \<notin> set h"
    using field_clean [OF assms(1)] field_clean [OF assms(2)] hash_clean [OF assms(3)] by simp_all
  define first where "first = u @ '':'' @ d @ '':'' @ take k h"
  define rest where "rest = drop k h @ [CHR 0x0A]"
  have "entry_line u d h = first @ rest" "length first = 511" using k by (simp_all add: entry_line_def first_def rest_def)
  moreover have "memchr (CHR 0x0A) first = None" unfolding memchr_None_iff first_def using lf by (auto dest: in_set_takeD)
  moreover have "first \<noteq> []" by (simp add: first_def)
  ultimately have f1: "fgets 512 (entry_line u d h) = Some (first, rest)" by (simp add: fgets_def)
  have "\<forall>c \<in> set (take k h). \<not> isspace c \<and> \<not> iscntrl c"
    using assms(3) set_take_subset [of k h] unfolding hash_ok_def by blast
  then have h: "hash_ok (take k h)" using assms(3) k by (simp add: hash_ok_def)
  from scan_word_hash [OF h, of "[]"] have "scan_word (take k h) = Some (take k h)" by simp
  moreover have "wf_cstr first" using lf by (auto simp: wf_cstr_def first_def dest: in_set_takeD)
  ultimately have s1: "scan_entry (cstr first) = Some (u, d, take k h)"
    using assms(1,2) by (simp add: cstr_wf scan_entry_def first_def scan_until_colon_field)
  have hl: "length h \<le> 255" using assms(3) by (simp add: hash_ok_def)
  moreover have "CHR 0x0A \<notin> set (drop k h)" using lf(3) by (meson in_set_dropD)
  ultimately have f2: "fgets 512 rest = Some (rest, [])"
    using fgets_line [of rest "drop k h" 512 "[]"] by (simp add: rest_def)
  have tw: "takeWhile (\<lambda>c. c \<noteq> CHR '':'') rest = rest" using assms(4) by (auto simp: rest_def takeWhile_eq_all_conv dest: in_set_dropD)
  moreover have "wf_cstr rest" using lf by (auto simp: wf_cstr_def rest_def dest: in_set_dropD)
  moreover have "length rest \<le> 255" using hl k(1) by (simp add: rest_def)
  moreover have "rest \<noteq> []" by (simp add: rest_def)
  ultimately have "scan_until_colon rest = Some (rest, [])" "wf_cstr rest"
    unfolding scan_until_colon_def Let_def tw by simp_all
  then have s2: "scan_entry (cstr rest) = None" by (simp add: cstr_wf scan_entry_def)
  have len: "length (entry_line u d (take k h)) = 512" using k by (simp add: entry_line_def)
  let ?X = "entry_line u d (take k h)"
  have "copy_entries n user domain ha1 (entry_line u d h) [] False = copy_entries n user domain ha1 rest ?X False"
    by (subst copy_entries.simps) (use assms(7,8) in \<open>simp add: f1 s1\<close>)
  also have "\<dots> = copy_entries n user domain ha1 [] ?X False"
    by (subst copy_entries.simps) (use assms(8) len in \<open>simp add: f2 s2\<close>)
  also have "\<dots> = (?X, False)"
    by (subst copy_entries.simps) (simp add: fgets_def)
  finally show ?thesis by (simp add: k_def)
qed

text \<open>Comments and includes of a passwords file are lost when any password is changed.\<close>

lemma special_lines_dropped: "copy_entries n user domain ha1 content temp found =
    copy_entries n user domain ha1 rest temp found"
  if "fgets 512 content = Some (CHR '':'' # line, rest)" "int (length temp) + 600 < n"
  using that by (subst copy_entries.simps) (simp add: scan_entry_def scan_until_colon_def cstr_def)

end
