(* ===== verification/Auth.thy ===== *)
theory Auth
  imports Passwords Base64 Response Http_Body
begin

text \<open>
  Authentication (\<open>src/civetweb.c\<close>, \<open>check_password_digest\<close> to \<open>is_authorized_for_put\<close>): the
  Authorization header with Basic and Digest credentials, the search of a passwords file with its
  includes, the choice of that file, and the request for authorization with its nonce. The file
  system is an argument: the contents of readable files and the names of directories.
\<close>

unbundle bit_operations_syntax

section \<open>Credentials\<close>

text \<open>A null pointer ends the list of strings of \<open>mg_md5\<close>; \<open>uri\<close> is not checked.\<close>

definition check_password_digest ::
    "string option \<Rightarrow> string \<Rightarrow> string option \<Rightarrow> string option \<Rightarrow> string option \<Rightarrow> string option \<Rightarrow> string option \<Rightarrow> string option \<Rightarrow> bool" where
  "check_password_digest method0 ha1 uri nonce nc cnonce qop response0 =
     (case (method0, nonce, nc, cnonce, qop, response0) of
        (Some _, Some _, Some _, Some _, Some _, Some response) \<Rightarrow>
          if length response \<noteq> 32 then False
          else let ha2 = mg_md5 [method0, Some '':'', uri, None];
                   expected = mg_md5 [Some ha1, Some '':'', nonce, Some '':'', nc, Some '':'', cnonce, Some '':'', qop,
                                      Some '':'', Some ha2, None]
               in mg_strcasecmp response expected = 0
      | _ \<Rightarrow> False)"

record auth_header =
  auth_user :: "string option"
  auth_type :: nat
  plain_password :: "string option"
  auth_uri :: "string option"
  auth_cnonce :: "string option"
  auth_response :: "string option"
  auth_qop :: "string option"
  auth_nc :: "string option"
  auth_nonce :: "string option"

definition no_auth_header :: auth_header where
  "no_auth_header = \<lparr> auth_user = None, auth_type = 0, plain_password = None, auth_uri = None, auth_cnonce = None,
     auth_response = None, auth_qop = None, auth_nc = None, auth_nonce = None \<rparr>"

section \<open>The Authorization header\<close>

definition set_auth_param :: "string \<Rightarrow> string \<Rightarrow> auth_header \<Rightarrow> auth_header" where
  "set_auth_param name value ah =
     (if name = ''username'' then ah\<lparr> auth_user := Some value \<rparr>
      else if name = ''cnonce'' then ah\<lparr> auth_cnonce := Some value \<rparr>
      else if name = ''response'' then ah\<lparr> auth_response := Some value \<rparr>
      else if name = ''uri'' then ah\<lparr> auth_uri := Some value \<rparr>
      else if name = ''qop'' then ah\<lparr> auth_qop := Some value \<rparr>
      else if name = ''nc'' then ah\<lparr> auth_nc := Some value \<rparr>
      else if name = ''nonce'' then ah\<lparr> auth_nonce := Some value \<rparr>
      else ah)"

text \<open>A value: quoted, or up to a comma or space; and the text behind it.\<close>

definition auth_value :: "string \<Rightarrow> string \<times> string" where
  "auth_value s =
     (if hd0 s = DQUOTE
      then case skip_quoted (tl s) [DQUOTE] '' '' BACKSLASH of
             (value, s1) \<Rightarrow> (value, if hd0 s1 = CHR '','' then tl s1 else s1)
      else skip_quoted s '', '' '' '' NUL)"

lemma skip_quoted_Nil [simp]: "skip_quoted [] ds ws q = ([], [])"
  by (simp add: skip_quoted_def strcspn_def skip_word.simps)

lemma skip_quoted_le: "length (snd (skip_quoted s ds ws q)) \<le> length s"
  using skip_quoted_rest [of s ds ws q] skip_word_rest [of ds q "[]" "[]"]
  by (cases "s = []") (auto simp: skip_quoted_def strcspn_def skip_word.simps split: prod.splits)

lemma auth_value_le: "length (snd (auth_value s)) \<le> length s"
  using skip_quoted_le [of "tl s" "[DQUOTE]" "'' ''" BACKSLASH] skip_quoted_le [of s "'', ''" "'' ''" NUL]
  by (auto simp: auth_value_def split: prod.splits)

function auth_params :: "string \<Rightarrow> auth_header \<Rightarrow> auth_header" where
  "auth_params s ah =
     (case skip_quoted (dropWhile isspace s) ''='' '' '' NUL of
        (name, s1) \<Rightarrow>
          case auth_value s1 of
            (value, s2) \<Rightarrow> if name = [] then ah else auth_params s2 (set_auth_param name value ah))"
  by pat_completeness auto
termination
proof (relation "measure (\<lambda>(s, ah). length s)", goal_cases)
  case (2 s ah name s1 v s2)
  note x = 2
  have "dropWhile isspace s \<noteq> []"
  proof
    assume e: "dropWhile isspace s = []"
    show False using x unfolding e by simp
  qed
  then have "length s1 < length (dropWhile isspace s)" using skip_quoted_rest x by (metis snd_conv)
  moreover have "length s2 \<le> length s1" using auth_value_le [of s1] x by (metis snd_conv)
  moreover have "length (dropWhile isspace s) \<le> length s" by (rule length_dropWhile_le)
  ultimately show ?case by simp
qed simp

declare auth_params.simps [simp del]

text \<open>The part of the server state that belongs to the nonces.\<close>

record nonce_ctx =
  auth_nonce_mask :: "64 word"
  nonce_count :: "64 word"
  start_time :: "64 word"

definition nonce_valid :: "nonce_ctx \<Rightarrow> string \<Rightarrow> bool" where
  "nonce_valid ctx s =
     (case strtoul 10 s of
        (v, rest) \<Rightarrow>
          if rest \<noteq> [] then False
          else let nonce = of_nat v XOR auth_nonce_mask ctx
               in \<not> nonce < start_time ctx \<and> \<not> nonce \<ge> start_time ctx + nonce_count ctx)"

definition parse_auth_header :: "mg_connection \<Rightarrow> nonce_ctx \<Rightarrow> nat \<Rightarrow> auth_header option" where
  "parse_auth_header conn ctx buf_size =
     (case mg_get_header conn ''Authorization'' of
        None \<Rightarrow> None
      | Some ah \<Rightarrow>
          if mg_strncasecmp ah ''Basic '' 6 = 0
          then case mg_base64_decode (drop 6 ah) (Some buf_size) of
                 (r, _, bytes) \<Rightarrow>
                   if r \<noteq> -1 then None
                   else let buf = cstr (map (\<lambda>b. char_of (unat b)) bytes)
                        in case memchr (CHR '':'') buf of
                             None \<Rightarrow> None
                           | Some i \<Rightarrow> Some (no_auth_header\<lparr> auth_user := Some (take i buf), auth_type := 1,
                                                        plain_password := Some (drop (Suc i) buf) \<rparr>)
          else if mg_strncasecmp ah ''Digest '' 7 = 0
          then let h = auth_params (cstr (mg_strlcpy (drop 7 ah) buf_size)) (no_auth_header\<lparr> auth_type := 2 \<rparr>)
               in case auth_nonce h of
                    None \<Rightarrow> None
                  | Some n \<Rightarrow> if \<not> nonce_valid ctx n then None else if auth_user h = None then None else Some h
          else None)"

section \<open>The passwords file\<close>

record file_system =
  fs_read :: "string \<Rightarrow> string option"
  fs_directory :: "string \<Rightarrow> bool"

definition INITIAL_DEPTH :: nat where
  "INITIAL_DEPTH = 9"

text \<open>A line without the white space and control characters at its end.\<close>

definition strip_line :: "string \<Rightarrow> string" where
  "strip_line l = rev (dropWhile (\<lambda>c. isspace c \<or> iscntrl c) (rev l))"

text \<open>The verdict for an entry of the user.\<close>

definition check_entry :: "auth_header \<Rightarrow> string option \<Rightarrow> string \<Rightarrow> string \<Rightarrow> string \<Rightarrow> bool" where
  "check_entry ah method0 f_user domain f_ha1 =
     (if auth_type ah = 1
      then f_ha1 = mg_md5 [Some f_user, Some '':'', Some domain, Some '':'', plain_password ah, None]
      else if auth_type ah = 2
      then check_password_digest method0 f_ha1 (auth_uri ah) (auth_nonce ah) (auth_nc ah) (auth_cnonce ah) (auth_qop ah) (auth_response ah)
      else False)"

text \<open>
  The search: a comment, an include, an invalid line, a line of another user, or the entry. A cycle of
  includes ends when the depth is used up.
\<close>

function read_auth_file :: "file_system \<Rightarrow> auth_header \<Rightarrow> string \<Rightarrow> string option \<Rightarrow> nat \<Rightarrow> string \<Rightarrow> bool" where
  "read_auth_file fs ah domain method0 depth content =
     (if depth = 0 then False
      else case fgets 552 content of
             None \<Rightarrow> False
           | Some (line, rest) \<Rightarrow>
               let buf = strip_line (cstr line)
               in if buf = [] then read_auth_file fs ah domain method0 depth rest
                  else if hd buf = CHR '':''
                  then if rd buf 1 = CHR ''#'' then read_auth_file fs ah domain method0 depth rest
                       else if take 8 (tl buf) = ''include=''
                       then case fs_read fs (drop 9 buf) of
                              Some included \<Rightarrow>
                                if read_auth_file fs ah domain method0 (depth - 1) included then True
                                else read_auth_file fs ah domain method0 depth rest
                            | None \<Rightarrow> read_auth_file fs ah domain method0 depth rest
                       else read_auth_file fs ah domain method0 depth rest
                  else case memchr (CHR '':'') buf of
                         None \<Rightarrow> read_auth_file fs ah domain method0 depth rest
                       | Some i \<Rightarrow>
                           (let f_user = take i buf; more = drop (Suc i) buf
                            in case memchr (CHR '':'') more of
                                 None \<Rightarrow> read_auth_file fs ah domain method0 depth rest
                               | Some j \<Rightarrow>
                                   if auth_user ah = Some f_user \<and> domain = take j more
                                   then check_entry ah method0 f_user domain (drop (Suc j) more)
                                   else read_auth_file fs ah domain method0 depth rest))"
  by pat_completeness auto
termination
  by (relation "measures [\<lambda>(fs, ah, d, m, depth, content). depth, \<lambda>(fs, ah, d, m, depth, content). length content]")
    (auto dest!: fgets_rest [rotated])

declare read_auth_file.simps [simp del]

text \<open>The option has a default value, so the domain is never null.\<close>

definition auth_domain :: "mg_connection \<Rightarrow> string option \<Rightarrow> string" where
  "auth_domain conn realm =
     (case realm of Some r \<Rightarrow> r | None \<Rightarrow> (case conf conn AUTHENTICATION_DOMAIN of Some d \<Rightarrow> d | None \<Rightarrow> []))"

definition authorize :: "file_system \<Rightarrow> mg_connection \<Rightarrow> nonce_ctx \<Rightarrow> string \<Rightarrow> string option \<Rightarrow> bool \<times> mg_connection" where
  "authorize fs conn ctx content realm =
     (if dom_ctx conn = None then (False, conn)
      else case parse_auth_header conn ctx MG_BUF_LEN of
             None \<Rightarrow> (False, conn)
           | Some ah \<Rightarrow>
               let conn1 = conn\<lparr> request_info := (request_info conn)\<lparr> remote_user := map_option mg_strdup (auth_user ah) \<rparr> \<rparr>
               in (read_auth_file fs ah (auth_domain conn1 realm) (request_method (request_info conn1)) INITIAL_DEPTH content, conn1))"

definition mg_check_digest_access_authentication ::
    "file_system \<Rightarrow> mg_connection option \<Rightarrow> nonce_ctx \<Rightarrow> string option \<Rightarrow> string option \<Rightarrow> int \<times> mg_connection option" where
  "mg_check_digest_access_authentication fs c ctx realm filename =
     (case (c, filename) of
        (Some conn, Some f) \<Rightarrow>
          (case fs_read fs f of
             None \<Rightarrow> (-2, c)
           | Some content \<Rightarrow> (case authorize fs conn ctx content realm of (r, conn') \<Rightarrow> (if r then 1 else 0, Some conn')))
      | _ \<Rightarrow> (-1, c))"

section \<open>Which file protects a path\<close>

text \<open>\<open>mg_snprintf\<close> into a buffer of \<open>n\<close> characters: \<open>None\<close> if the text is truncated.\<close>

definition print_in :: "nat \<Rightarrow> string \<Rightarrow> string option" where
  "print_in n s = (if length s < n then Some s else None)"

text \<open>The part of the path in front of its last slash, or nothing.\<close>

definition parent_path :: "string \<Rightarrow> string" where
  "parent_path path = butlast (rev (dropWhile (\<lambda>c. c \<noteq> CHR ''/'') (rev path)))"

definition open_auth_file :: "file_system \<Rightarrow> mg_connection \<Rightarrow> string \<Rightarrow> string option" where
  "open_auth_file fs conn path =
     (if dom_ctx conn = None then None
      else case conf conn GLOBAL_PASSWORDS_FILE of
             Some gpass \<Rightarrow> fs_read fs gpass
           | None \<Rightarrow>
               Option.bind (print_in PATH_MAX ((if fs_directory fs path then path else parent_path path) @ ''/.htpasswd'')) (fs_read fs))"

text \<open>The entry of \<open>protect_uri\<close> whose prefix the URI has: the loop stops at the first one.\<close>

function protect_file :: "string \<Rightarrow> string option \<Rightarrow> string option" where
  "protect_file uri list =
     (case next_option list of
        None \<Rightarrow> None
      | Some (rest, uri_vec, filename_vec) \<Rightarrow>
          if take (length uri_vec) uri = uri_vec
          then Some (case filename_vec of Some f \<Rightarrow> f | None \<Rightarrow> [])
          else protect_file uri (Some rest))"
  by pat_completeness auto
termination
  by (relation "measure (\<lambda>(uri, list). case list of None \<Rightarrow> 0 | Some l \<Rightarrow> length l)")
    (auto simp: next_option_def split: option.splits prod.splits dest: next_value_rest)

declare protect_file.simps [simp del]

definition check_authorization :: "file_system \<Rightarrow> mg_connection option \<Rightarrow> nonce_ctx \<Rightarrow> string \<Rightarrow> bool \<times> mg_connection option" where
  "check_authorization fs c ctx path =
     (case c of
        None \<Rightarrow> (False, c)
      | Some conn \<Rightarrow>
          if dom_ctx conn = None then (False, c)
          else
            let file = Option.bind (protect_file (the (local_uri (request_info conn))) (conf conn PROTECT_URI))
                         (\<lambda>f. Option.bind (print_in PATH_MAX f) (fs_read fs));
                opened = (case file of None \<Rightarrow> open_auth_file fs conn path | Some content \<Rightarrow> Some content)
            in case opened of
                 None \<Rightarrow> (True, c)
               | Some content \<Rightarrow> (case authorize fs conn ctx content None of (r, conn') \<Rightarrow> (r, Some conn')))"

definition is_authorized_for_put :: "file_system \<Rightarrow> mg_connection option \<Rightarrow> nonce_ctx \<Rightarrow> bool \<times> mg_connection option" where
  "is_authorized_for_put fs c ctx =
     (case c of
        None \<Rightarrow> (False, c)
      | Some conn \<Rightarrow>
          (case Option.bind (conf conn PUT_DELETE_PASSWORDS_FILE) (fs_read fs) of
             None \<Rightarrow> (False, c)
           | Some content \<Rightarrow> (case authorize fs conn ctx content None of (r, conn') \<Rightarrow> (r, Some conn'))))"

section \<open>Asking for authorization\<close>

definition next_nonce :: "nonce_ctx \<Rightarrow> 64 word" where
  "next_nonce ctx = (start_time ctx + nonce_count ctx) XOR auth_nonce_mask ctx"

definition send_authorization_request :: "mg_connection \<Rightarrow> nonce_ctx \<Rightarrow> string option \<Rightarrow> mg_connection \<times> nonce_ctx" where
  "send_authorization_request conn0 ctx realm0 =
     (let realm = auth_domain conn0 realm0;
          nonce = next_nonce ctx;
          ctx' = ctx\<lparr> nonce_count := nonce_count ctx + 1 \<rparr>;
          conn = conn0\<lparr> must_close := True \<rparr>;
          conn1 = snd (mg_response_header_start conn 401);
          conn2 = send_additional_header (send_no_cache_header conn1);
          conn3 = snd (mg_response_header_add conn2 (Some ''Content-Length'') (Some ''0'') (-1));
          buf = ''Digest qop='' @ DQUOTE # ''auth'' @ DQUOTE # '', realm='' @ DQUOTE # realm @ DQUOTE # '', nonce='' @
                DQUOTE # show_nat (unat nonce) @ [DQUOTE];
          conn4 = (case print_in 128 buf of
                     Some b \<Rightarrow> snd (mg_response_header_add conn3 (Some ''WWW-Authenticate'') (Some b) (-1))
                   | None \<Rightarrow> conn3)
      in (snd (mg_response_header_send conn4), ctx'))"

definition mg_send_digest_access_authentication_request ::
    "mg_connection option \<Rightarrow> nonce_ctx \<Rightarrow> string option \<Rightarrow> int \<times> mg_connection option \<times> nonce_ctx" where
  "mg_send_digest_access_authentication_request c ctx realm =
     (case c of
        Some conn \<Rightarrow>
          if dom_ctx conn = None then (-1, c, ctx)
          else (case send_authorization_request conn ctx realm of (conn', ctx') \<Rightarrow> (0, Some conn', ctx'))
      | None \<Rightarrow> (-1, c, ctx))"

section \<open>Nonces\<close>

lemma set_auth_param_type [simp]: "auth_type (set_auth_param n v ah) = auth_type ah"
  by (simp add: set_auth_param_def)

lemma auth_params_type [simp]: "auth_type (auth_params s ah) = auth_type ah"
proof (induction s ah rule: auth_params.induct)
  case (1 s ah)
  then show ?case by (subst auth_params.simps) (auto split: prod.splits)
qed

text \<open>The nonce of the \<open>k\<close>-th request for authorization since the server was started.\<close>

definition issued_nonce :: "nonce_ctx \<Rightarrow> nat \<Rightarrow> 64 word" where
  "issued_nonce ctx k = next_nonce (ctx\<lparr> nonce_count := of_nat k \<rparr>)"

definition nonces_fit :: "nonce_ctx \<Rightarrow> bool" where
  "nonces_fit ctx \<longleftrightarrow> unat (start_time ctx) + unat (nonce_count ctx) < 2 ^ 64"

lemma nonce_window:
  assumes "nonces_fit ctx"
  shows "(\<not> w < start_time ctx \<and> \<not> w \<ge> start_time ctx + nonce_count ctx) \<longleftrightarrow>
    (\<exists>k < unat (nonce_count ctx). w = start_time ctx + of_nat k)"
proof -
  let ?s = "start_time ctx" and ?n = "nonce_count ctx"
  have sum: "unat (?s + ?n) = unat ?s + unat ?n"
    using assms by (simp add: nonces_fit_def unat_word_ariths)
  have part: "unat (?s + of_nat k) = unat ?s + k" if "k < unat ?n" for k
    using that assms by (simp add: nonces_fit_def unat_word_ariths unat_of_nat)
  show ?thesis
  proof
    assume w: "\<not> w < ?s \<and> \<not> w \<ge> ?s + ?n"
    then have "unat ?s \<le> unat w" "unat w < unat ?s + unat ?n" by (simp_all add: word_less_nat_alt word_le_nat_alt sum not_less not_le)
    then have "unat w - unat ?s < unat ?n" "unat w = unat (?s + of_nat (unat w - unat ?s))" using part by simp_all
    then show "\<exists>k < unat ?n. w = ?s + of_nat k" by (metis word_unat_eq_iff)
  next
    assume "\<exists>k < unat ?n. w = ?s + of_nat k"
    then obtain k where k: "k < unat ?n" "w = ?s + of_nat k" by blast
    then show "\<not> w < ?s \<and> \<not> w \<ge> ?s + ?n" using part [OF k(1)] by (simp add: word_less_nat_alt word_le_nat_alt sum)
  qed
qed

lemma xor_cancel: "(x XOR m = y) \<longleftrightarrow> (x = y XOR m)" for x y m :: "64 word"
proof -
  have "(z XOR m) XOR m = z" for z :: "64 word" by (simp add: xor.assoc)
  then show ?thesis by metis
qed

lemma nonce_valid_iff:
  assumes "nonces_fit ctx"
  shows "nonce_valid ctx s \<longleftrightarrow> (\<exists>v. strtoul 10 s = (v, []) \<and> (\<exists>k < unat (nonce_count ctx). of_nat v = issued_nonce ctx k))"
proof -
  obtain v rest where v: "strtoul 10 s = (v, rest)" by fastforce
  have "nonce_valid ctx s \<longleftrightarrow> rest = [] \<and> (\<exists>k < unat (nonce_count ctx). of_nat v XOR auth_nonce_mask ctx = start_time ctx + of_nat k)"
    unfolding nonce_valid_def v prod.case Let_def nonce_window [OF assms] by simp
  then show ?thesis by (simp add: v issued_nonce_def next_nonce_def xor_cancel)
qed

lemma nondigit_Nil: "nondigit_start 10 []"
  by (simp add: nondigit_start_def digit_of_def ctype_simps)

lemma issued_nonce_valid:
  assumes "nonces_fit ctx" "k < unat (nonce_count ctx)"
  shows "nonce_valid ctx (show_nat (unat (issued_nonce ctx k)))"
proof -
  have "strtoul 10 (show_base 10 (unat (issued_nonce ctx k)) @ []) = (unat (issued_nonce ctx k), [])"
    by (rule strtoul_show) (use nondigit_Nil unsigned_less [of "issued_nonce ctx k", where 'a = nat] in \<open>simp_all add: tolower_def ctype_simps\<close>)
  then show ?thesis using assms by (auto simp: nonce_valid_iff show_nat_def)
qed

section \<open>The search in a table\<close>

lemma strip_line_id:
  assumes "w \<noteq> []" "\<not> isspace (last w)" "\<not> iscntrl (last w)"
  shows "strip_line (w @ [CHR 0x0A]) = w"
proof -
  obtain v c where w: "w = v @ [c]" using assms(1) by (cases w rule: rev_cases) auto
  have "iscntrl (CHR 0x0A)" by (rule control_chars)
  then show ?thesis using assms(2,3) by (simp add: strip_line_def w)
qed

lemma read_entry:
  assumes ok: "entry_ok (u, d, h)" and depth: "depth > 0"
  shows "read_auth_file fs ah domain m depth (entry_line u d h @ r) =
    (if auth_user ah = Some u \<and> domain = d then check_entry ah m u domain h else read_auth_file fs ah domain m depth r)"
proof -
  let ?w = "u @ CHR '':'' # d @ CHR '':'' # h"
  have f: "field_ok u" "field_ok d" "hash_ok h" using ok by (simp_all add: entry_ok_def)
  have line: "entry_line u d h = ?w @ [CHR 0x0A]" by (simp add: entry_line_def)
  have g: "fgets 552 (entry_line u d h @ r) = Some (entry_line u d h, r)"
    using entry_line_chars(1) [OF ok] field_clean [OF f(1)] field_clean [OF f(2)] hash_clean [OF f(3)]
    by (intro fgets_line [of _ ?w]) (simp_all add: line)
  have "h \<noteq> []" "last h \<in> set h" using f(3) by (auto simp: hash_ok_def)
  then have "strip_line (?w @ [CHR 0x0A]) = ?w"
    using f(3) by (intro strip_line_id) (auto simp: hash_ok_def)
  then have s: "strip_line (cstr (entry_line u d h)) = ?w" using entry_line_chars(2) [OF ok] by (simp only: cstr_wf line)
  have c: "CHR '':'' \<notin> set u" "CHR '':'' \<notin> set d" "u \<noteq> []" using f(1,2) by (auto simp: field_ok_def)
  then have m1: "memchr (CHR '':'') ?w = Some (length u)" "memchr (CHR '':'') (d @ CHR '':'' # h) = Some (length d)"
    by (simp_all add: memchr_Some_iff nth_append)
  have "hd ?w \<noteq> CHR '':''" "?w \<noteq> []" using c by (cases u; auto)+
  then show ?thesis
    using depth by (subst read_auth_file.simps) (simp add: g s m1 Let_def eq_commute [of domain])
qed

lemma read_auth_file_table:
  assumes "list_all entry_ok es" "depth > 0" "auth_user ah = Some user"
  shows "read_auth_file fs ah domain m depth (render es) =
    (case users es (user, domain) of None \<Rightarrow> False | Some h \<Rightarrow> check_entry ah m user domain h)"
  using assms(1)
proof (induction es)
  case Nil
  then show ?case by (subst read_auth_file.simps) (simp add: fgets_def)
next
  case (Cons e es)
  obtain u d h where e: "e = (u, d, h)" by (cases e)
  then show ?case using Cons assms(2,3) by (simp add: read_entry)
qed

section \<open>Parameters of the header\<close>

type_synonym auth_param = "string \<times> string \<times> bool"

definition param_text :: "auth_param \<Rightarrow> string" where
  "param_text p =
     (case p of (n, v, quoted) \<Rightarrow> n @ CHR ''='' # (if quoted then DQUOTE # quote_delims [DQUOTE] BACKSLASH v @ [DQUOTE] else v))"

fun params_text :: "auth_param list \<Rightarrow> string" where
  "params_text [] = []"
| "params_text [p] = param_text p"
| "params_text (p # ps) = param_text p @ '', '' @ params_text ps"

definition param_ok :: "auth_param \<Rightarrow> bool" where
  "param_ok p =
     (case p of (n, v, quoted) \<Rightarrow>
        n \<noteq> [] \<and> CHR ''='' \<notin> set n \<and> NUL \<notin> set n \<and> \<not> isspace (hd n) \<and> NUL \<notin> set v \<and>
        (if quoted then BACKSLASH \<notin> set v else v \<noteq> [] \<and> hd v \<noteq> DQUOTE \<and> CHR '','' \<notin> set v \<and> SP \<notin> set v))"

lemma quote_delims_id: "set ds \<inter> set w = {} \<Longrightarrow> quote_delims ds q w = w"
  by (induction w) auto

lemma skip_quoted_plain:
  assumes "q \<notin> set ds" "d \<in> set ds" "q \<notin> set w" "set ds \<inter> set w = {}" "r = [] \<or> hd r \<notin> set ws"
  shows "skip_quoted (w @ d # r) ds ws q = (w, r)"
proof -
  have "strspn r ws = 0" using assms(5) by (cases r) (auto simp: strspn_def)
  then show ?thesis using skip_quoted_quote [OF assms(1-3), of r ws] assms(4) by (simp add: quote_delims_id)
qed

lemma skip_quoted_last:
  assumes "q \<notin> set w" "set ds \<inter> set w = {}"
  shows "skip_quoted w ds ws q = (w, [])"
proof -
  have tw: "takeWhile (\<lambda>c. c \<notin> set ds) w = w" using assms(2) by (auto simp: takeWhile_eq_all_conv)
  have n: "strcspn w ds = length w" unfolding strcspn_def tw by (rule refl)
  have "w = [] \<or> last w \<noteq> q" using assms(1) by (metis last_in_set)
  then have "skip_word ds q w [] = (w, [])" by (subst skip_word.simps) auto
  then show ?thesis by (simp add: skip_quoted_def n)
qed

lemma auth_params_space: "isspace c \<Longrightarrow> auth_params (c # s) ah = auth_params s ah"
  by (subst (1 2) auth_params.simps) simp

lemma auth_params_one:
  assumes ok: "param_ok (n, v, quoted)" and r: "r = [] \<or> r = '', '' @ t \<and> t \<noteq> [] \<and> \<not> isspace (hd t)"
  shows "auth_params (param_text (n, v, quoted) @ r) ah = auth_params (drop 2 r) (set_auth_param n v ah)"
proof -
  let ?val = "(if quoted then DQUOTE # quote_delims [DQUOTE] BACKSLASH v @ [DQUOTE] else v) @ r"
  have n: "n \<noteq> []" "CHR ''='' \<notin> set n" "NUL \<notin> set n" "\<not> isspace (hd n)" and v: "NUL \<notin> set v"
    using ok by (simp_all add: param_ok_def)
  have "hd v \<noteq> SP" if "v \<noteq> []" "SP \<notin> set v" using that by (cases v) auto
  then have "hd ?val \<noteq> SP" "?val \<noteq> []" using ok by (auto simp: param_ok_def hd_append) 
  then have name: "skip_quoted (n @ CHR ''='' # ?val) ''='' '' '' NUL = (n, ?val)"
    using n by (intro skip_quoted_plain) auto
  have "dropWhile isspace (n @ CHR ''='' # ?val) = n @ CHR ''='' # ?val" using n by (cases n) auto
  then have step: "auth_params (param_text (n, v, quoted) @ r) ah =
      (case auth_value ?val of (value, s2) \<Rightarrow> auth_params s2 (set_auth_param n value ah))"
    using n(1) name by (subst auth_params.simps) (simp add: param_text_def)
  show ?thesis
  proof (cases quoted)
    case True
    have "BACKSLASH \<notin> set v" using ok True by (simp add: param_ok_def)
    then have "skip_quoted (quote_delims [DQUOTE] BACKSLASH v @ DQUOTE # r) [DQUOTE] '' '' BACKSLASH = (v, drop (strspn r '' '') r)"
      by (intro skip_quoted_quote) auto
    moreover have "strspn r '' '' = 0" using r by (auto simp: strspn_def)
    ultimately have "auth_value ?val = (v, if hd0 r = CHR '','' then tl r else r)" using True by (simp add: auth_value_def)
    then show ?thesis using r step by (auto simp: auth_params_space ctype_simps)
  next
    case False
    then have v': "v \<noteq> []" "hd v \<noteq> DQUOTE" "set '', '' \<inter> set v = {}" using ok by (auto simp: param_ok_def)
    have "hd0 ?val \<noteq> DQUOTE" using v' False by (cases v) auto
    moreover have "skip_quoted (v @ r) '', '' '' '' NUL = (v, drop 2 r)"
    proof (cases "r = []")
      case True
      then show ?thesis using skip_quoted_last [of NUL v "'', ''"] v v' by simp
    next
      case False
      have "skip_quoted (v @ CHR '','' # SP # t) '', '' '' '' NUL = (v, drop (strspn (SP # t) '' '') (SP # t))"
        using skip_quoted_quote [of NUL "'', ''" "CHR '',''" v "SP # t" "'' ''"] v v' by (simp add: quote_delims_id)
      moreover have "strspn (SP # t) '' '' = 1" using r False by (cases t) (auto simp: strspn_def ctype_simps)
      ultimately show ?thesis using r False by simp
    qed
    ultimately have "auth_value ?val = (v, drop 2 r)" using False by (simp add: auth_value_def)
    then show ?thesis using step by simp
  qed
qed

lemma params_text_start:
  assumes "list_all param_ok ps" "ps \<noteq> []"
  shows "params_text ps \<noteq> [] \<and> \<not> isspace (hd (params_text ps))"
  using assms by (cases ps rule: params_text.cases) (auto simp: param_ok_def param_text_def)

lemma auth_params_text:
  "list_all param_ok ps \<Longrightarrow> auth_params (params_text ps) ah = fold (\<lambda>(n, v, q). set_auth_param n v) ps ah"
proof (induction ps arbitrary: ah rule: params_text.induct)
  case 1
  then show ?case by (subst auth_params.simps) simp
next
  case (2 p)
  obtain n v q where p: "p = (n, v, q)" by (cases p)
  have "auth_params [] ah' = ah'" for ah' by (subst auth_params.simps) simp
  then show ?case using 2 auth_params_one [of n v q "[]" "[]" ah] by (simp add: p)
next
  case (3 p p' ps)
  obtain n v q where p: "p = (n, v, q)" by (cases p)
  have "auth_params (param_text (n, v, q) @ '', '' @ params_text (p' # ps)) ah =
      auth_params (drop 2 ('', '' @ params_text (p' # ps))) (set_auth_param n v ah)"
    using 3 params_text_start [of "p' # ps"] by (intro auth_params_one [where t = "params_text (p' # ps)"]) (simp_all add: p)
  then show ?case using 3 by (simp add: p)
qed

section \<open>A client\<close>

text \<open>What a client that knows the password sends for a nonce.\<close>

definition digest_response :: "string \<Rightarrow> string \<Rightarrow> string \<Rightarrow> string \<Rightarrow> string \<Rightarrow> string \<Rightarrow> string \<Rightarrow> string \<Rightarrow> string" where
  "digest_response method0 user realm pw uri nonce nc cnonce =
     mg_md5 [Some (mg_md5 [Some user, Some '':'', Some realm, Some '':'', Some pw, None]), Some '':'', Some nonce, Some '':'', Some nc,
             Some '':'', Some cnonce, Some '':'', Some ''auth'', Some '':'', Some (mg_md5 [Some method0, Some '':'', Some uri, None]), None]"

definition digest_credentials :: "string \<Rightarrow> string \<Rightarrow> string \<Rightarrow> string \<Rightarrow> string \<Rightarrow> string \<Rightarrow> string \<Rightarrow> string \<Rightarrow> string" where
  "digest_credentials method0 user realm pw uri nonce nc cnonce =
     ''Digest '' @ params_text
       [(''username'', user, True), (''realm'', realm, True), (''nonce'', nonce, True), (''uri'', uri, True),
        (''qop'', ''auth'', False), (''nc'', nc, False), (''cnonce'', cnonce, True),
        (''response'', digest_response method0 user realm pw uri nonce nc cnonce, True)]"

definition quotable :: "string \<Rightarrow> bool" where
  "quotable s \<longleftrightarrow> NUL \<notin> set s \<and> BACKSLASH \<notin> set s"

definition plain :: "string \<Rightarrow> bool" where
  "plain s \<longleftrightarrow> s \<noteq> [] \<and> NUL \<notin> set s \<and> DQUOTE \<notin> set s \<and> CHR '','' \<notin> set s \<and> SP \<notin> set s"

lemma mg_md5_quotable: "quotable (mg_md5 args)"
proof -
  have "c \<noteq> NUL \<and> c \<noteq> BACKSLASH" if "c \<in> set (mg_md5 args)" for c
  proof -
    have "c \<in> set ''0123456789abcdef''" using that unfolding mg_md5_def Let_def by (rule bin2str_chars)
    then show ?thesis by auto
  qed
  then show ?thesis unfolding quotable_def by metis
qed

lemma mg_md5_wf: "wf_cstr (mg_md5 args)"
  using mg_md5_quotable [of args] by (simp add: quotable_def wf_cstr_def)

lemma show_nat_quotable: "quotable (show_nat n)"
proof -
  have "c \<noteq> NUL \<and> c \<noteq> BACKSLASH" if "c \<in> set (show_base 10 n)" for c
  proof -
    have "(2 :: nat) \<le> 10" "(10 :: nat) \<le> 16" by simp_all
    from show_base_digits [OF this that] obtain d where "d < 10" "c = hex_digit d" by blast
    then have "c \<in> set ''0123456789abcdef''" unfolding hex_digit_def by (auto intro!: nth_mem simp del: set_simps)
    then show ?thesis by auto
  qed
  then show ?thesis unfolding quotable_def show_nat_def by metis
qed

lemma param_text_clean:
  assumes "param_ok p" shows "NUL \<notin> set (param_text p)"
proof -
  have "NUL \<notin> set (quote_delims [DQUOTE] BACKSLASH v)" if "NUL \<notin> set v" for v
    using that by (induction v) auto
  with assms show ?thesis by (auto simp: param_ok_def param_text_def split: prod.splits)
qed

lemma params_text_clean: "list_all param_ok ps \<Longrightarrow> NUL \<notin> set (params_text ps)"
  by (induction ps rule: params_text.induct) (simp_all add: param_text_clean)

lemma scheme_names: "map tolower ''Digest'' \<noteq> map tolower ''Basic ''"
  by code_simp

lemma parse_digest_credentials:
  assumes h: "mg_get_header conn ''Authorization'' = Some (digest_credentials method0 user realm pw uri nonce nc cnonce)"
    and ok: "quotable user" "quotable realm" "quotable nonce" "quotable uri" "quotable cnonce" "plain nc"
    and len: "length (digest_credentials method0 user realm pw uri nonce nc cnonce) \<le> buf_len"
    and n: "nonce_valid ctx nonce"
  shows "parse_auth_header conn ctx buf_len = Some \<lparr> auth_user = Some user, auth_type = 2, plain_password = None, auth_uri = Some uri,
    auth_cnonce = Some cnonce, auth_response = Some (digest_response method0 user realm pw uri nonce nc cnonce),
    auth_qop = Some ''auth'', auth_nc = Some nc, auth_nonce = Some nonce \<rparr>"
proof -
  let ?ps = "[(''username'', user, True), (''realm'', realm, True), (''nonce'', nonce, True), (''uri'', uri, True),
      (''qop'', ''auth'', False), (''nc'', nc, False), (''cnonce'', cnonce, True),
      (''response'', digest_response method0 user realm pw uri nonce nc cnonce, True)]"
  have "hd nc \<noteq> DQUOTE" using ok(6) by (cases nc) (auto simp: plain_def)
  then have ps: "list_all param_ok ?ps"
    using ok mg_md5_quotable by (simp add: param_ok_def quotable_def plain_def digest_response_def ctype_simps)
  define body where "body = params_text ?ps"
  have t: "digest_credentials method0 user realm pw uri nonce nc cnonce = ''Digest '' @ body" by (simp only: digest_credentials_def body_def)
  have "wf_cstr body" using params_text_clean [OF ps] by (simp add: wf_cstr_def body_def)
  moreover have "length body < buf_len" using len unfolding t by simp
  ultimately have c: "cstr (mg_strlcpy body buf_len) = body"
    by (simp add: mg_strlcpy_eq cstr_wf cstr_append_NUL)
  have "wf_cstr (''Digest '' @ body)" "wf_cstr ''Basic ''" "wf_cstr ''Digest ''"
    using params_text_clean [OF ps] by (simp_all add: wf_cstr_def body_def)
  then have basic: "mg_strncasecmp (''Digest '' @ body) ''Basic '' 6 \<noteq> 0" "mg_strncasecmp (''Digest '' @ body) ''Digest '' 7 = 0"
    using scheme_names by (simp_all add: mg_strncasecmp_eq_0)
  have "auth_params body (no_auth_header\<lparr> auth_type := 2 \<rparr>) = \<lparr> auth_user = Some user, auth_type = 2, plain_password = None, auth_uri = Some uri,
    auth_cnonce = Some cnonce, auth_response = Some (digest_response method0 user realm pw uri nonce nc cnonce),
    auth_qop = Some ''auth'', auth_nc = Some nc, auth_nonce = Some nonce \<rparr>"
    unfolding body_def auth_params_text [OF ps] by (simp add: set_auth_param_def no_auth_header_def)
  then show ?thesis
    using n basic c by (simp add: parse_auth_header_def h t Let_def)
qed

text \<open>The credentials pass the check against the hash of the password.\<close>

lemma check_digest_credentials:
  "check_entry \<lparr> auth_user = Some user, auth_type = 2, plain_password = None, auth_uri = Some uri,
    auth_cnonce = Some cnonce, auth_response = Some (digest_response method0 user realm pw uri nonce nc cnonce),
    auth_qop = Some ''auth'', auth_nc = Some nc, auth_nonce = Some nonce \<rparr> (Some method0) user realm
    (mg_md5 [Some user, Some '':'', Some realm, Some '':'', Some pw, None])"
  by (simp add: check_entry_def check_password_digest_def digest_response_def length_mg_md5 Let_def mg_strcasecmp_eq_0 mg_md5_wf)

text \<open>The table stays well-formed when a password is set.\<close>

lemma change_entries_ok:
  "list_all entry_ok es \<Longrightarrow> (\<And>h. ha1 = Some h \<Longrightarrow> entry_ok (user, domain, h)) \<Longrightarrow> list_all entry_ok (change_entries user domain ha1 found es)"
  by (induction user domain ha1 found es rule: change_entries.induct) (auto split: option.splits)

lemma mg_modify_passwords_render:
  assumes es: "list_all entry_ok es" and f: "field_ok user" "field_ok realm" "length user + length realm \<le> 476" and pw: "pw \<noteq> []"
    and path: "length fname < PATH_MAX" "length (render es) \<le> 10485760"
    and io: "io_read io \<and> io_create io \<and> io_chmod io \<and> io_write io \<and> io_close io"
  shows "\<exists>es'. mg_modify_passwords_file io (Some (render es)) (Some fname) (Some realm) (Some user) (Some pw) = (1, Some (render es')) \<and>
    list_all entry_ok es' \<and>
    users es' = (users es)((user, realm) \<mapsto> mg_md5 [Some user, Some '':'', Some realm, Some '':'', Some pw, None])"
proof -
  let ?h = "mg_md5 [Some user, Some '':'', Some realm, Some '':'', Some pw, None]"
  have h: "hash_ok ?h" "length ?h = 32" by (rule mg_md5_hash_ok, rule length_mg_md5)
  then have ok: "entry_ok (user, realm, ?h)" using f by (simp add: entry_ok_def)
  have "mg_modify_passwords_file_ha1 io (Some (render es)) (Some fname) (Some realm) (Some user) (Some ?h) =
      (1, Some (render (change_entries user realm (Some ?h) False es)))"
    by (rule modify_rendered) (use assms h in \<open>auto simp: hash_ok_def\<close>)
  then have "mg_modify_passwords_file io (Some (render es)) (Some fname) (Some realm) (Some user) (Some pw) =
      (1, Some (render (change_entries user realm (Some ?h) False es)))"
    using pw by (simp add: mg_modify_passwords_file_def)
  moreover have "list_all entry_ok (change_entries user realm (Some ?h) False es)"
    using change_entries_ok [OF es, of "Some ?h" user realm] ok by simp
  ultimately show ?thesis using users_change by blast
qed

lemma digest_login:
  assumes es: "list_all entry_ok es" "users es (user, realm) = Some (mg_md5 [Some user, Some '':'', Some realm, Some '':'', Some pw, None])"
    and h: "mg_get_header conn ''Authorization'' = Some (digest_credentials method0 user realm pw uri nonce nc cnonce)"
    and ok: "quotable user" "quotable realm" "quotable uri" "quotable cnonce" "plain nc"
    and len: "length (digest_credentials method0 user realm pw uri nonce nc cnonce) \<le> MG_BUF_LEN"
    and n: "nonces_fit ctx" "k < unat (nonce_count ctx)" "nonce = show_nat (unat (issued_nonce ctx k))"
    and conn: "dom_ctx conn \<noteq> None" "request_method (request_info conn) = Some method0"
  shows "fst (authorize fs conn ctx (render es) (Some realm))"
proof -
  have "nonce_valid ctx nonce" using issued_nonce_valid [OF n(1,2)] n(3) by simp
  moreover have "quotable nonce" using show_nat_quotable n(3) by simp
  ultimately have p: "parse_auth_header conn ctx MG_BUF_LEN = Some \<lparr> auth_user = Some user, auth_type = 2, plain_password = None,
      auth_uri = Some uri, auth_cnonce = Some cnonce, auth_response = Some (digest_response method0 user realm pw uri nonce nc cnonce),
      auth_qop = Some ''auth'', auth_nc = Some nc, auth_nonce = Some nonce \<rparr>"
    using parse_digest_credentials [OF h] ok len by blast
  show ?thesis
    using conn es(2) check_digest_credentials
    by (simp add: authorize_def p Let_def auth_domain_def read_auth_file_table [OF es(1)] INITIAL_DEPTH_def)
qed

section \<open>Properties\<close>

text \<open>
  C35: a password that was set can be used. After \<open>mg_modify_passwords_file\<close> has stored a password,
  a client that answers with it to one of the nonces the server has sent is authorized; and the
  hashes of all other users are unchanged.
\<close>

theorem set_password_then_login:
  assumes "list_all entry_ok es" "field_ok user" "field_ok realm" "length user + length realm \<le> 476" "pw \<noteq> []"
    "length fname < PATH_MAX" "length (render es) \<le> 10485760"
    "io_read io \<and> io_create io \<and> io_chmod io \<and> io_write io \<and> io_close io"
    "mg_get_header conn ''Authorization'' = Some (digest_credentials method0 user realm pw uri nonce nc cnonce)"
    "quotable user" "quotable realm" "quotable uri" "quotable cnonce" "plain nc"
    "length (digest_credentials method0 user realm pw uri nonce nc cnonce) \<le> MG_BUF_LEN"
    "nonces_fit ctx" "k < unat (nonce_count ctx)" "nonce = show_nat (unat (issued_nonce ctx k))"
    "dom_ctx conn \<noteq> None" "request_method (request_info conn) = Some method0"
  shows "\<exists>es'. mg_modify_passwords_file io (Some (render es)) (Some fname) (Some realm) (Some user) (Some pw) = (1, Some (render es')) \<and>
    fst (authorize fs conn ctx (render es') (Some realm)) \<and> (\<forall>key. key \<noteq> (user, realm) \<longrightarrow> users es' key = users es key)"
proof -
  obtain es' where es': "mg_modify_passwords_file io (Some (render es)) (Some fname) (Some realm) (Some user) (Some pw) = (1, Some (render es'))"
    "list_all entry_ok es'" "users es' = (users es)((user, realm) \<mapsto> mg_md5 [Some user, Some '':'', Some realm, Some '':'', Some pw, None])"
    using mg_modify_passwords_render [OF assms(1-8)] by blast
  have "fst (authorize fs conn ctx (render es') (Some realm))"
    by (rule digest_login [OF es'(2) _ assms(9-20)]) (simp add: es'(3))
  then show ?thesis using es' by auto
qed

definition login_example :: mg_connection where
  "login_example = test_connection\<lparr> connection_type := CONNECTION_TYPE_REQUEST, dom_ctx := Some default_config,
     request_info := (request_info test_connection)\<lparr> request_method := Some ''GET'',
       http_headers := [\<lparr> hdr_name = ''Authorization'',
         hdr_value = digest_credentials ''GET'' ''jo'' ''home'' ''pw'' ''/'' (show_nat 7) ''00000001'' ''xyz'' \<rparr>] \<rparr> \<rparr>"

lemma length_quote_delims: "length (quote_delims ds q w) \<le> 2 * length w"
  by (induction w) auto

abbreviation login_nonces :: nonce_ctx where
  "login_nonces \<equiv> \<lparr> auth_nonce_mask = 0, nonce_count = 2, start_time = 6 \<rparr>"

lemma login_example_facts:
  "length (digest_credentials ''GET'' ''jo'' ''home'' ''pw'' ''/'' (show_nat 7) ''00000001'' ''xyz'') \<le> MG_BUF_LEN"
  "mg_get_header login_example ''Authorization'' = Some (digest_credentials ''GET'' ''jo'' ''home'' ''pw'' ''/'' (show_nat 7) ''00000001'' ''xyz'')"
  "show_nat 7 = show_nat (unat (issued_nonce login_nonces 1))" "nonces_fit login_nonces"
proof -
  have "length (quote_delims [DQUOTE] BACKSLASH (digest_response ''GET'' ''jo'' ''home'' ''pw'' ''/'' (show_nat 7) ''00000001'' ''xyz'')) \<le> 64"
    using length_quote_delims [of "[DQUOTE]" BACKSLASH "digest_response ''GET'' ''jo'' ''home'' ''pw'' ''/'' (show_nat 7) ''00000001'' ''xyz''"]
      length_mg_md5 by (simp add: digest_response_def)
  moreover have "show_nat 7 = ''7''" by (simp add: show_nat_def show_base.simps hex_digit_def)
  ultimately show "length (digest_credentials ''GET'' ''jo'' ''home'' ''pw'' ''/'' (show_nat 7) ''00000001'' ''xyz'') \<le> MG_BUF_LEN"
    by (simp add: digest_credentials_def param_text_def MG_BUF_LEN_def)
  show "mg_get_header login_example ''Authorization'' = Some (digest_credentials ''GET'' ''jo'' ''home'' ''pw'' ''/'' (show_nat 7) ''00000001'' ''xyz'')"
    by (simp add: login_example_def mg_get_header_def get_header_def mg_strcasecmp_eq_0 wf_cstr_def)
qed (simp_all add: issued_nonce_def next_nonce_def nonces_fit_def)

lemma set_password_then_login_witness:
  "\<exists>es'. mg_modify_passwords_file \<lparr> io_read = True, io_create = True, io_chmod = True, io_write = True, io_close = True \<rparr>
      (Some (render [(''al'', ''home'', ''22'')])) (Some ''pw'') (Some ''home'') (Some ''jo'') (Some ''pw'') = (1, Some (render es')) \<and>
    fst (authorize \<lparr> fs_read = (\<lambda>_. None), fs_directory = (\<lambda>_. False) \<rparr> login_example
      login_nonces (render es') (Some ''home'')) \<and>
    (\<forall>key. key \<noteq> (''jo'', ''home'') \<longrightarrow> users es' key = users [(''al'', ''home'', ''22'')] key)"
  by (rule set_password_then_login [OF _ _ _ _ _ _ _ _ login_example_facts(2) _ _ _ _ _ login_example_facts(1,4) _ login_example_facts(3)])
    (simp_all add: entry_ok_def field_ok_def hash_ok_def quotable_def plain_def PATH_MAX_def entry_line_def login_example_def ctype_simps)

text \<open>
  C36: the passwords file decides. For a file that holds a table of users, a request is authorized
  exactly if the table has the user in the domain and the credentials fit the hash stored for it;
  the file is never searched further than that entry.
\<close>

theorem authorize_by_table:
  assumes "list_all entry_ok es" "dom_ctx conn \<noteq> None"
  shows "fst (authorize fs conn ctx (render es) (Some realm)) \<longleftrightarrow>
    (\<exists>ah user h. parse_auth_header conn ctx MG_BUF_LEN = Some ah \<and> auth_user ah = Some user \<and> users es (user, realm) = Some h \<and>
       check_entry ah (request_method (request_info conn)) user realm h)"
proof -
  have user: "\<exists>user. auth_user ah = Some user" if "parse_auth_header conn ctx MG_BUF_LEN = Some ah" for ah
    using that by (auto simp: parse_auth_header_def Let_def split: option.splits prod.splits if_splits)
  show ?thesis
  proof (cases "parse_auth_header conn ctx MG_BUF_LEN")
    case (Some ah)
    with user obtain u where u: "auth_user ah = Some u" by blast
    obtain cfg where "dom_ctx conn = Some cfg" using assms(2) by blast
    then show ?thesis using Some u
      by (simp add: authorize_def Let_def auth_domain_def read_auth_file_table [OF assms(1)] INITIAL_DEPTH_def split: option.splits)
  qed (use assms(2) in \<open>simp add: authorize_def\<close>)
qed

lemma authorize_by_table_witness:
  "\<not> fst (authorize \<lparr> fs_read = (\<lambda>_. None), fs_directory = (\<lambda>_. False) \<rparr> login_example
     login_nonces (render [(''jo'', ''work'', mg_md5 [Some ''jo'', Some '':'', Some ''work'', Some '':'', Some ''pw'', None])]) (Some ''home''))"
proof -
  let ?es = "[(''jo'', ''work'', mg_md5 [Some ''jo'', Some '':'', Some ''work'', Some '':'', Some ''pw'', None])]"
  have "list_all entry_ok ?es" using mg_md5_hash_ok by (simp add: entry_ok_def field_ok_def length_mg_md5 ctype_simps)
  moreover have "users ?es (user, ''home'') = None" for user by (simp add: users_def)
  ultimately show ?thesis using authorize_by_table [of ?es login_example] by (simp add: login_example_def)
qed

text \<open>
  C37: replayed nonces of an earlier run and invented ones are refused. If digest credentials are
  accepted by the parser, their nonce is one that this run of the server has sent with a request for
  authorization.
\<close>

theorem accepted_nonce_was_issued:
  assumes "parse_auth_header conn ctx buf_len = Some ah" "auth_type ah = 2" "nonces_fit ctx"
  shows "\<exists>s v k. auth_nonce ah = Some s \<and> strtoul 10 s = (v, []) \<and> k < unat (nonce_count ctx) \<and> of_nat v = issued_nonce ctx k"
proof -
  have "\<exists>s. auth_nonce ah = Some s \<and> nonce_valid ctx s"
    using assms(1,2) by (auto simp: parse_auth_header_def Let_def no_auth_header_def split: option.splits prod.splits if_splits)
  then show ?thesis using nonce_valid_iff [OF assms(3)] by blast
qed

lemma accepted_nonce_was_issued_witness:
  "\<exists>ah s v k. parse_auth_header login_example login_nonces MG_BUF_LEN = Some ah \<and> auth_nonce ah = Some s \<and>
     strtoul 10 s = (v, []) \<and> k < unat (nonce_count login_nonces) \<and> of_nat v = issued_nonce login_nonces k"
proof -
  have "nonce_valid login_nonces (show_nat 7)"
    using issued_nonce_valid [OF login_example_facts(4), of 1] login_example_facts(3) by simp
  then have "\<exists>ah. parse_auth_header login_example login_nonces MG_BUF_LEN = Some ah \<and> auth_type ah = 2"
    using parse_digest_credentials [OF login_example_facts(2) _ _ _ _ _ _ login_example_facts(1)] show_nat_quotable
    by (simp add: quotable_def plain_def)
  then show ?thesis using accepted_nonce_was_issued [OF _ _ login_example_facts(4)] by blast
qed

text \<open>
  The buffer of the challenge has 128 characters: with a realm of more than 90 characters the response
  401 is sent without \<open>WWW-Authenticate\<close>, so no client can answer it.
\<close>

lemma long_realm_no_challenge:
  assumes "length realm > 90"
  shows "print_in 128 (''Digest qop='' @ DQUOTE # ''auth'' @ DQUOTE # '', realm='' @ DQUOTE # realm @ DQUOTE # '', nonce='' @
    DQUOTE # show_nat n @ [DQUOTE]) = None"
  using assms show_base_nonempty [of 10 n] by (cases "show_base 10 n") (simp_all add: print_in_def show_nat_def)

end
