(* ===== verification/File_Lookup.thy ===== *)
theory File_Lookup
  imports Auth Paths Dates
begin

text \<open>
  From a request to a file (\<open>src/civetweb.c\<close>, \<open>mg_stat\<close>, \<open>substitute_index_file\<close>, \<open>interpret_uri\<close>) and
  the validators of a file (\<open>construct_etag\<close>, \<open>is_not_modified\<close>). What \<open>stat\<close> answers for a path
  is an argument.
\<close>

section \<open>Files\<close>

record mg_file_stat =
  file_size :: "64 word"
  last_modified :: int
  is_directory :: bool
  is_gzipped :: bool

definition no_stat :: mg_file_stat where
  "no_stat = \<lparr> file_size = 0, last_modified = 0, is_directory = False, is_gzipped = False \<rparr>"

type_synonym stat_function = "string \<Rightarrow> mg_file_stat option"

definition mg_stat :: "stat_function \<Rightarrow> string \<Rightarrow> bool \<times> mg_file_stat" where
  "mg_stat stat path =
     (if mg_path_suspicious (Some path) then (False, no_stat)
      else case stat path of
             Some st \<Rightarrow> (True, st\<lparr> is_gzipped := False \<rparr>)
           | None \<Rightarrow> (False, no_stat))"

definition construct_etag :: "mg_file_stat \<Rightarrow> string" where
  "construct_etag st =
     DQUOTE # show_hex (unat (word_of_int (last_modified st) :: 64 word)) @ CHR ''.'' # show_int (sint (file_size st)) @ [DQUOTE]"

definition is_not_modified :: "mg_connection \<Rightarrow> mg_file_stat \<Rightarrow> bool" where
  "is_not_modified conn st =
     (case mg_get_header conn ''If-None-Match'' of
        Some inm \<Rightarrow> mg_strcasecmp (construct_etag st) inm = 0
      | None \<Rightarrow>
          (case mg_get_header conn ''If-Modified-Since'' of
             Some ims \<Rightarrow> last_modified st \<le> parse_date_string ims
           | None \<Rightarrow> False))"

definition handle_not_modified_static_file_request :: "mg_connection \<Rightarrow> mg_file_stat \<Rightarrow> mg_connection" where
  "handle_not_modified_static_file_request conn st =
     (let conn1 = send_additional_header (send_static_cache_header (snd (mg_response_header_start conn 304)));
          conn2 = add_header ''Last-Modified'' (gmt_time_string (Some (last_modified st))) conn1;
          conn3 = add_header ''Etag'' (construct_etag st) conn2
      in snd (mg_response_header_send conn3))"

section \<open>Index files\<close>

text \<open>The path without the slashes at its end.\<close>

definition strip_slashes :: "string \<Rightarrow> string" where
  "strip_slashes path = rev (dropWhile ((=) (CHR ''/'')) (rev path))"

text \<open>
  The loop over the names: the path found, or nothing; the last name that was tried, which stays
  in the buffer; the file status.
\<close>

function index_loop ::
    "stat_function \<Rightarrow> string \<Rightarrow> nat \<Rightarrow> string \<Rightarrow> string \<Rightarrow> mg_file_stat \<Rightarrow> string option \<times> string \<times> mg_file_stat" where
  "index_loop stat dir path_len list tried st =
     (case next_value list of
        None \<Rightarrow> (None, tried, st)
      | Some (name, rest) \<Rightarrow>
          if length name + 1 > path_len - (length dir + 1) then index_loop stat dir path_len rest tried st
          else case mg_stat stat (dir @ CHR ''/'' # name) of
                 (True, st') \<Rightarrow> (Some (dir @ CHR ''/'' # name), name, st')
               | (False, st') \<Rightarrow> index_loop stat dir path_len rest name st')"
  by pat_completeness auto
termination
  by (relation "measure (\<lambda>(stat, dir, n, list, tried, st). length list)") (auto dest: next_value_rest)

declare index_loop.simps [simp del]

definition substitute_index_file_aux ::
    "stat_function \<Rightarrow> mg_connection \<Rightarrow> string \<Rightarrow> nat \<Rightarrow> mg_file_stat \<Rightarrow> string option \<times> string \<times> mg_file_stat" where
  "substitute_index_file_aux stat conn path path_len st =
     (case conf conn INDEX_FILES of
        None \<Rightarrow> (None, [], st)
      | Some list \<Rightarrow> index_loop stat (strip_slashes path) path_len list [] st)"

text \<open>The directory under the fallback root, if \<open>path\<close> is under the root and the buffer has room.\<close>

definition fallback_path :: "mg_connection \<Rightarrow> string \<Rightarrow> string option" where
  "fallback_path conn path =
     (case (conf conn DOCUMENT_ROOT, conf conn FALLBACK_DOCUMENT_ROOT) of
        (Some root, Some fallback) \<Rightarrow>
          if take (length root) path = root
          then let sub_path = dropWhile ((=) (CHR ''/'')) (drop (length root) path)
               in if length fallback + 1 + length sub_path + 1 < PATH_MAX
                  then Some ((if fallback \<noteq> [] \<and> last fallback \<noteq> CHR ''/'' then fallback @ ''/'' else fallback) @ sub_path)
                  else None
          else None
      | _ \<Rightarrow> None)"

text \<open>The index file found, the last name tried in \<open>path\<close>, and the file status.\<close>

definition substitute_index_file ::
    "stat_function \<Rightarrow> mg_connection \<Rightarrow> string \<Rightarrow> nat \<Rightarrow> mg_file_stat \<Rightarrow> string option \<times> string \<times> mg_file_stat" where
  "substitute_index_file stat conn path path_len st =
     (case substitute_index_file_aux stat conn path path_len st of
        (Some p, r) \<Rightarrow> (Some p, r)
      | (None, tried, st1) \<Rightarrow>
          (case fallback_path conn (strip_slashes path) of
             None \<Rightarrow> (None, tried, st1)
           | Some scratch \<Rightarrow>
               (case substitute_index_file_aux stat conn scratch PATH_MAX st1 of
                  (Some p, _, st2) \<Rightarrow> (Some (take (path_len - 1) p), tried, st2)
                | (None, _, st2) \<Rightarrow> (None, tried, st2))))"

section \<open>Interpreting the URI\<close>

record uri_result =
  filename :: string
  filestat :: mg_file_stat
  is_found :: bool
  is_script_resource :: bool
  is_websocket_request :: bool
  is_put_or_delete_request :: bool
  is_webdav_request :: bool
  is_template_text :: bool
  path_info :: "string option"

definition contains_text :: "string \<Rightarrow> string \<Rightarrow> bool" where
  "contains_text small big = list_ex (\<lambda>i. take (length small) (drop i big) = small) [0..<Suc (length big)]"

text \<open>Steps 1 to 3: the outputs that depend on the request only.\<close>

definition initial_result :: "mg_connection \<Rightarrow> uri_result" where
  "initial_result conn = \<lparr> filename = [], filestat = no_stat, is_found = False, is_script_resource = False,
     is_websocket_request = (protocol_type conn = PROTOCOL_TYPE_WEBSOCKET),
     is_put_or_delete_request = is_put_or_delete_method conn, is_webdav_request = is_civetweb_webdav_method conn,
     is_template_text = False, path_info = None \<rparr>"

definition cleanup_result :: "uri_result \<Rightarrow> uri_result" where
  "cleanup_result r = r\<lparr> filename := [], filestat := no_stat, is_found := False, is_script_resource := False,
     is_websocket_request := False, is_put_or_delete_request := False \<rparr>"

text \<open>The roots up to the first null pointer.\<close>

definition uri_roots :: "mg_connection \<Rightarrow> string list" where
  "uri_roots conn =
     (let (r0, r1) = (if protocol_type conn = PROTOCOL_TYPE_WEBSOCKET \<and> conf conn WEBSOCKET_ROOT \<noteq> None
                      then (conf conn WEBSOCKET_ROOT, conf conn FALLBACK_WEBSOCKET_ROOT)
                      else (conf conn DOCUMENT_ROOT, conf conn FALLBACK_DOCUMENT_ROOT))
      in case r0 of None \<Rightarrow> [] | Some a \<Rightarrow> (case r1 of None \<Rightarrow> [a] | Some b \<Rightarrow> [a, b]))"

definition decide_gzip :: "mg_connection \<Rightarrow> mg_connection" where
  "decide_gzip conn =
     conn\<lparr> accept_gzip := (case mg_get_header conn ''Accept-Encoding'' of None \<Rightarrow> False | Some v \<Rightarrow> contains_text ''gzip'' v) \<rparr>"

text \<open>Step 7: the file name that the first matching rewrite pattern gives.\<close>

function rewrite_uri :: "string \<Rightarrow> string option \<Rightarrow> string option" where
  "rewrite_uri uri list =
     (case next_option list of
        None \<Rightarrow> None
      | Some (rest, a, b) \<Rightarrow>
          if match_prefix (Some a) uri > 0
          then Some ((case b of Some v \<Rightarrow> v | None \<Rightarrow> []) @ drop (nat (match_prefix (Some a) uri)) uri)
          else rewrite_uri uri (Some rest))"
  by pat_completeness auto
termination
  by (relation "measure (\<lambda>(uri, list). case list of None \<Rightarrow> 0 | Some l \<Rightarrow> length l)")
    (auto simp: next_option_def split: option.splits prod.splits dest: next_value_rest)

declare rewrite_uri.simps [simp del]

text \<open>Steps 6 to 8: the first root under which the file exists.\<close>

datatype root_result = Truncated | Exists string mg_file_stat | Missing string mg_file_stat

fun try_roots :: "stat_function \<Rightarrow> mg_connection \<Rightarrow> string \<Rightarrow> string list \<Rightarrow> string \<Rightarrow> mg_file_stat \<Rightarrow> root_result" where
  "try_roots stat conn uri [] name st = Missing name st"
| "try_roots stat conn uri (root # roots) name st =
     (case print_in (PATH_MAX - 1) (root @ uri) of
        None \<Rightarrow> Truncated
      | Some joined \<Rightarrow>
          (case (case rewrite_uri uri (conf conn URL_REWRITE_PATTERN) of
                   None \<Rightarrow> Some joined
                 | Some rewritten \<Rightarrow> print_in (PATH_MAX - 1) rewritten) of
             None \<Rightarrow> Truncated
           | Some f \<Rightarrow>
               (case mg_stat stat f of
                  (True, st') \<Rightarrow> Exists f st'
                | (False, st') \<Rightarrow> try_roots stat conn uri roots f st')))"

text \<open>Steps 8.1 to 8.4: the file exists.\<close>

definition existing_file :: "stat_function \<Rightarrow> mg_connection \<Rightarrow> string \<Rightarrow> string \<Rightarrow> mg_file_stat \<Rightarrow> uri_result \<Rightarrow> uri_result" where
  "existing_file stat conn uri f st r0 =
     (let put = is_put_or_delete_request r0;
          r1 = r0\<lparr> filename := f, filestat := st, is_found := True \<rparr>;
          r2 = (if extention_matches_script conn f then r1\<lparr> is_script_resource := \<not> put \<rparr> else r1);
          r3 = (if extention_matches_template_text conn f then r2\<lparr> is_template_text := \<not> put \<rparr> else r2)
      in if is_directory st \<and> uri \<noteq> [] \<and> last uri = CHR ''/'' \<and> \<not> is_webdav_request r0
         then case substitute_index_file stat conn f PATH_MAX no_stat of
                (None, _) \<Rightarrow> r3\<lparr> filename := strip_slashes f \<rparr>
              | (Some index, _, st') \<Rightarrow>
                  let r4 = r3\<lparr> filename := index, filestat := st' \<rparr>
                  in if extention_matches_script conn index then r4\<lparr> is_script_resource := True \<rparr>
                     else if extention_matches_template_text conn index then r4\<lparr> is_template_text := True \<rparr>
                     else let (found, st'') = mg_stat stat index
                          in r4\<lparr> is_script_resource := False, is_found := found, filestat := st'' \<rparr>
         else r3)"

text \<open>
  What a substitution that fails leaves in the buffer: a terminator behind the directory, then the
  last name tried.
\<close>

definition after_failure :: "string \<Rightarrow> string \<Rightarrow> string \<Rightarrow> string" where
  "after_failure dir tried buf =
     (let written = dir @ NUL # (if tried = [] then [] else tried @ [NUL]) in written @ drop (length written) buf)"

text \<open>Step 10: a script in front of a separator, from the last one to the first. \<open>buf\<close> is \<open>tmp_str\<close>.\<close>

fun script_subresource :: "stat_function \<Rightarrow> mg_connection \<Rightarrow> nat \<Rightarrow> nat \<Rightarrow> string \<Rightarrow> uri_result \<Rightarrow> uri_result" where
  "script_subresource stat conn tmp_str_len 0 buf r = r"
| "script_subresource stat conn tmp_str_len (Suc sep_pos) buf r =
     (if buf ! sep_pos \<noteq> CHR ''/'' then script_subresource stat conn tmp_str_len sep_pos buf r
      else
        let prefix = cstr (take sep_pos buf);
            is_script = prefix \<noteq> [] \<and> extention_matches_script conn prefix;
            (does_exist, st1) = (if prefix \<noteq> [] then mg_stat stat prefix else (False, filestat r));
            f = filename r
        in if does_exist \<and> is_script
           then r\<lparr> filename := take sep_pos f, path_info := Some (CHR ''/'' # drop (Suc sep_pos) f),
                   filestat := st1, is_script_resource := True, is_found := True \<rparr>
           else if conf_is conn ALLOW_INDEX_SCRIPT_SUB_RES ''yes''
           then case substitute_index_file stat conn prefix (tmp_str_len + PATH_MAX) st1 of
                  (Some index, _, st2) \<Rightarrow>
                    if extention_matches_script conn index
                    then if length index + length (drop sep_pos f) + 2 \<ge> PATH_MAX then cleanup_result r
                         else r\<lparr> filename := index, path_info := Some (drop sep_pos f),
                                 filestat := st2, is_script_resource := True, is_found := True \<rparr>
                    else r\<lparr> filename := take sep_pos f, path_info := None,
                            filestat := st2, is_script_resource := False, is_found := False \<rparr>
                | (None, tried, st2) \<Rightarrow>
                    script_subresource stat conn tmp_str_len sep_pos
                      ((after_failure (strip_slashes prefix) tried buf) [sep_pos := CHR ''/'']) (r\<lparr> filestat := st2 \<rparr>)
           else script_subresource stat conn tmp_str_len sep_pos buf (r\<lparr> filestat := st1 \<rparr>))"

text \<open>Steps 9 and 10: the file does not exist.\<close>

definition missing_file :: "stat_function \<Rightarrow> mg_connection \<Rightarrow> string \<Rightarrow> mg_file_stat \<Rightarrow> uri_result \<Rightarrow> uri_result" where
  "missing_file stat conn f st r0 =
     (let r1 = r0\<lparr> filename := f, filestat := st \<rparr>;
          scripts = (\<lambda>r. script_subresource stat conn (length f) (length f) f r)
      in if accept_gzip conn
         then case print_in PATH_MAX (f @ ''.gz'') of
                None \<Rightarrow> cleanup_result r1
              | Some gz_path \<Rightarrow>
                  (case mg_stat stat gz_path of
                     (True, st') \<Rightarrow> r1\<lparr> filestat := st'\<lparr> is_gzipped := True \<rparr>, is_found := True \<rparr>
                   | (False, st') \<Rightarrow> scripts (r1\<lparr> filestat := st' \<rparr>))
         else scripts r1)"

definition interpret_uri :: "stat_function \<Rightarrow> mg_connection \<Rightarrow> uri_result \<times> mg_connection" where
  "interpret_uri stat conn0 =
     (let r0 = initial_result conn0;
          conn = decide_gzip conn0;
          uri = the (local_uri (request_info conn))
      in if uri_roots conn = [] then (r0, conn)
         else (case try_roots stat conn uri (uri_roots conn) [] no_stat of
                 Truncated \<Rightarrow> cleanup_result r0
               | Exists f st \<Rightarrow> existing_file stat conn uri f st r0
               | Missing f st \<Rightarrow> missing_file stat conn f st r0, conn))"

end
