(* ===== verification/Requests.thy ===== *)
theory Requests
  imports File_Lookup Url_Codec Handlers
begin

text \<open>
  The life of a request in the server (\<open>src/civetweb.c\<close>, \<open>handle_request\<close>): the URI is cleaned, a
  begin-request callback or a CORS preflight may end it, a handler or a file is found, the
  authorization is checked, and the request is served. The result is the trace of what the function
  does, one action for each check and each call of the function that serves, and the state
  after it. Callbacks, the file system, the clock and the listening sockets are arguments.
\<close>

section \<open>State and actions\<close>

record request_env =
  stat_file :: stat_function
  read_file :: "string \<Rightarrow> string option"
  listeners :: "(bool \<times> nat) list"
  ssl_redir :: bool
  throttle_for :: "string option \<Rightarrow> string \<Rightarrow> string \<Rightarrow> int"
  curtime :: int
  begin_request :: "(mg_connection \<Rightarrow> int \<times> mg_connection) option"
  request_function :: "nat \<Rightarrow> nat \<Rightarrow> mg_connection \<Rightarrow> int \<times> mg_connection"
  auth_function :: "nat \<Rightarrow> nat \<Rightarrow> mg_connection \<Rightarrow> int \<times> mg_connection"

definition files :: "request_env \<Rightarrow> file_system" where
  "files env = \<lparr> fs_read = read_file env, fs_directory = (\<lambda>p. is_directory (snd (mg_stat (stat_file env) p))) \<rparr>"

record server_state =
  sv_conn :: mg_connection
  sv_handlers :: "mg_handler_info list"
  sv_nonces :: nonce_ctx

datatype request_action =
    Http_Error nat
  | Redirect_Https int
  | Begin_Request
  | Cors_Preflight
  | Checked_By_Handler bool
  | Checked_Put mg_connection bool
  | Checked_Path mg_connection string bool
  | Ask_Authorization
  | Call_Handler nat nat
  | Websocket_Handler callbacks
  | Websocket_Script string
  | Cgi_Script string config_opt
  | Ssi_File string
  | Put_File string
  | Delete_File string
  | Mkcol string
  | Move_File string bool
  | Lock_File string
  | Unlock_File string
  | Proppatch string
  | Redirect_Directory
  | Propfind string mg_file_stat
  | Send_Options
  | List_Directory string
  | Not_Modified string mg_file_stat
  | Static_File string mg_file_stat

type_synonym request_result = "request_action list \<times> server_state"

section \<open>The URI\<close>

definition cut_query :: "string \<Rightarrow> string" where
  "cut_query s = (case memchr (CHR ''?'') s of None \<Rightarrow> s | Some i \<Rightarrow> take i s)"

text \<open>
  Step 1.1. The local URI is the request URI or the rest of it behind the authority, in the same
  buffer, so it is cut as well; an authority has no question mark.
\<close>

definition split_query :: "mg_connection \<Rightarrow> mg_connection" where
  "split_query conn =
     (let ri = request_info conn; uri = the (request_uri ri)
      in conn\<lparr> request_info := ri\<lparr> request_uri := Some (cut_query uri),
           query_string := map_option (\<lambda>i. drop (Suc i) uri) (memchr (CHR ''?'') uri),
           local_uri_raw := map_option cut_query (local_uri_raw ri),
           local_uri := map_option cut_query (local_uri ri) \<rparr> \<rparr>)"

text \<open>Steps 1.3 and 1.4: decoding in the buffer of the request URI, and the clean copy.\<close>

definition decode_uri :: "mg_connection \<Rightarrow> mg_connection" where
  "decode_uri conn =
     (if should_decode_url (Some conn)
      then let ri = request_info conn; raw = the (local_uri_raw ri); uri = the (request_uri ri); u = url_decode_in_place raw
           in conn\<lparr> request_info := ri\<lparr> request_uri := Some (take (length uri - length raw) uri @ u),
                    local_uri_raw := Some u, local_uri := Some u \<rparr> \<rparr>
      else conn)"

definition decode_query :: "mg_connection \<Rightarrow> mg_connection" where
  "decode_query conn =
     (if should_decode_query_string (Some conn)
      then conn\<lparr> request_info := (request_info conn)\<lparr> query_string := map_option url_decode_in_place (query_string (request_info conn)) \<rparr> \<rparr>
      else conn)"

definition clean_uri :: "mg_connection \<Rightarrow> mg_connection" where
  "clean_uri conn =
     conn\<lparr> request_info := (request_info conn)\<lparr> local_uri := Some (remove_dot_segments (mg_strdup (the (local_uri_raw (request_info conn))))) \<rparr> \<rparr>"

text \<open>The connection in front of step 3, with its speed limit (step 2).\<close>

definition prepare_request :: "request_env \<Rightarrow> mg_connection \<Rightarrow> mg_connection" where
  "prepare_request env conn0 =
     (let conn = clean_uri (decode_query (decode_uri conn0)); ri = request_info conn
      in conn\<lparr> throttle := throttle_for env (conf conn THROTTLE) (remote_addr ri) (the (local_uri ri)) \<rparr>)"

fun get_first_ssl_listener_index :: "nat \<Rightarrow> (bool \<times> nat) list \<Rightarrow> int" where
  "get_first_ssl_listener_index i [] = -1"
| "get_first_ssl_listener_index i ((ssl, port) # ls) = (if ssl then int i else get_first_ssl_listener_index (Suc i) ls)"

section \<open>CORS preflight\<close>

text \<open>Step 4. The C library prints a null pointer as \<open>(null)\<close>.\<close>

definition print_string :: "string option \<Rightarrow> string" where
  "print_string s = (case s of None \<Rightarrow> ''(null)'' | Some t \<Rightarrow> t)"

definition preflight_applies :: "mg_connection \<Rightarrow> bool" where
  "preflight_applies conn \<longleftrightarrow>
     (let hs = http_headers (request_info conn)
      in request_method (request_info conn) = Some ''OPTIONS'' \<and>
         nonempty (conf conn ACCESS_CONTROL_ALLOW_METHODS) \<and> nonempty (conf conn ACCESS_CONTROL_ALLOW_ORIGIN) \<and>
         get_header hs ''Origin'' \<noteq> None \<and> get_header hs ''Access-Control-Request-Method'' \<noteq> None \<and>
         nonempty (conf conn REPLACE_ASTERISK_WITH_ORIGIN))"

definition cors_preflight :: "int \<Rightarrow> mg_connection \<Rightarrow> mg_connection" where
  "cors_preflight now conn0 =
     (let hs = http_headers (request_info conn0);
          orig = the (conf conn0 ACCESS_CONTROL_ALLOW_ORIGIN);
          meth = the (conf conn0 ACCESS_CONTROL_ALLOW_METHODS);
          origin = the (get_header hs ''Origin'');
          acrm = the (get_header hs ''Access-Control-Request-Method'');
          acrh = get_header hs ''Access-Control-Request-Headers'';
          cred = conf conn0 ACCESS_CONTROL_ALLOW_CREDENTIALS;
          exphdr = conf conn0 ACCESS_CONTROL_EXPOSE_HEADERS;
          hdr = conf conn0 ACCESS_CONTROL_ALLOW_HEADERS;
          replace = mg_strcasecmp (the (conf conn0 REPLACE_ASTERISK_WITH_ORIGIN)) ''yes'' = 0;
          print = (\<lambda>t c. snd (mg_printf c t));
          print_if = (\<lambda>b t c. if b then snd (mg_printf c t) else c);
          conn1 = print (''HTTP/1.1 200 OK'' @ CRLF @ header_text ''Date'' (gmt_time_string (Some now)) @
                    header_text ''Access-Control-Allow-Origin'' (if replace \<and> hd0 orig = CHR ''*'' then origin else orig) @
                    header_text ''Access-Control-Allow-Methods'' (if hd0 meth = CHR ''*'' then acrm else meth) @
                    header_text ''Content-Length'' ''0'' @
                    header_text ''Connection'' (suggest_connection_header conn0)) conn0;
          conn2 = print_if (nonempty cred) (header_text ''Access-Control-Allow-Credentials'' (the cred)) conn1;
          conn3 = print_if (nonempty exphdr) (header_text ''Access-Control-Expose-Headers'' (the exphdr)) conn2;
          conn4 = print_if ((acrh \<noteq> None \<or> nonempty cred) \<and> nonempty hdr)
                    (header_text ''Access-Control-Allow-Headers''
                      (if hd0 (the hdr) = CHR ''*'' then print_string acrh else the hdr)) conn3
      in print CRLF (print (header_text ''Access-Control-Max-Age'' ''60'') conn4))"

section \<open>Authorization\<close>

definition release_info :: "nat option \<Rightarrow> mg_handler_info list \<Rightarrow> mg_handler_info list" where
  "release_info handler_info rhs = (case handler_info of None \<Rightarrow> rhs | Some a \<Rightarrow> release_handler_ref a rhs)"

definition ask_authorization :: "server_state \<Rightarrow> server_state" where
  "ask_authorization sv =
     (case send_authorization_request (sv_conn sv) (sv_nonces sv) None of
        (conn, nonces) \<Rightarrow> sv\<lparr> sv_conn := conn, sv_nonces := nonces \<rparr>)"

text \<open>
  Step 6. \<open>changing\<close>: a request to change a file that no script and no callback handles. The result:
  whether the request goes on, the checks made, the state.
\<close>

definition authorization ::
    "request_env \<Rightarrow> server_state \<Rightarrow> nat option \<Rightarrow> bool \<Rightarrow> string \<Rightarrow> bool \<times> request_action list \<times> server_state" where
  "authorization env sv handler_info changing path =
     (let conn = sv_conn sv; uri = the (local_uri (request_info conn))
      in case get_request_handler AUTH_HANDLER uri (sv_handlers sv) of
           (Some rh, _) \<Rightarrow>
             (case auth_function env (the (auth_cb (cbs rh))) (cbdata (cbs rh)) conn of
                (i, conn') \<Rightarrow>
                  if i = 0
                  then (False, [Checked_By_Handler False],
                        sv\<lparr> sv_conn := conn', sv_handlers := release_info handler_info (sv_handlers sv) \<rparr>)
                  else (True, [Checked_By_Handler True], sv\<lparr> sv_conn := conn' \<rparr>))
         | (None, _) \<Rightarrow>
             if changing
             then if conf conn DOCUMENT_ROOT = None \<or> conf conn PUT_DELETE_PASSWORDS_FILE = None
                  then (False, [Http_Error 405], sv)
                  else case is_authorized_for_put (files env) (Some conn) (sv_nonces sv) of
                         (ok, conn') \<Rightarrow>
                           let sv' = sv\<lparr> sv_conn := the conn' \<rparr>
                           in if ok then (True, [Checked_Put conn True], sv')
                              else (False, [Checked_Put conn False, Ask_Authorization], ask_authorization sv')
             else case check_authorization (files env) (Some conn) (sv_nonces sv) path of
                    (ok, conn') \<Rightarrow>
                      let sv' = sv\<lparr> sv_conn := the conn' \<rparr>
                      in if ok then (True, [Checked_Path conn path True], sv')
                         else (False, [Checked_Path conn path False, Ask_Authorization],
                               (ask_authorization sv')\<lparr> sv_handlers := release_info handler_info (sv_handlers sv') \<rparr>))"

section \<open>Serving\<close>

text \<open>A static file: not modified since the client got it, or its contents.\<close>

definition static_file :: "string \<Rightarrow> mg_file_stat \<Rightarrow> mg_connection \<Rightarrow> request_action list \<times> mg_connection" where
  "static_file path st conn =
     (if \<not> in_error_handler conn \<and> is_not_modified conn st
      then ([Not_Modified path st], handle_not_modified_static_file_request conn st)
      else ([Static_File path st], conn))"

definition handle_file_based_request :: "string \<Rightarrow> mg_file_stat \<Rightarrow> mg_connection \<Rightarrow> request_action list \<times> mg_connection" where
  "handle_file_based_request path st conn =
     (if dom_ctx conn = None then ([], conn)
      else case find (\<lambda>opt. conf conn opt \<noteq> None \<and> match_prefix (conf conn opt) path > 0) [CGI_EXTENSIONS, CGI2_EXTENSIONS] of
             Some opt \<Rightarrow> ([Cgi_Script path opt], conn)
           | None \<Rightarrow> if match_prefix (conf conn SSI_EXTENSIONS) path > 0 then ([Ssi_File path], conn)
                     else static_file path st conn)"

text \<open>Step 11: the methods that change a file.\<close>

definition put_or_delete_action :: "string \<Rightarrow> string \<Rightarrow> request_action" where
  "put_or_delete_action method0 path =
     (if method0 = ''PUT'' then Put_File path
      else if method0 = ''DELETE'' then Delete_File path
      else if method0 = ''MKCOL'' then Mkcol path
      else if method0 = ''MOVE'' then Move_File path False
      else if method0 = ''COPY'' then Move_File path True
      else if method0 = ''LOCK'' then Lock_File path
      else if method0 = ''UNLOCK'' then Unlock_File path
      else if method0 = ''PROPPATCH'' then Proppatch path
      else Http_Error 405)"

text \<open>Steps 8 to 17, without a callback.\<close>

definition serve_file :: "nat \<Rightarrow> uri_result \<Rightarrow> mg_connection \<Rightarrow> request_action list \<times> mg_connection" where
  "serve_file uri_len r conn =
     (let path = filename r; st = filestat r; uri = the (local_uri (request_info conn));
          method0 = the (request_method (request_info conn))
      in if is_websocket_request r
         then ([if is_script_resource r then Websocket_Script path else Http_Error 404], conn)
         else if conf conn DOCUMENT_ROOT = None then ([Http_Error 404], conn)
         else if is_script_resource r then handle_file_based_request path st conn
         else if is_put_or_delete_request r then ([put_or_delete_action method0 path], conn)
         else if \<not> is_found r \<or> must_hide_file conn path then ([Http_Error 404], conn)
         else if is_directory st \<and> uri_len > 0 \<and> rd uri (uri_len - 1) \<noteq> CHR ''/'' then ([Redirect_Directory], conn)
         else if method0 = ''PROPFIND'' then ([Propfind path st], conn)
         else if method0 = ''OPTIONS'' then ([Send_Options], conn)
         else if method0 \<noteq> ''GET'' \<and> method0 \<noteq> ''HEAD'' then ([Http_Error 405], conn)
         else if is_directory st
         then ([if conf_is conn ENABLE_DIRECTORY_LISTING ''yes'' then List_Directory path else Http_Error 403], conn)
         else if is_template_text r then handle_file_based_request path st conn
         else static_file path st conn)"

text \<open>From the label \<open>no_callback_resource\<close> on; \<open>handler_info\<close> is what the variable holds there.\<close>

definition file_resource :: "request_env \<Rightarrow> server_state \<Rightarrow> nat option \<Rightarrow> nat \<Rightarrow> request_result" where
  "file_resource env sv0 handler_info uri_len =
     (case interpret_uri (stat_file env) (sv_conn sv0) of
        (r, conn) \<Rightarrow>
          let sv = sv0\<lparr> sv_conn := conn \<rparr>
          in if is_webdav_request r \<and> hd0 (the (conf conn ENABLE_WEBDAV)) \<noteq> CHR ''y'' then ([Http_Error 405], sv)
             else case authorization env sv handler_info (is_put_or_delete_request r \<and> \<not> is_script_resource r) (filename r) of
                    (ok, checks, sv1) \<Rightarrow>
                      if \<not> ok then (checks, sv1)
                      else case serve_file uri_len r (sv_conn sv1) of
                             (acts, conn') \<Rightarrow> (checks @ acts, sv1\<lparr> sv_conn := conn' \<rparr>))"

text \<open>The request is finished with this status: what is left of its body is read.\<close>

definition finish_callback :: "int \<Rightarrow> mg_connection \<Rightarrow> mg_connection" where
  "finish_callback i conn0 =
     (let conn = conn0\<lparr> status_code := i \<rparr> in if \<not> must_close conn then discard_unread_request_data conn else conn)"

text \<open>Steps 6 and 7 for a callback; a handler that returns 0 hands the request to the files.\<close>

definition callback_resource :: "request_env \<Rightarrow> server_state \<Rightarrow> mg_handler_info \<Rightarrow> nat option \<Rightarrow> bool \<Rightarrow> nat \<Rightarrow> request_result" where
  "callback_resource env sv rh handler_info websocket uri_len =
     (case authorization env sv handler_info False [] of
        (ok, checks, sv1) \<Rightarrow>
          if \<not> ok then (checks, sv1)
          else if websocket then (checks @ [Websocket_Handler (cbs rh)], sv1)
          else let h = the (request_cb (cbs rh)); d = cbdata (cbs rh)
               in case request_function env h d (sv_conn sv1) of
                    (i, conn) \<Rightarrow>
                      let sv2 = sv1\<lparr> sv_conn := conn, sv_handlers := release_info handler_info (sv_handlers sv1) \<rparr>
                      in if i > 0 then (checks @ [Call_Handler h d], sv2\<lparr> sv_conn := finish_callback i conn \<rparr>)
                         else case file_resource env sv2 handler_info uri_len of
                                (acts, sv3) \<Rightarrow> (checks @ Call_Handler h d # acts, sv3))"

text \<open>Step 5: the callback or the file for the URI.\<close>

definition route_request :: "request_env \<Rightarrow> server_state \<Rightarrow> nat \<Rightarrow> request_result" where
  "route_request env sv uri_len =
     (let conn = sv_conn sv;
          websocket = (protocol_type conn = PROTOCOL_TYPE_WEBSOCKET);
          ty = (if websocket then WEBSOCKET_HANDLER else REQUEST_HANDLER)
      in case get_request_handler ty (the (local_uri (request_info conn))) (sv_handlers sv) of
           (Some rh, rhs) \<Rightarrow>
             callback_resource env (sv\<lparr> sv_handlers := rhs \<rparr>) rh (if websocket then None else Some (addr rh)) websocket uri_len
         | (None, _) \<Rightarrow> file_resource env sv None uri_len)"

definition preflight_or_route :: "request_env \<Rightarrow> server_state \<Rightarrow> nat \<Rightarrow> request_result" where
  "preflight_or_route env sv uri_len =
     (if preflight_applies (sv_conn sv)
      then ([Cors_Preflight], sv\<lparr> sv_conn := cors_preflight (curtime env) (sv_conn sv) \<rparr>)
      else route_request env sv uri_len)"

definition handle_request :: "request_env \<Rightarrow> server_state \<Rightarrow> request_result" where
  "handle_request env sv =
     (let conn1 = split_query ((sv_conn sv)\<lparr> request_state := 0 \<rparr>);
          idx = get_first_ssl_listener_index 0 (listeners env);
          conn2 = prepare_request env conn1;
          uri_len = length (the (local_uri (request_info conn2)))
      in if \<not> is_ssl (request_info conn1) \<and> ssl_redir env
         then ([if idx \<ge> 0 then Redirect_Https (int (snd (listeners env ! nat idx))) else Http_Error 503], sv\<lparr> sv_conn := conn1 \<rparr>)
         else case begin_request env of
                None \<Rightarrow> preflight_or_route env (sv\<lparr> sv_conn := conn2 \<rparr>) uri_len
              | Some f \<Rightarrow>
                  (case f conn2 of
                     (i, conn3) \<Rightarrow>
                       if i > 0 then ([Begin_Request], sv\<lparr> sv_conn := finish_callback i conn3 \<rparr>)
                       else if i = 0
                       then (case preflight_or_route env (sv\<lparr> sv_conn := conn3 \<rparr>) uri_len of
                               (acts, sv') \<Rightarrow> (Begin_Request # acts, sv'))
                       else ([Begin_Request], sv\<lparr> sv_conn := conn3 \<rparr>)))"

end
