(* ===== verification/Request_Checks.thy ===== *)
theory Request_Checks
  imports Requests
begin

text \<open>
  What \<open>handle_request\<close> guarantees: every action is allowed by the check in front of it, handler
  references are given back, and which files are sent.
\<close>



section \<open>What the callbacks leave alone\<close>

definition same_request :: "mg_connection \<Rightarrow> mg_connection \<Rightarrow> bool" where
  "same_request c c' \<longleftrightarrow> dom_ctx c' = dom_ctx c \<and> protocol_type c' = protocol_type c \<and>
     connection_type c' = connection_type c \<and>
     (request_info c')\<lparr> remote_user := None \<rparr> = (request_info c)\<lparr> remote_user := None \<rparr>"

lemma same_request_refl [simp]: "same_request c c"
  by (simp add: same_request_def)

lemma same_request_trans: "same_request a b \<Longrightarrow> same_request b c \<Longrightarrow> same_request a c"
  by (simp add: same_request_def)

lemma same_request_info:
  assumes "same_request c c'"
  shows "local_uri (request_info c') = local_uri (request_info c)" "http_headers (request_info c') = http_headers (request_info c)"
    "request_method (request_info c') = request_method (request_info c)" "conf c' = conf c" "dom_ctx c' = dom_ctx c"
    "protocol_type c' = protocol_type c" "connection_type c' = connection_type c"
  using assms unfolding same_request_def conf_def by (cases "request_info c"; cases "request_info c'"; simp)+

text \<open>
  Callbacks get the request as a pointer to constant data and have no access to the
  configuration, so a callback that keeps to its interface changes neither.
\<close>

definition callbacks_const :: "request_env \<Rightarrow> bool" where
  "callbacks_const env \<longleftrightarrow>
     (\<forall>c. (\<forall>f. begin_request env = Some f \<longrightarrow> same_request c (snd (f c))) \<and>
          (\<forall>h d. same_request c (snd (request_function env h d c)) \<and> same_request c (snd (auth_function env h d c))))"

lemma callbacks_constD:
  assumes "callbacks_const env"
  shows "begin_request env = Some f \<Longrightarrow> f c = (i, c') \<Longrightarrow> same_request c c'"
    "request_function env h d c = (i, c') \<Longrightarrow> same_request c c'"
    "auth_function env h d c = (i, c') \<Longrightarrow> same_request c c'"
  using assms unfolding callbacks_const_def by (metis snd_conv)+

lemma interpret_uri_same: "interpret_uri stat c = (r, c') \<Longrightarrow> same_request c c'"
  by (auto simp: interpret_uri_def Let_def decide_gzip_def same_request_def split: if_splits)

lemma authorize_same: "authorize fs c n content realm = (ok, c') \<Longrightarrow> same_request c c'"
  by (auto simp: authorize_def Let_def same_request_def split: if_splits option.splits)

lemma check_authorization_same:
  assumes "check_authorization fs (Some c) n p = (ok, c')"
  shows "c' \<noteq> None \<and> same_request c (the c')"
  using assms authorize_same unfolding check_authorization_def Let_def
  by (auto split: if_splits option.splits prod.splits)

lemma is_authorized_for_put_same:
  assumes "is_authorized_for_put fs (Some c) n = (ok, c')"
  shows "c' \<noteq> None \<and> same_request c (the c')"
  using assms authorize_same unfolding is_authorized_for_put_def
  by (auto split: option.splits prod.splits)

section \<open>Checks and actions\<close>

text \<open>The actions that give or change something, and those that change a file.\<close>

fun needs_check :: "request_action \<Rightarrow> bool" where
  "needs_check (Http_Error n) = False"
| "needs_check (Redirect_Https p) = False"
| "needs_check Begin_Request = False"
| "needs_check Cors_Preflight = False"
| "needs_check (Checked_By_Handler ok) = False"
| "needs_check (Checked_Put c ok) = False"
| "needs_check (Checked_Path c p ok) = False"
| "needs_check Ask_Authorization = False"
| "needs_check _ = True"

fun changes_file :: "request_action \<Rightarrow> bool" where
  "changes_file (Put_File p) = True"
| "changes_file (Delete_File p) = True"
| "changes_file (Mkcol p) = True"
| "changes_file (Move_File p b) = True"
| "changes_file (Lock_File p) = True"
| "changes_file (Unlock_File p) = True"
| "changes_file (Proppatch p) = True"
| "changes_file _ = False"

fun action_path :: "request_action \<Rightarrow> string option" where
  "action_path (Cgi_Script p opt) = Some p"
| "action_path (Ssi_File p) = Some p"
| "action_path (Websocket_Script p) = Some p"
| "action_path (Put_File p) = Some p"
| "action_path (Delete_File p) = Some p"
| "action_path (Mkcol p) = Some p"
| "action_path (Move_File p b) = Some p"
| "action_path (Lock_File p) = Some p"
| "action_path (Unlock_File p) = Some p"
| "action_path (Proppatch p) = Some p"
| "action_path (Propfind p st) = Some p"
| "action_path (List_Directory p) = Some p"
| "action_path (Not_Modified p st) = Some p"
| "action_path (Static_File p st) = Some p"
| "action_path _ = None"

text \<open>
  The check \<open>e\<close> allows the action \<open>a\<close>: the authorization handler accepted, or a change of a file was
  authorized by the passwords file for changes, or the path of the action was authorized; with the
  credentials of the request, that is of the connection \<open>conn\<close>.
\<close>

fun allows :: "request_env \<Rightarrow> nonce_ctx \<Rightarrow> mg_connection \<Rightarrow> request_action \<Rightarrow> request_action \<Rightarrow> bool" where
  "allows env n conn (Checked_By_Handler ok) a = (ok \<and> (\<exists>h d c. same_request conn c \<and> fst (auth_function env h d c) \<noteq> 0))"
| "allows env n conn (Checked_Put c ok) a =
     (ok \<and> changes_file a \<and> same_request conn c \<and> fst (is_authorized_for_put (files env) (Some c) n))"
| "allows env n conn (Checked_Path c p ok) a =
     (ok \<and> \<not> changes_file a \<and> (action_path a = None \<or> action_path a = Some p) \<and> same_request conn c \<and>
      fst (check_authorization (files env) (Some c) n p))"
| "allows env n conn _ a = False"

text \<open>Every action that needs it has a check that allows it directly in front.\<close>

definition guarded :: "(request_action \<Rightarrow> request_action \<Rightarrow> bool) \<Rightarrow> request_action list \<Rightarrow> bool" where
  "guarded P trace \<longleftrightarrow> (trace = [] \<or> \<not> needs_check (hd trace)) \<and> successively (\<lambda>e a. needs_check a \<longrightarrow> P e a) trace"

lemma guarded_simps [simp]: "guarded P []" "guarded P [e] = (\<not> needs_check e)"
  by (auto simp: guarded_def)

lemma guarded_hd: "guarded P as \<Longrightarrow> as = [] \<or> \<not> needs_check (hd as)"
  by (auto simp: guarded_def)

lemma guarded_append:
  assumes "guarded P as" "guarded P bs"
  shows "guarded P (as @ bs)"
  using assms unfolding guarded_def successively_append_iff by (cases as; cases bs) auto

lemma guarded_checked:
  assumes "\<not> needs_check e" "needs_check a \<longrightarrow> P e a" "guarded P as"
  shows "guarded P (e # a # as)"
  using assms by (cases as) (auto simp: guarded_def)

lemma guarded_nth:
  assumes "guarded P trace" "i < length trace" "needs_check (trace ! i)"
  shows "0 < i \<and> P (trace ! (i - 1)) (trace ! i)"
proof -
  have "i \<noteq> 0" using assms by (cases trace) (auto simp: guarded_def hd_conv_nth intro: ccontr)
  then show ?thesis using assms by (cases i) (auto simp: guarded_def successively_conv_nth)
qed

text \<open>
  Step 6 when the request goes on: one check, which allows every action whose path it was made for;
  handlers and nonces are as before.
\<close>

lemma authorization_ok:
  assumes "authorization env sv hi changing path = (True, checks, sv')" "callbacks_const env" "same_request conn (sv_conn sv)"
  shows "\<exists>e. checks = [e] \<and> \<not> needs_check e \<and> sv_handlers sv' = sv_handlers sv \<and> sv_nonces sv' = sv_nonces sv \<and>
    same_request conn (sv_conn sv') \<and>
    (\<forall>a. (action_path a = None \<or> action_path a = Some path) \<and> changes_file a = changing \<longrightarrow> allows env (sv_nonces sv) conn e a)"
proof (cases "get_request_handler AUTH_HANDLER (the (local_uri (request_info (sv_conn sv)))) (sv_handlers sv)")
  case (Pair h rhs)
  show ?thesis
  proof (cases h)
    case (Some rh)
    define h d where "h = the (auth_cb (cbs rh))" and "d = cbdata (cbs rh)"
    obtain i c where f: "auth_function env h d (sv_conn sv) = (i, c)" by fastforce
    have r: "i \<noteq> 0" "checks = [Checked_By_Handler True]" "sv' = sv\<lparr> sv_conn := c \<rparr>"
      using assms(1) Pair Some f by (auto simp: authorization_def Let_def h_def d_def split: if_splits)
    have "same_request conn c" using same_request_trans [OF assms(3) callbacks_constD(3) [OF assms(2) f]] .
    moreover have "\<exists>h d c. same_request conn c \<and> fst (auth_function env h d c) \<noteq> 0"
      using assms(3) f r(1) by (metis fst_conv)
    ultimately show ?thesis using r by simp
  next
    case None
    show ?thesis
    proof (cases changing)
      case True
      obtain ok c' where a: "is_authorized_for_put (files env) (Some (sv_conn sv)) (sv_nonces sv) = (ok, c')" by fastforce
      from is_authorized_for_put_same [OF a] show ?thesis using assms(1,3) a None Pair True same_request_trans
        by (auto simp: authorization_def Let_def split: if_splits)
    next
      case False
      obtain ok c' where a: "check_authorization (files env) (Some (sv_conn sv)) (sv_nonces sv) path = (ok, c')" by fastforce
      from check_authorization_same [OF a] show ?thesis using assms(1,3) a None Pair False same_request_trans
        by (auto simp: authorization_def Let_def split: if_splits)
    qed
  qed
qed

lemma authorization_stop:
  assumes "authorization env sv hi changing path = (False, checks, sv')"
  shows "guarded P checks \<and> (\<forall>a \<in> set checks. \<not> needs_check a) \<and> checks \<noteq> [] \<and>
    (sv_handlers sv' = sv_handlers sv \<or>
     last checks \<in> {Ask_Authorization, Checked_By_Handler False} \<and> sv_handlers sv' = release_info hi (sv_handlers sv))"
  using assms by (auto simp: authorization_def ask_authorization_def guarded_def Let_def split: prod.splits if_splits option.splits)

lemma authorization_stop_callback:
  "authorization env sv hi False path = (False, checks, sv') \<Longrightarrow> sv_handlers sv' = release_info hi (sv_handlers sv)"
  by (auto simp: authorization_def ask_authorization_def Let_def split: prod.splits if_splits option.splits)

section \<open>What is served\<close>

lemma static_file_acts:
  "static_file p st c = (acts, c') \<Longrightarrow> acts = [Not_Modified p st] \<or> acts = [Static_File p st]"
  by (auto simp: static_file_def split: if_splits)

lemma handle_file_based_request_acts:
  assumes "handle_file_based_request p st c = (acts, c')"
  shows "acts = [] \<or> (\<exists>a. acts = [a] \<and> needs_check a \<and> action_path a = Some p \<and> \<not> changes_file a)"
  using assms static_file_acts
  by (auto simp: handle_file_based_request_def split: if_splits option.splits dest!: static_file_acts)

lemma serve_file_acts:
  assumes "serve_file n r c = (acts, c')"
  shows "acts = [] \<or> (\<exists>a. acts = [a] \<and> (needs_check a \<longrightarrow> (action_path a = None \<or> action_path a = Some (filename r)) \<and>
    changes_file a = (is_put_or_delete_request r \<and> \<not> is_script_resource r)))"
proof -
  have s: "acts = [] \<or> (\<exists>a. acts = [a] \<and> needs_check a \<and> action_path a = Some (filename r) \<and> \<not> changes_file a)"
    if "handle_file_based_request (filename r) (filestat r) c = (acts, c') \<or> static_file (filename r) (filestat r) c = (acts, c')"
    using that by (elim disjE) (blast dest: handle_file_based_request_acts, auto dest!: static_file_acts)
  have p: "needs_check (put_or_delete_action m q) \<longrightarrow> action_path (put_or_delete_action m q) = Some q \<and> changes_file (put_or_delete_action m q)"
    for m q by (simp add: put_or_delete_action_def)
  show ?thesis using assms s p unfolding serve_file_def Let_def by (auto split: if_splits)
qed

section \<open>A request as a whole\<close>

text \<open>The connection with the cleaned URI: the request that handlers and files are looked up for.\<close>

definition request_conn :: "request_env \<Rightarrow> server_state \<Rightarrow> mg_connection" where
  "request_conn env sv = prepare_request env (split_query ((sv_conn sv)\<lparr> request_state := 0 \<rparr>))"

text \<open>The action serves the file that the interpretation of the URI gave.\<close>

definition served_from :: "request_env \<Rightarrow> mg_connection \<Rightarrow> nat \<Rightarrow> request_action \<Rightarrow> bool" where
  "served_from env conn n a \<longleftrightarrow>
     (\<exists>c r c1 c2. same_request conn c \<and> interpret_uri (stat_file env) c = (r, c1) \<and> same_request conn c2 \<and> a \<in> set (fst (serve_file n r c2)))"

text \<open>The end of a request whose handler reference is released once more.\<close>

definition released_again :: "request_action list \<Rightarrow> bool" where
  "released_again trace \<longleftrightarrow> (\<exists>h d. Call_Handler h d \<in> set trace) \<and> last trace \<in> {Ask_Authorization, Checked_By_Handler False}"

lemma file_resource_cases:
  assumes "file_resource env sv hi n = (acts, sv')" "callbacks_const env" "same_request conn (sv_conn sv)"
  shows "guarded (allows env (sv_nonces sv) conn) acts" (is ?g)
    and "sv_handlers sv' = sv_handlers sv \<or>
      acts \<noteq> [] \<and> last acts \<in> {Ask_Authorization, Checked_By_Handler False} \<and> sv_handlers sv' = release_info hi (sv_handlers sv)" (is ?h)
    and "\<forall>a \<in> set acts. needs_check a \<longrightarrow> served_from env conn n a" (is ?s)
proof -
  obtain r c1 where i: "interpret_uri (stat_file env) (sv_conn sv) = (r, c1)" by fastforce
  have c1: "same_request conn c1" using interpret_uri_same [OF i] assms(3) same_request_trans by blast
  define sv1 where "sv1 = sv\<lparr> sv_conn := c1 \<rparr>"
  define changing where "changing = (is_put_or_delete_request r \<and> \<not> is_script_resource r)"
  have "?g \<and> ?h \<and> ?s"
  proof (cases "is_webdav_request r \<and> hd0 (the (conf c1 ENABLE_WEBDAV)) \<noteq> CHR ''y''")
    case True
    then have "acts = [Http_Error 405]" "sv' = sv1" using assms(1) i by (simp_all add: file_resource_def Let_def sv1_def)
    then show ?thesis by (simp add: sv1_def)
  next
    case False
    obtain ok checks sv2 where a: "authorization env sv1 hi changing (filename r) = (ok, checks, sv2)" by (metis prod_cases3)
    show ?thesis
    proof (cases ok)
      case no: False
      have "acts = checks" "sv' = sv2" using assms(1) i False a no
        unfolding file_resource_def Let_def sv1_def changing_def by (simp_all split: if_splits)
      then show ?thesis using authorization_stop [of env sv1 hi changing "filename r" checks sv2] a no by (auto simp: sv1_def)
    next
      case True
      obtain as c' where s: "serve_file n r (sv_conn sv2) = (as, c')" by fastforce
      have e: "acts = checks @ as" "sv' = sv2\<lparr> sv_conn := c' \<rparr>" using assms(1) i False a True s
        unfolding file_resource_def Let_def sv1_def changing_def by (simp_all split: if_splits)
      have "same_request conn (sv_conn sv1)" using c1 by (simp add: sv1_def)
      from authorization_ok [OF a [unfolded eqTrueI [OF True]] assms(2) this] obtain ev where ev: "checks = [ev]" "\<not> needs_check ev"
        "sv_handlers sv2 = sv_handlers sv" "same_request conn (sv_conn sv2)"
        "\<forall>a. (action_path a = None \<or> action_path a = Some (filename r)) \<and> changes_file a = changing \<longrightarrow> allows env (sv_nonces sv) conn ev a"
        by (auto simp: sv1_def)
      have "as = [] \<or> (\<exists>b. as = [b] \<and> (needs_check b \<longrightarrow> allows env (sv_nonces sv) conn ev b))"
        using serve_file_acts [OF s] ev(5) unfolding changing_def by blast
      then have "guarded (allows env (sv_nonces sv) conn) acts"
        using ev(1,2) e(1) guarded_checked [of ev _ _ "[]"] by auto
      moreover have "\<forall>a \<in> set acts. needs_check a \<longrightarrow> served_from env conn n a"
      proof (intro ballI impI)
        fix b
        assume b: "b \<in> set acts" "needs_check b"
        then have "b \<in> set (fst (serve_file n r (sv_conn sv2)))" using e(1) ev(1,2) s by auto
        then show "served_from env conn n b" unfolding served_from_def using i assms(3) ev(4) by blast
      qed
      ultimately show ?thesis using e(2) ev(3) by simp
    qed
  qed
  then show ?g ?h ?s by blast+
qed

lemma release_acquired: "get_request_handler REQUEST_HANDLER u rhs = (Some rh, rhs') \<Longrightarrow> release_handler_ref (addr rh) rhs' = rhs"
proof -
  have "update_entry (addr rh) (\<lambda>r. r\<lparr> refcount := refcount r - 1 \<rparr>) (update_entry (addr rh) (\<lambda>r. r\<lparr> refcount := refcount r + 1 \<rparr>) rhs) = rhs"
    for rh by (induction rhs) (auto simp: update_entry_def)
  then show "get_request_handler REQUEST_HANDLER u rhs = (Some rh, rhs') \<Longrightarrow> ?thesis"
    by (auto simp: get_request_handler_def release_handler_ref_def split: option.splits if_splits)
qed

lemma callback_resource_cases:
  assumes "callback_resource env sv rh hi ws n = (acts, sv')" "callbacks_const env" "same_request conn (sv_conn sv)"
    and "release_info hi (sv_handlers sv) = rhs" "ws \<Longrightarrow> hi = None"
  shows "guarded (allows env (sv_nonces sv) conn) acts" (is ?g)
    and "sv_handlers sv' = rhs \<or> released_again acts" (is ?h)
    and "\<forall>a \<in> set acts. needs_check a \<longrightarrow> (\<exists>h d. a = Call_Handler h d) \<or> a = Websocket_Handler (cbs rh) \<or> served_from env conn n a" (is ?s)
proof -
  obtain ok checks sv1 where a: "authorization env sv hi False [] = (ok, checks, sv1)" by (metis prod_cases3)
  have "?g \<and> ?h \<and> ?s"
  proof (cases ok)
    case False
    then have "acts = checks" "sv' = sv1" using assms(1) a by (simp_all add: callback_resource_def)
    then show ?thesis
      using authorization_stop [of env sv hi False "[]" checks sv1] authorization_stop_callback [of env sv hi "[]" checks sv1]
        a False assms(4) by auto
  next
    case True
    from authorization_ok [OF a [unfolded eqTrueI [OF True]] assms(2,3)] obtain ev where ev: "checks = [ev]" "\<not> needs_check ev"
      "sv_handlers sv1 = sv_handlers sv" "sv_nonces sv1 = sv_nonces sv" "same_request conn (sv_conn sv1)"
      "\<And>a. action_path a = None \<Longrightarrow> \<not> changes_file a \<Longrightarrow> allows env (sv_nonces sv) conn ev a"
      by auto
    show ?thesis
    proof (cases ws)
      case True
      then have "acts = [ev, Websocket_Handler (cbs rh)]" "sv' = sv1" using assms(1) a \<open>ok\<close> ev(1)
        by (simp_all add: callback_resource_def)
      then show ?thesis using ev guarded_checked [of ev _ _ "[]"] assms(4,5) True by (simp add: release_info_def)
    next
      case False
      define h where "h = the (request_cb (cbs rh))"
      define d where "d = cbdata (cbs rh)"
      obtain i c where f: "request_function env h d (sv_conn sv1) = (i, c)" by fastforce
      have c: "same_request conn c" using callbacks_constD(2) [OF assms(2) f] ev(5) same_request_trans by blast
      define sv2 where "sv2 = sv1\<lparr> sv_conn := c, sv_handlers := rhs \<rparr>"
      have call: "allows env (sv_nonces sv) conn ev (Call_Handler h d)" using ev(6) by simp
      note step = assms(1) [unfolded callback_resource_def a prod.case, folded h_def d_def, unfolded f prod.case ev(3) assms(4) Let_def,
          folded sv2_def]
      show ?thesis
      proof (cases "i > 0")
        case True
        then have "acts = [ev, Call_Handler h d]" "sv_handlers sv' = rhs" using step \<open>ok\<close> False ev(1) by (auto simp: sv2_def)
        then show ?thesis using ev(2) call guarded_checked [of ev _ _ "[]"] by simp
      next
        case no: False
        obtain as sv3 where fr: "file_resource env sv2 hi n = (as, sv3)" by fastforce
        have e: "acts = ev # Call_Handler h d # as" "sv' = sv3" using step \<open>ok\<close> False no ev(1) fr by auto
        have "same_request conn (sv_conn sv2)" using c by (simp add: sv2_def)
        note fc = file_resource_cases [OF fr assms(2) this]
        have "guarded (allows env (sv_nonces sv) conn) as" using fc(1) ev(4) by (simp add: sv2_def)
        then have "?g" using guarded_checked ev(2) call e(1) by blast
        moreover have "?h" using fc(2) e by (auto simp: sv2_def released_again_def)
        moreover have "?s" using fc(3) e(1) ev(2) by auto
        ultimately show ?thesis by blast
      qed
    qed
  qed
  then show ?g ?h ?s by blast+
qed

lemma route_request_cases:
  assumes "route_request env sv n = (acts, sv')" "callbacks_const env" "same_request conn (sv_conn sv)"
  shows "guarded (allows env (sv_nonces sv) conn) acts" (is ?g)
    and "sv_handlers sv' = sv_handlers sv \<or> released_again acts" (is ?h)
    and "\<forall>a \<in> set acts. needs_check a \<longrightarrow> (\<exists>h d. a = Call_Handler h d) \<or> (\<exists>c. a = Websocket_Handler c) \<or> served_from env conn n a" (is ?s)
proof -
  define ws where "ws = (protocol_type (sv_conn sv) = PROTOCOL_TYPE_WEBSOCKET)"
  define ty where "ty = (if ws then WEBSOCKET_HANDLER else REQUEST_HANDLER)"
  obtain h rhs where g: "get_request_handler ty (the (local_uri (request_info (sv_conn sv)))) (sv_handlers sv) = (h, rhs)" by fastforce
  note step = assms(1) [unfolded route_request_def Let_def, folded ws_def, folded ty_def, unfolded g prod.case]
  have "?g \<and> ?h \<and> ?s"
  proof (cases h)
    case None
    then have "file_resource env sv None n = (acts, sv')" using step by simp
    from file_resource_cases [OF this assms(2,3)] show ?thesis by (auto simp: release_info_def)
  next
    case (Some rh)
    define hi where "hi = (if ws then None else Some (addr rh))"
    have c: "callback_resource env (sv\<lparr> sv_handlers := rhs \<rparr>) rh hi ws n = (acts, sv')" using step Some by (simp add: hi_def)
    have r: "release_info hi rhs = sv_handlers sv"
    proof (cases ws)
      case True
      then show ?thesis using g Some
        by (auto simp: hi_def ty_def release_info_def get_request_handler_def split: option.splits)
    next
      case False
      then show ?thesis using release_acquired g Some by (simp add: hi_def ty_def release_info_def)
    qed
    have "same_request conn (sv_conn (sv\<lparr> sv_handlers := rhs \<rparr>))" using assms(3) by simp
    note cc = callback_resource_cases [OF c assms(2) this]
    have "?g" using cc(1) r by (simp add: hi_def)
    moreover have "?h" using cc(2) r by (simp add: hi_def)
    moreover have "?s" using cc(3) r by (simp add: hi_def) blast
    ultimately show ?thesis by blast
  qed
  then show ?g ?h ?s by blast+
qed

lemma handle_request_cases:
  assumes "handle_request env sv = (acts, sv')" "callbacks_const env"
  defines "conn \<equiv> request_conn env sv"
  defines "n \<equiv> length (the (local_uri (request_info conn)))"
  shows "guarded (allows env (sv_nonces sv) conn) acts" (is ?g)
    and "sv_handlers sv' = sv_handlers sv \<or> released_again acts" (is ?h)
    and "\<forall>a \<in> set acts. needs_check a \<longrightarrow> (\<exists>h d. a = Call_Handler h d) \<or> (\<exists>c. a = Websocket_Handler c) \<or> served_from env conn n a" (is ?s)
proof -
  note step = assms(1) [unfolded handle_request_def Let_def, folded request_conn_def, folded conn_def, folded n_def]
  have p: "guarded (allows env (sv_nonces sv) conn) as \<and> (sv_handlers s' = sv_handlers sv \<or> released_again as) \<and>
      (\<forall>a \<in> set as. needs_check a \<longrightarrow> (\<exists>h d. a = Call_Handler h d) \<or> (\<exists>c. a = Websocket_Handler c) \<or> served_from env conn n a)"
    if "preflight_or_route env (sv\<lparr> sv_conn := c \<rparr>) n = (as, s')" "same_request conn c" for c as s'
  proof (cases "preflight_applies c")
    case True
    then have "as = [Cors_Preflight]" "sv_handlers s' = sv_handlers sv" using that(1) by (auto simp: preflight_or_route_def)
    then show ?thesis by simp
  next
    case False
    then have "route_request env (sv\<lparr> sv_conn := c \<rparr>) n = (as, s')" using that(1) by (simp add: preflight_or_route_def)
    from route_request_cases [OF this assms(2)] that(2) show ?thesis by simp
  qed
  have "?g \<and> ?h \<and> ?s"
  proof (cases "\<not> is_ssl (request_info (split_query ((sv_conn sv)\<lparr> request_state := 0 \<rparr>))) \<and> ssl_redir env")
    case True
    then show ?thesis using step by (auto split: if_splits)
  next
    case nossl: False
    show ?thesis
    proof (cases "begin_request env")
      case None
      then have "preflight_or_route env (sv\<lparr> sv_conn := conn \<rparr>) n = (acts, sv')" using step nossl by (simp split: if_splits)
      from p [OF this] show ?thesis by simp
    next
      case (Some f)
      obtain i c where f: "f conn = (i, c)" by fastforce
      note step' = step [unfolded Some option.case f prod.case]
      show ?thesis
      proof (cases "i = 0")
        case True
        obtain as s' where r: "preflight_or_route env (sv\<lparr> sv_conn := c \<rparr>) n = (as, s')" by fastforce
        have "acts = Begin_Request # as" "sv' = s'" using step' nossl True r by (auto split: if_splits)
        moreover note p [OF r callbacks_constD(1) [OF assms(2) Some f]]
        ultimately show ?thesis using guarded_append [of "allows env (sv_nonces sv) conn" "[Begin_Request]" as]
          by (auto simp: released_again_def)
      next
        case False
        then show ?thesis using step' nossl by (auto split: if_splits)
      qed
    qed
  qed
  then show ?g ?h ?s by blast+
qed

end
