(* ===== verification/Served_Files.thy ===== *)
theory Served_Files
  imports Request_Checks
begin

text \<open>
  Where the files of a request lie: segments of a path, the cleaned URI as an absolute path that does
  not leave its root, and the path \<open>interpret_uri\<close> finds when no scripts are configured.
\<close>

section \<open>Segments of a path\<close>

fun split_slash :: "string \<Rightarrow> string list" where
  "split_slash [] = [[]]"
| "split_slash (c # s) = (if c = CHR ''/'' then [] # split_slash s else (c # hd (split_slash s)) # tl (split_slash s))"

text \<open>The path has no segment that leads to a parent directory.\<close>

definition stays_inside :: "string \<Rightarrow> bool" where
  "stays_inside v \<longleftrightarrow> ''..'' \<notin> set (split_slash v)"

lemma split_slash_nonempty [simp]: "split_slash s \<noteq> []"
  by (cases s) auto

lemma split_slash_append: "split_slash (a @ CHR ''/'' # b) = split_slash a @ split_slash b"
  by (induction a) auto

lemma stays_inside_append: "stays_inside (a @ CHR ''/'' # b) \<longleftrightarrow> stays_inside a \<and> stays_inside b"
  by (auto simp: stays_inside_def split_slash_append)

lemma stays_inside_slashes: "stays_inside (replicate k (CHR ''/'') @ v) = stays_inside v"
  by (induction k) (simp_all add: stays_inside_def)

lemma split_slash_segment:
  "seg \<in> set (split_slash s) \<Longrightarrow> \<exists>p q. s = p @ seg @ q \<and> (p = [] \<or> last p = CHR ''/'') \<and> (q = [] \<or> hd q = CHR ''/'')"
proof (induction s arbitrary: seg)
  case (Cons c s)
  show ?case
  proof (cases "c = CHR ''/''")
    case True
    show ?thesis
    proof (cases "seg = []")
      case True
      then show ?thesis using \<open>c = CHR ''/''\<close> by - (rule exI [of _ "[]"], rule exI [of _ "c # s"], auto)
    next
      case False
      then have "seg \<in> set (split_slash s)" using Cons.prems True by simp
      from Cons.IH [OF this] obtain p q where "s = p @ seg @ q" "p = [] \<or> last p = CHR ''/''" "q = [] \<or> hd q = CHR ''/''" by blast
      then show ?thesis using True by - (rule exI [of _ "c # p"], rule exI [of _ q], auto)
    qed
  next
    case False
    define x where "x = hd (split_slash s)"
    define xs where "xs = tl (split_slash s)"
    have sp: "split_slash s = x # xs" by (simp add: x_def xs_def)
    have first: "\<exists>q. s = hd (split_slash s) @ q \<and> (q = [] \<or> hd q = CHR ''/'')" for s
      by (induction s) auto
    consider "seg = c # x" | "seg \<in> set xs" using Cons.prems False sp by auto
    then show ?thesis
    proof cases
      case 1
      obtain q where "s = x @ q" "q = [] \<or> hd q = CHR ''/''" using first [of s] x_def by blast
      then show ?thesis using 1 by - (rule exI [of _ "[]"], rule exI [of _ q], auto)
    next
      case 2
      have later: "\<exists>p q. s = p @ y @ q \<and> p \<noteq> [] \<and> last p = CHR ''/'' \<and> (q = [] \<or> hd q = CHR ''/'')"
        if "y \<in> set (tl (split_slash s))" for s y
        using that
      proof (induction s)
        case (Cons d s)
        show ?case
        proof (cases "d = CHR ''/''")
          case True
          then have y: "y \<in> set (split_slash s)" using Cons.prems by simp
          show ?thesis
          proof (cases "y = hd (split_slash s)")
            case t: True
            obtain q where "s = y @ q" "q = [] \<or> hd q = CHR ''/''" using first [of s] t by blast
            then show ?thesis using True by - (rule exI [of _ "[d]"], rule exI [of _ q], auto)
          next
            case False
            have "y \<in> set (tl (split_slash s))" using y False by (cases "split_slash s") auto
            from Cons.IH [OF this] obtain p q where "s = p @ y @ q" "p \<noteq> []" "last p = CHR ''/''" "q = [] \<or> hd q = CHR ''/''" by blast
            then show ?thesis by - (rule exI [of _ "d # p"], rule exI [of _ q], auto)
          qed
        next
          case False
          then have "y \<in> set (tl (split_slash s))" using Cons.prems by simp
          from Cons.IH [OF this] obtain p q where "s = p @ y @ q" "p \<noteq> []" "last p = CHR ''/''" "q = [] \<or> hd q = CHR ''/''" by blast
          then show ?thesis by - (rule exI [of _ "d # p"], rule exI [of _ q], auto)
        qed
      qed simp
      have "seg \<in> set (tl (split_slash s))" using 2 by (simp add: xs_def)
      from later [OF this] obtain p q where "s = p @ seg @ q" "p \<noteq> []" "last p = CHR ''/''" "q = [] \<or> hd q = CHR ''/''" by blast
      then show ?thesis by - (rule exI [of _ "c # p"], rule exI [of _ q], auto)
    qed
  qed
qed simp

lemma clean_uri_inside: "stays_inside (remove_dot_segments s)"
proof -
  have "seg \<noteq> ''..''" if g: "seg \<in> set (split_slash (remove_dot_segments s))" for seg
  proof -
    obtain p q where "remove_dot_segments s = p @ seg @ q" "q = [] \<or> hd q = CHR ''/''"
      using split_slash_segment [OF g] by blast
    then have "seg = [] \<or> last seg \<noteq> CHR ''.''"
      using clean_segment [of p seg q] remove_dot_segments_clean [of s] by simp
    then show ?thesis by auto
  qed
  then show ?thesis by (auto simp: stays_inside_def)
qed

lemma strip_slashes_split: obtains k where "s = strip_slashes s @ replicate k (CHR ''/'')"
proof -
  have "rev s = takeWhile ((=) (CHR ''/'')) (rev s) @ dropWhile ((=) (CHR ''/'')) (rev s)" by simp
  moreover have "takeWhile ((=) (CHR ''/'')) (rev s) = replicate (length (takeWhile ((=) (CHR ''/'')) (rev s))) (CHR ''/'')"
    by (rule replicate_eqI) (auto dest: set_takeWhileD)
  ultimately have "rev s = replicate (length (takeWhile ((=) (CHR ''/'')) (rev s))) (CHR ''/'') @ dropWhile ((=) (CHR ''/'')) (rev s)"
    by metis
  then have "rev (rev s) = strip_slashes s @ replicate (length (takeWhile ((=) (CHR ''/'')) (rev s))) (CHR ''/'')"
    unfolding strip_slashes_def by (metis rev_append rev_replicate)
  then show ?thesis using that by simp
qed

lemma stays_inside_strip:
  assumes "stays_inside v"
  shows "stays_inside (strip_slashes v)"
proof -
  obtain k where k: "v = strip_slashes v @ replicate k (CHR ''/'')" by (rule strip_slashes_split)
  show ?thesis
  proof (cases k)
    case 0
    then show ?thesis using k assms by simp
  next
    case (Suc n)
    then have "v = strip_slashes v @ CHR ''/'' # replicate n (CHR ''/'')" using k by simp
    then show ?thesis using assms stays_inside_append by metis
  qed
qed

section \<open>An absolute path stays absolute\<close>

lemma last_pop_segment: "pop_segment out \<noteq> [] \<Longrightarrow> last (pop_segment out) = last out"
  by (induction out) (auto split: if_splits)

lemma dot_pass_absolute:
  "s \<noteq> [] \<Longrightarrow> hd s = CHR ''/'' \<Longrightarrow> out = [] \<or> last out = CHR ''/'' \<Longrightarrow> dot_pass s out \<noteq> [] \<and> last (dot_pass s out) = CHR ''/''"
proof (induction "length s" arbitrary: s out rule: less_induct)
  case less
  note p = less.prems
  have n: "take 3 s \<noteq> ''../''" "take 2 s \<noteq> ''./''" "s \<noteq> ''.''" "s \<noteq> ''..''" using p(1,2) by (cases s; auto)+
  have pop: "pop_segment out = [] \<or> last (pop_segment out) = CHR ''/''"
    using p(3) last_pop_segment [of out] by (cases "out = []") auto
  have ih: "dot_pass t out' \<noteq> [] \<and> last (dot_pass t out') = CHR ''/''"
    if "length t < length s" "t \<noteq> []" "hd t = CHR ''/''" "out' = [] \<or> last out' = CHR ''/''" for t out'
    using less.hyps that by blast
  consider (cur) r where "s = ''/./'' @ r" | (cur_end) "s = ''/.''" | (up) r where "s = ''/../'' @ r" | (up_end) "s = ''/..''"
    | (seg) "take 3 s \<noteq> ''/./''" "s \<noteq> ''/.''" "take 4 s \<noteq> ''/../''" "s \<noteq> ''/..''"
    by (metis append_take_drop_id)
  then show ?case
  proof cases
    case cur
    then have "dot_pass s out = dot_pass (CHR ''/'' # r) out" by (subst dot_pass.simps) simp
    then show ?thesis using ih [of "CHR ''/'' # r" out] p(3) cur by simp
  next
    case cur_end
    then have "dot_pass s out = dot_pass ''/'' out" by (subst dot_pass.simps) simp
    then show ?thesis using ih [of "''/''" out] p(3) cur_end by simp
  next
    case up
    then have "dot_pass s out = dot_pass (CHR ''/'' # r) (pop_segment out)" by (subst dot_pass.simps) simp
    then show ?thesis using ih [of "CHR ''/'' # r" "pop_segment out"] pop up by simp
  next
    case up_end
    then have "dot_pass s out = dot_pass ''/'' (pop_segment out)" by (subst dot_pass.simps) simp
    then show ?thesis using ih [of "''/''" "pop_segment out"] pop up_end by simp
  next
    case seg
    define k where "k = strcspn (tl s) ''/''"
    define out' where "out' = rev (take (Suc k) s) @ out"
    have step: "dot_pass s out = dot_pass (drop (Suc k) s) out'"
      using seg n p(1) by (subst dot_pass.simps) (simp add: segment_length_def k_def out'_def)
    have "take (Suc k) s = CHR ''/'' # take k (tl s)" using p(1,2) by (cases s) auto
    then have out': "out' \<noteq> []" "last out' = CHR ''/''" using p(3) by (auto simp: out'_def)
    have rest: "drop (Suc k) s = dropWhile (\<lambda>c. c \<noteq> CHR ''/'') (tl s)"
      by (simp add: k_def strcspn_def drop_Suc dropWhile_eq_drop)
    show ?thesis
    proof (cases "drop (Suc k) s = []")
      case True
      then show ?thesis using step out' by (simp add: dot_pass.simps [of "[]"])
    next
      case False
      then have "hd (drop (Suc k) s) = CHR ''/''" unfolding rest using hd_dropWhile [of "\<lambda>c. c \<noteq> CHR ''/''" "tl s"] by simp
      then show ?thesis using ih [OF _ False, of out'] out' step p(1) by simp
    qed
  qed
qed

lemma end_pass_absolute:
  "out \<noteq> [] \<and> last out = CHR ''/'' \<or> out = [] \<and> s \<noteq> [] \<and> hd s = CHR ''/'' \<Longrightarrow>
     end_pass s out \<noteq> [] \<and> last (end_pass s out) = CHR ''/''"
proof (induction s out rule: end_pass.induct)
  case (2 c s out)
  define ahead where "ahead = skip_run (CHR ''.'') s"
  show ?case
  proof (cases "c = CHR ''.''")
    case True
    then have out: "out \<noteq> []" "last out = CHR ''/''" using "2.prems" by auto
    show ?thesis
    proof (cases "hd0 ahead = CHR ''/''")
      case h: True
      define out' where "out' = (if out \<noteq> [] \<and> hd out = CHR ''/'' then tl out else out)"
      have "end_pass (c # s) out = end_pass ahead out'" using True h by (simp add: end_pass.simps(2) ahead_def out'_def)
      moreover have "ahead \<noteq> [] \<and> hd ahead = CHR ''/''" using h by (cases ahead) (auto simp: hd0_def)
      moreover have "out' = [] \<or> last out' = CHR ''/''" using out by (cases out) (auto simp: out'_def split: if_splits)
      ultimately show ?thesis using "2.IH"(1) [OF True ahead_def h] by (auto simp: out'_def)
    next
      case h: False
      show ?thesis
      proof (cases "ahead = []")
        case e: True
        then show ?thesis using True out by (simp add: end_pass.simps(2) ahead_def [symmetric] Let_def hd0_def)
      next
        case e: False
        have "end_pass (c # s) out = end_pass ahead (replicate (Suc (length s) - length ahead) (CHR ''.'') @ out)"
          using True h e by (simp add: end_pass.simps(2) ahead_def [symmetric] Let_def)
        then show ?thesis using "2.IH"(3) [OF True ahead_def h e] out by simp
      qed
    qed
  next
    case nd: False
    show ?thesis
    proof (cases "c = CHR ''/''")
      case True
      then show ?thesis using "2.IH"(4) [OF nd True] "2.prems" by (auto simp: end_pass.simps(2))
    next
      case False
      then show ?thesis using "2.IH"(5) [OF nd False] "2.prems" nd by (auto simp: end_pass.simps(2))
    qed
  qed
qed simp

lemma remove_dot_segments_absolute:
  assumes "hd0 s = CHR ''/''"
  shows "remove_dot_segments s \<noteq> [] \<and> hd (remove_dot_segments s) = CHR ''/''"
proof -
  define s' where "s' = map (\<lambda>c. if c = BACKSLASH then CHR ''/'' else c) s"
  have "s' \<noteq> []" "hd s' = CHR ''/''" using assms by (cases s; simp add: s'_def hd0_def)+
  then have d: "dot_pass s' [] \<noteq> []" "last (dot_pass s' []) = CHR ''/''" using dot_pass_absolute [of s' "[]"] by auto
  then have "end_pass (rev (dot_pass s' [])) [] \<noteq> [] \<and> last (end_pass (rev (dot_pass s' [])) []) = CHR ''/''"
    using end_pass_absolute [of "[]" "rev (dot_pass s' [])"] by (simp add: hd_rev)
  then show ?thesis unfolding remove_dot_segments_def Let_def s'_def [symmetric] by (simp add: hd_rev)
qed

section \<open>The file of a request without scripts\<close>

lemma index_loop_found:
  "index_loop stat dir n list tried st = (Some p, tried', st') \<Longrightarrow> \<exists>name \<in> set (option_values list). p = dir @ CHR ''/'' # name"
proof (induction stat dir n list tried st rule: index_loop.induct)
  case (1 stat dir n list tried st)
  show ?case
  proof (cases "next_value list")
    case None
    then show ?thesis using "1.prems" by (subst (asm) index_loop.simps) simp
  next
    case (Some nr)
    obtain name rest where nr: "nr = (name, rest)" by (cases nr)
    have v: "option_values list = name # option_values rest" using Some nr by (subst option_values.simps) simp
    show ?thesis
    proof (cases "length name + 1 > n - (length dir + 1)")
      case True
      then show ?thesis using "1.IH"(1) [OF Some nr [symmetric] True] "1.prems" Some nr v by (subst (asm) index_loop.simps) simp
    next
      case False
      obtain ok st1 where m: "mg_stat stat (dir @ CHR ''/'' # name) = (ok, st1)" by fastforce
      show ?thesis
      proof (cases ok)
        case True
        then show ?thesis using "1.prems" Some nr v m False by (subst (asm) index_loop.simps) auto
      next
        case no: False
        then have "index_loop stat dir n rest name st1 = (Some p, tried', st')"
          using "1.prems" Some nr m False by (subst (asm) index_loop.simps) simp
        then show ?thesis using "1.IH"(2) [OF Some nr [symmetric] False m [symmetric]] no v by auto
      qed
    qed
  qed
qed

text \<open>The names of the index files.\<close>

definition index_names :: "mg_connection \<Rightarrow> string list" where
  "index_names conn = (case conf conn INDEX_FILES of None \<Rightarrow> [] | Some l \<Rightarrow> option_values l)"

lemma substitute_index_file_found:
  assumes "substitute_index_file stat conn path n st = (Some p, tried, st')" "conf conn FALLBACK_DOCUMENT_ROOT = None"
  shows "\<exists>name \<in> set (index_names conn). p = strip_slashes path @ CHR ''/'' # name"
proof -
  have "fallback_path conn q = None" for q using assms(2) by (simp add: fallback_path_def split: option.splits)
  then have f: "fallback_path conn (strip_slashes path) = None" .
  obtain idx t1 st1 where a: "substitute_index_file_aux stat conn path n st = (idx, t1, st1)" by (metis prod_cases3)
  have "idx = Some p" using assms(1) a f by (cases idx) (simp_all add: substitute_index_file_def)
  then obtain l where "conf conn INDEX_FILES = Some l" "index_loop stat (strip_slashes path) n l [] st = (Some p, t1, st1)"
    using a by (auto simp: substitute_index_file_aux_def split: option.splits)
  then show ?thesis using index_loop_found by (simp add: index_names_def)
qed

lemma no_scripts: "conf conn CGI_EXTENSIONS = None \<Longrightarrow> conf conn CGI2_EXTENSIONS = None \<Longrightarrow> \<not> extention_matches_script conn f"
  by (simp add: extention_matches_script_def)

lemma script_subresource_none:
  "(\<And>f. \<not> extention_matches_script conn f) \<Longrightarrow> \<not> is_script_resource r \<Longrightarrow>
     \<not> is_script_resource (script_subresource stat conn l n buf r) \<and>
     (is_found (script_subresource stat conn l n buf r) \<longrightarrow> is_found r \<and> filename (script_subresource stat conn l n buf r) = filename r)"
proof (induction n arbitrary: buf r)
  case (Suc n)
  have ih: "\<not> is_script_resource (script_subresource stat conn l n b q) \<and>
      (is_found (script_subresource stat conn l n b q) \<longrightarrow> is_found q \<and> filename (script_subresource stat conn l n b q) = filename q)"
    if "\<not> is_script_resource q" for b q
    using Suc.IH [OF Suc.prems(1) that] .
  have st: "\<not> is_script_resource (r\<lparr> filestat := st \<rparr>)" "is_found (r\<lparr> filestat := st \<rparr>) = is_found r"
      "filename (r\<lparr> filestat := st \<rparr>) = filename r" for st
    using Suc.prems(2) by simp_all
  define prefix where "prefix = cstr (take n buf)"
  obtain does_exist st1 where m: "(if prefix \<noteq> [] then mg_stat stat prefix else (False, filestat r)) = (does_exist, st1)" by fastforce
  note step = script_subresource.simps(2) [of stat conn l n buf r, unfolded Let_def, folded prefix_def, unfolded m prod.case]
  show ?case
  proof (cases "buf ! n \<noteq> CHR ''/''")
    case True
    then show ?thesis using ih [OF Suc.prems(2)] by simp
  next
    case False
    then have step': "script_subresource stat conn l (Suc n) buf r =
        (if conf_is conn ALLOW_INDEX_SCRIPT_SUB_RES ''yes''
         then case substitute_index_file stat conn prefix (l + PATH_MAX) st1 of
                (Some index, _, st2) \<Rightarrow> r\<lparr> filename := take n (filename r), path_info := None,
                      filestat := st2, is_script_resource := False, is_found := False \<rparr>
              | (None, tried, st2) \<Rightarrow> script_subresource stat conn l n
                      ((after_failure (strip_slashes prefix) tried buf) [n := CHR ''/'']) (r\<lparr> filestat := st2 \<rparr>)
         else script_subresource stat conn l n buf (r\<lparr> filestat := st1 \<rparr>))"
      unfolding step using Suc.prems(1) by (simp split: prod.split option.split)
    show ?thesis
    proof (cases "conf_is conn ALLOW_INDEX_SCRIPT_SUB_RES ''yes''")
      case yes: True
      obtain idx tried st2 where sub: "substitute_index_file stat conn prefix (l + PATH_MAX) st1 = (idx, tried, st2)" by (metis prod_cases3)
      show ?thesis
      proof (cases idx)
        case None
        then show ?thesis using step' yes sub ih [OF st(1)] by simp
      next
        case (Some p)
        then show ?thesis using step' yes sub by simp
      qed
    next
      case False
      then show ?thesis using step' ih [OF st(1)] by simp
    qed
  qed
qed simp

text \<open>
  Without rewriting, scripts and fallback root, the file found is the root with the URI, or that
  without slashes at its end, or an index file there.
\<close>

definition candidate_file :: "mg_connection \<Rightarrow> string \<Rightarrow> string \<Rightarrow> bool" where
  "candidate_file conn f p \<longleftrightarrow> p = f \<or> p = strip_slashes f \<or> (\<exists>name \<in> set (index_names conn). p = strip_slashes f @ CHR ''/'' # name)"

lemma interpret_uri_found:
  assumes "interpret_uri stat conn = (r, c)" "is_found r" "\<And>f. \<not> extention_matches_script conn f"
    and "protocol_type conn \<noteq> PROTOCOL_TYPE_WEBSOCKET" "conf conn FALLBACK_DOCUMENT_ROOT = None" "conf conn URL_REWRITE_PATTERN = None"
  shows "\<not> is_script_resource r \<and>
    (\<exists>root. conf conn DOCUMENT_ROOT = Some root \<and> candidate_file conn (root @ the (local_uri (request_info conn))) (filename r))"
proof -
  define dc where "dc = decide_gzip conn"
  define uri where "uri = the (local_uri (request_info conn))"
  have dc: "conf dc = conf conn" "request_info dc = request_info conn" "protocol_type dc = protocol_type conn"
    "extention_matches_script dc = extention_matches_script conn" "index_names dc = index_names conn"
    by (simp_all add: dc_def decide_gzip_def conf_def [abs_def] extention_matches_script_def [abs_def] index_names_def)
  note ns = assms(3) [folded dc(4)]
  have r0: "\<not> is_script_resource (initial_result conn)" "\<not> is_found (initial_result conn)" by (simp_all add: initial_result_def)
  show ?thesis
  proof (cases "conf conn DOCUMENT_ROOT")
    case None
    then have "uri_roots dc = []" using assms(4) dc by (simp add: uri_roots_def)
    then have "r = initial_result conn" using assms(1) by (simp add: interpret_uri_def Let_def dc_def)
    then show ?thesis using assms(2) r0 by simp
  next
    case (Some root)
    define f where "f = root @ uri"
    have roots: "uri_roots dc = [root]" using assms(4,5) Some dc by (simp add: uri_roots_def)
    have uri': "the (local_uri (request_info dc)) = uri" using dc(2) by (simp add: uri_def)
    have rw: "rewrite_uri uri None = None" by (subst rewrite_uri.simps) (simp add: next_option_def)
    have tr: "try_roots stat dc uri [root] [] no_stat = Truncated \<or> (\<exists>st. try_roots stat dc uri [root] [] no_stat = Exists f st) \<or>
        (\<exists>st. try_roots stat dc uri [root] [] no_stat = Missing f st)"
      using rw assms(6) dc by (auto simp: f_def print_in_def split: prod.splits bool.splits)
    have i: "r = (case try_roots stat dc uri [root] [] no_stat of
                 Truncated \<Rightarrow> cleanup_result (initial_result conn)
               | Exists f st \<Rightarrow> existing_file stat dc uri f st (initial_result conn)
               | Missing f st \<Rightarrow> missing_file stat dc f st (initial_result conn))"
      using assms(1) unfolding interpret_uri_def Let_def dc_def [symmetric] uri' roots by (auto simp del: try_roots.simps)
    from tr have "\<not> is_script_resource r \<and> candidate_file conn f (filename r)"
    proof (elim disjE exE)
      assume "try_roots stat dc uri [root] [] no_stat = Truncated"
      then show ?thesis using i assms(2) by (simp add: cleanup_result_def)
    next
      fix st
      assume "try_roots stat dc uri [root] [] no_stat = Exists f st"
      then have e: "r = existing_file stat dc uri f st (initial_result conn)" using i by simp
      show ?thesis
      proof (cases "substitute_index_file stat dc f PATH_MAX no_stat")
        case (fields idx tried st')
        show ?thesis
        proof (cases idx)
          case None
          then show ?thesis using e fields ns r0 by (auto simp: existing_file_def candidate_file_def Let_def)
        next
          case (Some p)
          have "\<exists>name \<in> set (index_names dc). p = strip_slashes f @ CHR ''/'' # name"
            using substitute_index_file_found fields Some assms(5) dc(1) by metis
          then show ?thesis using e fields Some ns r0 dc(5) by (auto simp: existing_file_def candidate_file_def Let_def split: prod.splits)
        qed
      qed
    next
      fix st
      assume "try_roots stat dc uri [root] [] no_stat = Missing f st"
      then have e: "r = missing_file stat dc f st (initial_result conn)" using i by simp
      define r1 where "r1 = (initial_result conn)\<lparr> filename := f, filestat := st \<rparr>"
      have n: "\<not> is_found (script_subresource stat dc l k b q)" if "\<not> is_script_resource q" "\<not> is_found q" for l k b q
        using script_subresource_none [OF ns that(1)] that(2) by blast
      have "r = r1\<lparr> filestat := filestat r, is_found := True \<rparr>" using e assms(2) n r0
        by (auto simp: missing_file_def Let_def cleanup_result_def r1_def split: if_splits option.splits prod.splits bool.splits)
      then have "is_script_resource r = is_script_resource r1" "filename r = filename r1" by (metis uri_result.select_convs uri_result.surjective uri_result.update_convs)+
      then show ?thesis using r0 by (simp add: r1_def candidate_file_def)
    qed
    then show ?thesis using Some by (simp add: f_def uri_def)
  qed
qed

lemma interpret_uri_no_script:
  assumes "interpret_uri stat conn = (r, c)" "\<And>f. \<not> extention_matches_script conn f"
  shows "\<not> is_script_resource r"
proof -
  define dc where "dc = decide_gzip conn"
  have "extention_matches_script dc = extention_matches_script conn"
    by (simp add: dc_def decide_gzip_def conf_def [abs_def] extention_matches_script_def [abs_def])
  note ns = assms(2) [folded this]
  have r0: "\<not> is_script_resource (initial_result conn)" by (simp add: initial_result_def)
  then have c: "\<not> is_script_resource (cleanup_result (initial_result conn))" by (simp add: cleanup_result_def)
  have e: "\<not> is_script_resource (existing_file stat dc u f st (initial_result conn))" for u f st
    using r0 ns by (auto simp: existing_file_def Let_def split: prod.splits option.splits)
  have m: "\<not> is_script_resource (missing_file stat dc f st (initial_result conn))" for f st
    using r0 script_subresource_none [OF ns]
    by (auto simp: missing_file_def cleanup_result_def Let_def split: prod.splits option.splits bool.splits)
  show ?thesis using assms(1) r0 c e m
    by (auto simp: interpret_uri_def Let_def dc_def [symmetric] split: if_splits root_result.splits)
qed

lemma dropWhile_append_if: "dropWhile P (xs @ ys) = (if dropWhile P xs = [] then dropWhile P ys else dropWhile P xs @ ys)"
  by (induction xs) auto

lemma strip_slashes_append:
  "strip_slashes (a @ b) = (if strip_slashes b = [] then strip_slashes a else a @ strip_slashes b)"
  by (simp add: strip_slashes_def dropWhile_append_if)

lemma dropWhile_twice: "dropWhile P (dropWhile P xs) = dropWhile P xs"
  by (induction xs) auto

lemma strip_slashes_twice [simp]: "strip_slashes (strip_slashes s) = strip_slashes s"
  by (simp add: strip_slashes_def dropWhile_twice)

lemma hd_strip_slashes: "strip_slashes w \<noteq> [] \<Longrightarrow> hd (strip_slashes w) = hd w"
  by (metis hd_append2 strip_slashes_split)

lemma candidate_inside:
  assumes "candidate_file conn (root @ u) p" "u \<noteq> []" "hd u = CHR ''/''" "stays_inside u"
    and "\<forall>name \<in> set (index_names conn). stays_inside name"
  shows "\<exists>v. p = strip_slashes root @ v \<and> (v = [] \<or> hd v = CHR ''/'') \<and> stays_inside v"
proof -
  obtain k where k: "root = strip_slashes root @ replicate k (CHR ''/'')" by (rule strip_slashes_split)
  define w where "w = replicate k (CHR ''/'') @ u"
  have w1: "root @ u = strip_slashes root @ w" unfolding w_def by (metis append.assoc k)
  have w2: "hd w = CHR ''/''" using assms(3) by (cases k) (simp_all add: w_def)
  have w3: "stays_inside w" using assms(4) by (simp add: w_def stays_inside_slashes)
  define v where "v = strip_slashes w"
  have v: "strip_slashes (root @ u) = strip_slashes root @ v" "v = [] \<or> hd v = CHR ''/''" "stays_inside v"
    using w2 hd_strip_slashes [of w] stays_inside_strip [OF w3] unfolding w1 v_def strip_slashes_append by auto
  consider "p = root @ u" | "p = strip_slashes (root @ u)"
    | name where "name \<in> set (index_names conn)" "p = strip_slashes (root @ u) @ CHR ''/'' # name"
    using assms(1) unfolding candidate_file_def by blast
  then show ?thesis
  proof cases
    case 1
    then show ?thesis using w1 w2 w3 by metis
  next
    case 2
    then show ?thesis using v by blast
  next
    case 3
    have "stays_inside (v @ CHR ''/'' # name)" using v(3) assms(5) 3(1) stays_inside_append by blast
    moreover have "hd (v @ CHR ''/'' # name) = CHR ''/''" using v(2) by (cases v) auto
    ultimately show ?thesis using 3(2) v(1) by auto
  qed
qed

lemma request_conn_uri:
  "the (local_uri (request_info (request_conn env sv))) = remove_dot_segments (mg_strdup (the (local_uri_raw (request_info (request_conn env sv)))))"
  by (simp add: request_conn_def prepare_request_def clean_uri_def Let_def)

end
