(* ===== verification/Request_Properties.thy ===== *)
theory Request_Properties
  imports Served_Files "HOL-Library.Code_Target_Numeral"
begin

text \<open>
  What \<open>handle_request\<close> guarantees: no action without the check that allows it, no file outside the
  document root, no protected file without credentials.
\<close>




text \<open>
  A request gives back the handler reference it acquired. The registry of handlers is the same
  before and after, unless a handler declined the request and then the authorization for the file
  was refused.
\<close>

lemma handler_references_given_back:
  assumes "handle_request env sv = (trace, sv')" "callbacks_const env"
    and "\<forall>h d. Call_Handler h d \<in> set trace \<longrightarrow> last trace \<noteq> Ask_Authorization \<and> last trace \<noteq> Checked_By_Handler False"
  shows "sv_handlers sv' = sv_handlers sv"
  using handle_request_cases(2) [OF assms(1,2)] assms(3) by (auto simp: released_again_def)

text \<open>An authorization handler accepted the request.\<close>

fun by_handler :: "request_action \<Rightarrow> bool" where
  "by_handler (Checked_By_Handler ok) = ok"
| "by_handler _ = False"

lemma check_authorization_without_credentials:
  assumes "fst (check_authorization fs (Some c) n p)" "dom_ctx c \<noteq> None" "mg_get_header c ''Authorization'' = None"
  shows "open_auth_file fs c p = None"
proof -
  have "parse_auth_header c n MG_BUF_LEN = None" using assms(3) by (simp add: parse_auth_header_def)
  then have "\<not> fst (authorize fs c n content None)" for content by (simp add: authorize_def)
  moreover have "(case authorize fs c n content None of (r, conn') \<Rightarrow> (r, Some conn')) =
      (fst (authorize fs c n content None), Some (snd (authorize fs c n content None)))" for content
    by (simp add: case_prod_beta)
  ultimately show ?thesis using assms(1,2) unfolding check_authorization_def Let_def by (auto split: option.splits)
qed

section \<open>Example requests\<close>

definition example_config :: config where
  "example_config = (\<lambda>opt. if opt = DOCUMENT_ROOT then Some ''/w'' else if opt = INDEX_FILES then Some ''index.html''
     else if opt = ENABLE_WEBDAV then Some ''no'' else None)"

definition example_request :: "config \<Rightarrow> string \<Rightarrow> string \<Rightarrow> mg_header list \<Rightarrow> mg_connection" where
  "example_request cfg method0 u hs = test_connection\<lparr> dom_ctx := Some cfg,
     request_info := (request_info test_connection)\<lparr> request_method := Some method0, request_uri := Some u,
       local_uri_raw := Some u, local_uri := Some u, http_headers := hs \<rparr> \<rparr>"

definition example_env :: "(string \<times> bool) list \<Rightarrow> string list \<Rightarrow> int \<Rightarrow> request_env" where
  "example_env fs protected ret = \<lparr> stat_file = (\<lambda>p. map_option (\<lambda>d. no_stat\<lparr> is_directory := d \<rparr>) (map_of fs p)),
     read_file = (\<lambda>p. if p \<in> set protected then Some [] else None), listeners = [],
     ssl_redir = False, throttle_for = (\<lambda>_ _ _. 0), curtime = 0, begin_request = None,
     request_function = (\<lambda>_ _ c. (ret, c)), auth_function = (\<lambda>_ _ c. (1, c)) \<rparr>"

definition example_state :: "mg_handler_info list \<Rightarrow> mg_connection \<Rightarrow> server_state" where
  "example_state rhs conn = \<lparr> sv_conn = conn, sv_handlers = rhs, sv_nonces = \<lparr> auth_nonce_mask = 0, nonce_count = 0, start_time = 0 \<rparr> \<rparr>"

lemma example_callbacks: "callbacks_const (example_env fs protected ret)"
  by (simp add: callbacks_const_def example_env_def)

text \<open>The file \<open>/w/a\<close>, requested without credentials.\<close>

definition get_env :: "string list \<Rightarrow> request_env" where
  "get_env protected = example_env [(''/w/a'', False)] protected 1"

definition get_state :: server_state where
  "get_state = example_state [] (example_request example_config ''GET'' ''/a'' [])"

definition get_trace :: "string list \<Rightarrow> request_action list" where
  "get_trace protected = fst (handle_request (get_env protected) get_state)"



lemma get_result: "handle_request (get_env ps) get_state = (get_trace ps, snd (handle_request (get_env ps) get_state))"
  by (simp add: get_trace_def)

lemma get_env_callbacks: "callbacks_const (get_env ps)"
  by (simp add: get_env_def example_callbacks)

lemma get_conn:
  "connection_type (request_conn (get_env ps) get_state) = CONNECTION_TYPE_REQUEST"
  "protocol_type (request_conn (get_env ps) get_state) = PROTOCOL_TYPE_HTTP1"
  "dom_ctx (request_conn (get_env ps) get_state) = Some example_config"
  "http_headers (request_info (request_conn (get_env ps) get_state)) = []"
  by (simp_all add: request_conn_def prepare_request_def clean_uri_def decode_query_def decode_uri_def split_query_def Let_def
      get_state_def example_state_def example_request_def test_connection_def)


lemma refused_trace:
  assumes "begin_request env = None" "\<not> ssl_redir env" "\<not> preflight_applies (request_conn env sv)" "sv_handlers sv = []"
    and "interpret_uri (stat_file env) (request_conn env sv) = (r, c)" "\<not> is_webdav_request r" "\<not> is_put_or_delete_request r"
    and "\<not> fst (check_authorization (files env) (Some c) (sv_nonces sv) (filename r))"
  shows "fst (handle_request env sv) = [Checked_Path c (filename r) False, Ask_Authorization]"
  using assms
  by (simp add: handle_request_def request_conn_def Let_def preflight_or_route_def route_request_def file_resource_def
      authorization_def get_request_handler_def find_handler_def case_prod_beta)

lemma get_trace_refused: "\<not> list_ex by_handler (get_trace [''/w/.htpasswd''])"
proof -
  let ?env = "get_env [''/w/.htpasswd'']"
  let ?conn = "request_conn ?env get_state"
  obtain r c where i: "interpret_uri (stat_file ?env) ?conn = (r, c)" by fastforce
  have "\<not> is_webdav_request (fst (interpret_uri (stat_file ?env) ?conn)) \<and>
      \<not> is_put_or_delete_request (fst (interpret_uri (stat_file ?env) ?conn)) \<and>
      filename (fst (interpret_uri (stat_file ?env) ?conn)) = ''/w/a''" by code_simp
  moreover have "\<not> fst (check_authorization (files ?env) (Some (snd (interpret_uri (stat_file ?env) ?conn))) (sv_nonces get_state) ''/w/a'')"
    by code_simp
  moreover have "\<not> preflight_applies ?conn" by code_simp
  ultimately have "get_trace [''/w/.htpasswd''] = [Checked_Path c (filename r) False, Ask_Authorization]"
    unfolding get_trace_def using i by (intro refused_trace) (simp_all add: get_env_def example_env_def get_state_def example_state_def)
  then show ?thesis by simp
qed

section \<open>Properties\<close>





text \<open>
  C40: a directory with a \<open>.htpasswd\<close> file gives nothing to a request without credentials. Without a
  global passwords file and an accepting authorization handler, no file of the directory is sent, no
  script in it is run and the directory is not listed, if the request has no Authorization header;
  whatever the other handlers and options are.
\<close>

theorem htpasswd_needs_credentials:
  assumes "handle_request env sv = (trace, sv')" "callbacks_const env" "\<not> list_ex by_handler trace"
  defines "conn \<equiv> request_conn env sv"
  assumes "connection_type conn = CONNECTION_TYPE_REQUEST" "get_header (http_headers (request_info conn)) ''Authorization'' = None"
    and "dom_ctx conn \<noteq> None" "conf conn GLOBAL_PASSWORDS_FILE = None"
    and "f = (if fs_directory (files env) p then p else parent_path p) @ ''/.htpasswd''" "length f < PATH_MAX" "read_file env f = Some content"
    and "needs_check a" "\<not> changes_file a" "action_path a = Some p"
  shows "a \<notin> set trace"
proof
  assume "a \<in> set trace"
  then obtain i where i: "i < length trace" "trace ! i = a" by (auto simp: in_set_conv_nth)
  define e where "e = trace ! (i - 1)"
  have al: "allows env (sv_nonces sv) conn e a"
    using guarded_nth [OF handle_request_cases(1) [OF assms(1,2)] i(1)] assms(12) i(2) by (simp add: conn_def e_def)
  have "e \<in> set trace" using i(1) by (simp add: e_def)
  then have "\<not> by_handler e" using assms(3) by (auto simp: list_ex_iff)
  then obtain c where c: "same_request conn c" "fst (check_authorization (files env) (Some c) (sv_nonces sv) p)"
    using al assms(13,14) by (cases e) auto
  note sc = same_request_info [OF c(1)]
  have "mg_get_header c ''Authorization'' = None" using sc assms(5,6) by (simp add: mg_get_header_def)
  then have "open_auth_file (files env) c p = None"
    using check_authorization_without_credentials [OF c(2)] sc(5) assms(7) by simp
  then show False using sc assms(7-11) by (auto simp: open_auth_file_def print_in_def files_def split: if_splits)
qed

lemma htpasswd_needs_credentials_witness:
  "Static_File ''/w/a'' no_stat \<notin> set (get_trace [''/w/.htpasswd''])"
proof (rule htpasswd_needs_credentials [OF get_result, of _ _ "''/w/a''" "[]"])
  show "(''/w/.htpasswd'' :: string) = (if fs_directory (files (get_env [''/w/.htpasswd''])) ''/w/a'' then ''/w/a'' else parent_path ''/w/a'') @ ''/.htpasswd''"
    by code_simp
  show "read_file (get_env [''/w/.htpasswd'']) ''/w/.htpasswd'' = Some []" by (simp add: get_env_def example_env_def)
qed (simp_all add: get_trace_refused get_conn conf_def example_config_def get_header_def PATH_MAX_def get_env_callbacks)

section \<open>The search for a script that takes the rest of the path\<close>

text \<open>
  With \<open>allow_index_script_sub_resource\<close> the search finds an index file that is no script and names its
  directory, so the removal of a file that does not exist becomes the removal of the directory.
\<close>

definition auth_entry :: "string \<Rightarrow> mg_handler_info" where
  "auth_entry u = \<lparr> addr = 8, uri = u, handler_type = AUTH_HANDLER, cbs = no_callbacks\<lparr> auth_cb := Some 1 \<rparr>, refcount = 0, removing = False \<rparr>"

definition subres_config :: config where
  "subres_config = example_config(ALLOW_INDEX_SCRIPT_SUB_RES := Some ''yes'', PUT_DELETE_PASSWORDS_FILE := Some ''/p'')"

lemma delete_names_directory:
  "map (\<lambda>a. (changes_file a, action_path a)) (fst (handle_request
      (example_env [(''/w/d'', True), (''/w/d/index.html'', False)] [] 1)
      (example_state [auth_entry ''/d/x''] (example_request subres_config ''DELETE'' ''/d/x'' [])))) =
    [(False, None), (True, Some ''/w/d'')]"
  by code_simp

text \<open>The search does not stop at the document root: a script in the directory above it is run.\<close>

lemma script_above_root_runs:
  "map action_path (fst (handle_request
      (example_env [(''/w'', True), (''/i.cgi'', False)] [] 1)
      (example_state [] (example_request (subres_config(INDEX_FILES := Some ''i.cgi'', CGI_EXTENSIONS := Some ''**.cgi$'')) ''GET'' ''/x'' [])))) =
    [None, Some ''/i.cgi'']"
  by code_simp

end
