(* ===== verification/Spec2Isabelle.thy ===== *)
theory Spec2Isabelle
  imports Base64 Url_Codec Mg_Match Config Http_Parser Dates Response Http_Body Paths Websocket Acl Handlers Sock_Queue Sha1 Md5 Passwords Auth File_Lookup Requests Request_Checks Served_Files Request_Properties
begin

text \<open>
  A verification library for the core of CivetWeb, an embeddable HTTP server written in C. Each theory
  is a functional model of one part of \<open>src/src/civetweb.c\<close>, or of a file it includes (\<open>match.inl\<close>,
  \<open>sort.inl\<close>, \<open>response.inl\<close>, \<open>sha1.inl\<close>, \<open>md5.inl\<close>), followed by the theorems that make the part
  correct. Definitions have the names of the C functions; a loop inside a function has a name of its
  own. The manifest \<open>PROJECT.json\<close> maps each definition to its lines.

  \<^bold>\<open>The way of a request.\<close> The master thread accepts a socket and hands it to a worker through a ring
  buffer (\<open>Sock_Queue\<close>), after a look at the access control list (\<open>Acl\<close>). The worker reads the head of
  a message from the connection (\<open>Connection\<close>) and parses it (\<open>Http_Parser\<close>); header fields and options
  decide about keep-alive and decoding (\<open>Headers\<close>, \<open>Option_List\<close>, \<open>Config\<close>). \<open>handle_request\<close>
  (\<open>Requests\<close>) decodes and cleans the URI (\<open>Url_Codec\<close>, \<open>Paths\<close>), looks for a handler (\<open>Handlers\<close>, with
  the patterns of \<open>Mg_Match\<close>) or a file (\<open>File_Lookup\<close>), checks the authorization (\<open>Auth\<close>, with
  \<open>Passwords\<close> and \<open>Md5\<close>) and calls what serves the request. The body is read, and what is left of it
  discarded, by \<open>Http_Body\<close>; the head of the answer is written by \<open>Response\<close>; a connection that was
  upgraded runs the frame loop of \<open>Websocket\<close>.

  \<^bold>\<open>Theories.\<close>
  \<^item> \<open>Civet_Prelude\<close>, \<open>C_Strings\<close>, \<open>C_Numbers\<close>: lists and C strings with their terminator, two shared
    interfaces, the string functions \<open>mg_strlcpy\<close> to \<open>mg_strcasestr\<close>, printed and scanned numbers.
  \<^item> \<open>Base64\<close>, \<open>Url_Codec\<close>: the codecs with their buffer limits; each decoder inverts its encoder. Form
    variables and cookies are found again; the searches end. Lengths that the code casts to \<open>int\<close> are
    cast here too.
  \<^item> \<open>Mg_Sort\<close>, \<open>Mg_Match\<close>: the gap sort sorts; the backtracking matcher is sound and complete for an
    inductive meaning of the wildcards, and its context of matched pieces stays well-formed.
  \<^item> \<open>Config\<close>, \<open>Option_List\<close>, \<open>Headers\<close>: the option table as an enumeration with names and defaults, and
    the lists in option values; iterating \<open>next_option\<close> splits at commas, trims, drops empty fields and
    splits at the first equals sign.
  \<^item> \<open>Connection\<close>: \<open>mg_connection\<close> as a record with the state the code keeps, the bytes on the wire and a
    script of what each system call will answer (\<open>send_event\<close>, \<open>recv_event\<close>). Writing puts a prefix of
    the data on the wire and accounts for it; reading takes the bytes of the peer in order, and loses some
    only when the server is being stopped (\<open>Recv_Late\<close>).
  \<^item> \<open>Http_Parser\<close>: heads of requests and responses. What is rendered is parsed back; what is accepted is
    inside the buffer and well-formed; bytes behind the head do not matter.
  \<^item> \<open>Dates\<close>, \<open>Response\<close>: dates are read back; the calls that build a response are a state machine over
    \<open>request_state\<close>; the head on the wire is exactly the rendered one and is parsed back by the client side.
  \<^item> \<open>Http_Body\<close>: \<open>mg_read\<close> for bodies of known length, chunked bodies and bodies without length; chunked
    reading refines reading the joined data; sender and receiver fit; discarding a body reaches the next request.
  \<^item> \<open>Paths\<close>, \<open>File_Lookup\<close>, \<open>Served_Files\<close>: \<open>remove_dot_segments\<close> against the segment stack of RFC 3986, hidden files, MIME
    types; from the URI to a file (\<open>interpret_uri\<close>); the file found lies in the document root.
  \<^item> \<open>Handlers\<close>: the registry as a list of entries with reference counters; a step relation of the sections
    that several threads execute under the context lock. An entry in use stays; setting a handler updates
    the map from type and URI to callbacks.
  \<^item> \<open>Sock_Queue\<close>: the ring buffer with the sections of master and workers, as events in any order.
  \<^item> \<open>Acl\<close>: the text of a list of networks is decided by its last matching entry.
  \<^item> \<open>Hash_Blocks\<close>, \<open>Sha1\<close>, \<open>Md5\<close>: the incremental contexts against independent formulations of FIPS 180 and RFC 1321.
  \<^item> \<open>Passwords\<close>, \<open>Auth\<close>: changing a passwords file is a map update; the Authorization header, the nonce
    window and the search of passwords files; who has set a password can log in.
  \<^item> \<open>Websocket\<close>: frames are sent, cut, read, unmasked and delivered; a silent client is dropped.
  \<^item> \<open>Requests\<close>, \<open>Request_Checks\<close>, \<open>Request_Properties\<close>: \<open>handle_request\<close> as a function to the trace of its checks and
    of the calls that serve, for every configuration, registry, callback and file system. Every such
    call has its check directly in front; files sent lie in the document root; protected directories need
    credentials.

  \<^bold>\<open>Interfaces.\<close> Contracts that several parts share are locales, interpreted on the definitions of the
  model: \<open>codec\<close> (Base64, URL encoding, decimal numbers), \<open>comparator\<close> (the three-way comparisons
  \<open>mg_strcasecmp\<close> and \<open>match_compare\<close>, and the order \<open>mg_sort\<close> relies on), \<open>fifo\<close> (the ring buffer of
  sockets), \<open>hash_context\<close> (the SHA-1 and MD5 contexts: feeding pieces is feeding their concatenation).

  \<^bold>\<open>Modelling.\<close> Strings are lists of characters; a buffer with a terminator is cut by \<open>cstr\<close>. Integers that
  wrap are words or reduced explicitly (\<open>to_signed\<close>, \<open>C_Numbers\<close>); lengths of objects in memory are
  natural numbers. Errors are the return values of the code, missing pointers are \<open>None\<close>. Loops that
  end are total functions with a measure: there is no fuel, except that the frame loop, which a peer can
  keep running, is driven by the finite script of what the peer does, and \<open>mg_get_cookie\<close>, which can
  run forever, is a partial function whose end is a theorem for every name that is not empty.
  Callbacks, the answers of the operating system (sockets, clock, \<open>stat\<close>, file contents, failures of
  writes) and random numbers are arguments.

  \<^bold>\<open>Configuration of the build.\<close> Linux on a little-endian machine, websockets on, CGI on, no TLS, no IPv6, no zlib, no Lua or Duktape, no HTTP/2, no
  \<open>ALTERNATIVE_QUEUE\<close>, no server statistics. Allocations succeed.

  \<^bold>\<open>Not modelled.\<close> TLS (glue for libraries that are not in the repository); threads, timers and the start of
  the server (operating system calls; the sections under a lock are modelled where their order
  matters); what the functions that serve do after \<open>handle_request\<close> called them (static file transfer and
  ranges, directory listing, SSI, CGI processes, WebDAV); the websocket handshake and compression;
  multipart forms; client connections above the parser; error pages, redirects and logging; HTTP/2, Lua,
  Duktape, the Windows port, the standalone server and the C++ wrapper.
\<close>

end
